(* ===== verification/Go_Prelude.thy ===== *)
theory Go_Prelude
  imports Main "HOL-Library.Word"
begin

text \<open>
  What every component theory of the development shares: the machine integers of the
  Go language (fixed-width words, and the 64-bit two's complement \<open>int\<close>), the outcome of
  a Go call (a value, a returned error, or a crash of the goroutine or process), slices
  and their in-place updates, and the byte orders of \<open>encoding/binary\<close>.
  The collections \<open>go_simps\<close> (facts on outcomes, slices and byte orders) and
  \<open>go_defs\<close> (definitions that a component wants unfolded by its own proofs) are what the
  component proofs hand to the simplifier.
\<close>

unbundle bit_operations_syntax

named_theorems go_simps \<open>simplification of outcomes, slices and encodings\<close>
named_theorems go_defs \<open>definitions of small operations, to be unfolded\<close>

section \<open>Machine integers\<close>

type_synonym byte = "8 word"
type_synonym uint16 = "16 word"
type_synonym uint32 = "32 word"
type_synonym uint64 = "64 word"

text \<open>
  Go's \<open>int\<close>, \<open>int64\<close> and \<open>time.Duration\<close> are 64-bit two's complement values: they are
  integers here, and \<open>int64\<close> is the reduction that every arithmetic operation applies.
\<close>

definition int64 :: "int \<Rightarrow> int" where
  "int64 x = (x + 2 ^ 63) mod 2 ^ 64 - 2 ^ 63"

definition is_int64 :: "int \<Rightarrow> bool" where
  "is_int64 x \<longleftrightarrow> - (2 ^ 63) \<le> x \<and> x < 2 ^ 63"

lemma int64_id [simp]: "is_int64 x \<Longrightarrow> int64 x = x"
  by (simp add: int64_def is_int64_def)

lemma is_int64_int64 [simp]: "is_int64 (int64 x)"
proof -
  have "0 \<le> (x + 2 ^ 63) mod 2 ^ 64" and "(x + 2 ^ 63) mod 2 ^ 64 < (2::int) ^ 64"
    by simp_all
  then show ?thesis unfolding int64_def is_int64_def by auto
qed

lemma int64_cong: "x mod 2 ^ 64 = y mod 2 ^ 64 \<Longrightarrow> int64 x = int64 y"
  unfolding int64_def by (metis mod_add_left_eq)

lemma int64_mod: "int64 x mod 2 ^ 64 = x mod 2 ^ 64"
  unfolding int64_def
  by (metis add_diff_cancel_right' mod_diff_left_eq)

lemma int64_add_left [simp]: "int64 (int64 x + y) = int64 (x + y)"
  by (rule int64_cong) (metis int64_mod mod_add_left_eq)

lemma int64_add_right [simp]: "int64 (x + int64 y) = int64 (x + y)"
  by (rule int64_cong) (metis int64_mod mod_add_right_eq)

text \<open>Go's integer division truncates towards zero.\<close>

definition go_div :: "int \<Rightarrow> int \<Rightarrow> int" where
  "go_div a b = sgn a * sgn b * (\<bar>a\<bar> div \<bar>b\<bar>)"

lemma go_div_nonneg: "0 \<le> a \<Longrightarrow> 0 < b \<Longrightarrow> go_div a b = a div b"
  by (cases "a = 0") (auto simp: go_div_def)

section \<open>Outcomes of a call\<close>

text \<open>
  A Go function with results \<open>(T, error)\<close> either returns a value with a nil error, or an
  error; and it may crash: an index out of range or a nil dereference panics, and the
  sources call \<open>zap.L().Fatal\<close>, which ends the process.
\<close>

datatype ('e, 'a) outcome = Ok 'a | Err 'e | Crash string

primrec is_ok :: "('e, 'a) outcome \<Rightarrow> bool" where
  "is_ok (Ok x) = True"
| "is_ok (Err e) = False"
| "is_ok (Crash m) = False"

primrec is_crash :: "('e, 'a) outcome \<Rightarrow> bool" where
  "is_crash (Ok x) = False"
| "is_crash (Err e) = False"
| "is_crash (Crash m) = True"

lemma is_ok_iff: "is_ok r \<longleftrightarrow> (\<exists>x. r = Ok x)"
  by (cases r) auto

section \<open>Slices\<close>

text \<open>\<open>slice i j xs\<close> is Go's \<open>xs[i:j]\<close>, and \<open>blit xs i ys\<close> is the array \<open>xs\<close> after
  \<open>copy(xs[i:], ys)\<close> for a source that fits.\<close>

definition slice :: "nat \<Rightarrow> nat \<Rightarrow> 'a list \<Rightarrow> 'a list" where
  "slice i j xs = take (j - i) (drop i xs)"

definition blit :: "'a list \<Rightarrow> nat \<Rightarrow> 'a list \<Rightarrow> 'a list" where
  "blit xs i ys = take i xs @ ys @ drop (i + length ys) xs"

lemma length_slice [simp]: "j \<le> length xs \<Longrightarrow> length (slice i j xs) = j - i"
  by (simp add: slice_def)

lemma slice_empty [simp]: "slice i i xs = []"
  by (simp add: slice_def)

lemma slice_full [simp]: "slice 0 (length xs) xs = xs"
  by (simp add: slice_def)

lemma length_blit [simp]: "i + length ys \<le> length xs \<Longrightarrow> length (blit xs i ys) = length xs"
  by (simp add: blit_def)

lemma nth_slice: "i + k < j \<Longrightarrow> j \<le> length xs \<Longrightarrow> slice i j xs ! k = xs ! (i + k)"
  by (simp add: slice_def)

lemma nth_blit:
  assumes "i + length ys \<le> length xs" and "k < length xs"
  shows "blit xs i ys ! k = (if i \<le> k \<and> k < i + length ys then ys ! (k - i) else xs ! k)"
  using assms by (auto simp: blit_def nth_append)

lemma slice_eqI:
  assumes "j \<le> length xs" and "j \<le> length ys"
    and "\<And>k. i \<le> k \<Longrightarrow> k < j \<Longrightarrow> xs ! k = ys ! k"
  shows "slice i j xs = slice i j ys"
  by (rule nth_equalityI) (use assms in \<open>auto simp: nth_slice less_diff_conv\<close>)

lemma slice_blit_same:
  "i + length ys \<le> length xs \<Longrightarrow> j = i + length ys \<Longrightarrow> slice i j (blit xs i ys) = ys"
  by (rule nth_equalityI) (auto simp: nth_slice nth_blit)

lemma slice_blit_before:
  "i + length ys \<le> length xs \<Longrightarrow> b \<le> i \<Longrightarrow> slice a b (blit xs i ys) = slice a b xs"
  by (rule slice_eqI) (auto simp: nth_blit)

lemma slice_blit_after:
  "i + length ys \<le> length xs \<Longrightarrow> i + length ys \<le> a \<Longrightarrow> b \<le> length xs \<Longrightarrow>
   slice a b (blit xs i ys) = slice a b xs"
  by (rule slice_eqI) (auto simp: nth_blit)

lemma slice_append_left [simp]: "j \<le> length xs \<Longrightarrow> slice i j (xs @ ys) = slice i j xs"
  by (simp add: slice_def)

lemma slice_slice: "b \<le> j - i \<Longrightarrow> slice a b (slice i j xs) = slice (i + a) (i + b) xs"
  by (simp add: slice_def drop_take min_def add.commute)

lemma slice_concat:
  assumes "a \<le> b" and "b \<le> c"
  shows "slice a b xs @ slice b c xs = slice a c xs"
proof -
  obtain d e where "b = a + d" and "c = b + e"
    using assms by (auto simp: le_iff_add)
  then show ?thesis
    by (simp add: slice_def take_add add.commute)
qed

section \<open>Lists\<close>

lemma set_map_filter: "set (List.map_filter f xs) = {y. \<exists>x\<in>set xs. f x = Some y}"
  by (force simp: List.map_filter_def)

lemma map_filter_cong: "(\<And>x. x \<in> set xs \<Longrightarrow> f x = g x) \<Longrightarrow> List.map_filter f xs = List.map_filter g xs"
  by (induction xs) (simp_all add: map_filter_simps split: option.split)

lemma distinct_map_filter:
  assumes "distinct xs" and "\<And>x y z. f x = Some z \<Longrightarrow> f y = Some z \<Longrightarrow> x = y"
  shows "distinct (List.map_filter f xs)"
  using assms(1)
proof (induction xs)
  case (Cons x xs)
  show ?case
  proof (cases "f x")
    case (Some z)
    then have "z \<notin> set (List.map_filter f xs)"
      using Cons.prems assms(2) by (fastforce simp: set_map_filter)
    then show ?thesis using Some Cons by (simp add: map_filter_simps)
  qed (use Cons in \<open>simp add: map_filter_simps\<close>)
qed (simp add: map_filter_simps)

lemma map_filter_concat: "List.map_filter f (concat xss) = concat (map (List.map_filter f) xss)"
  by (induction xss) (simp_all add: map_filter_simps List.map_filter_def)

lemma distinct_concat_map:
  assumes "distinct is" and "\<And>i. i \<in> set is \<Longrightarrow> distinct (f i)" and "\<And>i x. i \<in> set is \<Longrightarrow> x \<in> set (f i) \<Longrightarrow> g x = i"
  shows "distinct (concat (map f is))"
  using assms
proof (induction "is")
  case (Cons i "is")
  have "set (f i) \<inter> set (f j) = {}" if "j \<in> set is" for j
    using Cons.prems(1,3) that by (metis disjoint_iff distinct.simps(2) list.set_intros)
  then show ?case using Cons by auto
qed simp

lemma zip_nth_upt: "length bs = n \<Longrightarrow> zip bs [0..<n] = map (\<lambda>i. (bs ! i, i)) [0..<n]"
  by (rule nth_equalityI) simp_all

section \<open>Intervals of machine words\<close>

lemma word_succ_le_iff:
  fixes a b :: "'a::len word"
  assumes "unat (a + 1) = unat a + 1"
  shows "a + 1 \<le> b \<longleftrightarrow> a < b"
  unfolding word_le_nat_alt word_less_nat_alt assms by auto

lemma word_atLeastLessThan_step:
  fixes a b :: "'a::len word"
  assumes "unat (a + 1) = unat a + 1" and "a < b"
  shows "{a..<b} = insert a {a + 1..<b}"
  using assms(2) by (auto simp: word_succ_le_iff [OF assms(1)])

lemma word_atLeastAtMost_step:
  fixes a b :: "'a::len word"
  assumes "unat (a + 1) = unat a + 1" and "a \<le> b"
  shows "{a..b} = insert a {a + 1..b}"
  using assms(2) by (auto simp: word_succ_le_iff [OF assms(1)])

lemma card_word_interval:
  fixes a b :: "'a::len word"
  assumes "a \<le> b"
  shows "card {a..b} = unat b - unat a + 1"
proof -
  have "unat ` {a..b} = {unat a..unat b}"
  proof (rule set_eqI, rule iffI)
    fix k assume k: "k \<in> {unat a..unat b}"
    then have "unat (word_of_nat k :: 'a word) = k"
      by (metis atLeastAtMost_iff le_unat_uoi)
    moreover from this k have "word_of_nat k \<in> {a..b}"
      by (simp add: word_le_nat_alt)
    ultimately show "k \<in> unat ` {a..b}" by force
  qed (auto simp: word_le_nat_alt)
  moreover have "inj_on unat {a..b}" by (rule inj_onI) (simp add: word_unat_eq_iff)
  ultimately have "card {a..b} = card {unat a..unat b}" by (metis card_image)
  also have "\<dots> = unat b - unat a + 1" using assms by (simp add: word_le_nat_alt)
  finally show ?thesis .
qed

end
