(* ===== verification/Xerror.thy ===== *)
theory Xerror
  imports Go_Prelude
begin

text \<open>
  The error package (\<open>src/xerror/errors.go\<close>): the error types with their HTTP status and
  API code, the error value and its constructors, the two serializers that turn an error
  into an HTTP response, the report an error sends to the metrics and to Sentry, and the
  shortening of the caller's file path.
  The API codes are constants of the external package \<open>vpnhouse/api\<close>: they are named here
  by a datatype. Encoding the response body as JSON is left to the JSON encoder: a
  response is the status and the API error structure that is encoded.
\<close>

section \<open>Error types\<close>

datatype error_result =
    INTERNALERROR | INVALIDARGUMENT | NOTFOUND | ENTRYEXISTS | STORAGEERROR | TUNNELERROR
  | UNAUTHORIZED | AUTHFAILED | INSUFFICIENTSTORAGE | SERVICEUNAVAILABLE
  | CONFIGURATIONREQUIRED | FORBIDDEN | INVALIDCONFIGURATION | TOOLONG | TOOEARLY
  | NOLICENSE | LIMITEXCEEDED | UNKNOWN_ERROR

text \<open>The error types are distinct variables of the package, compared by their address.\<close>

datatype error_type =
    EInternalErrorType | EInvalidArgumentType | EEntryNotFoundType | EExistsType
  | EStorageErrorType | ETunnelErrorType | EUnauthorizedType | EAuthenticationFailedType
  | ENotEnoughSpaceType | EUnavailableType | EConfigurationRequiredType | EForbiddenType
  | EInvalidConfigurationType | EEntityTooLargeType | ETooEarlyType | ENoLicenseType
  | ELimitExceededType

fun httpCode :: "error_type \<Rightarrow> int" where
  "httpCode EInternalErrorType = 500"
| "httpCode EInvalidArgumentType = 400"
| "httpCode EEntryNotFoundType = 404"
| "httpCode EExistsType = 409"
| "httpCode EStorageErrorType = 500"
| "httpCode ETunnelErrorType = 500"
| "httpCode EUnauthorizedType = 401"
| "httpCode EAuthenticationFailedType = 401"
| "httpCode ENotEnoughSpaceType = 507"
| "httpCode EUnavailableType = 503"
| "httpCode EConfigurationRequiredType = 409"
| "httpCode EForbiddenType = 403"
| "httpCode EInvalidConfigurationType = 500"
| "httpCode EEntityTooLargeType = 413"
| "httpCode ETooEarlyType = 425"
| "httpCode ENoLicenseType = 403"
| "httpCode ELimitExceededType = 403"

fun codeName :: "error_type \<Rightarrow> error_result" where
  "codeName EInternalErrorType = INTERNALERROR"
| "codeName EInvalidArgumentType = INVALIDARGUMENT"
| "codeName EEntryNotFoundType = NOTFOUND"
| "codeName EExistsType = ENTRYEXISTS"
| "codeName EStorageErrorType = STORAGEERROR"
| "codeName ETunnelErrorType = TUNNELERROR"
| "codeName EUnauthorizedType = UNAUTHORIZED"
| "codeName EAuthenticationFailedType = AUTHFAILED"
| "codeName ENotEnoughSpaceType = INSUFFICIENTSTORAGE"
| "codeName EUnavailableType = SERVICEUNAVAILABLE"
| "codeName EConfigurationRequiredType = CONFIGURATIONREQUIRED"
| "codeName EForbiddenType = FORBIDDEN"
| "codeName EInvalidConfigurationType = INVALIDCONFIGURATION"
| "codeName EEntityTooLargeType = TOOLONG"
| "codeName ETooEarlyType = TOOEARLY"
| "codeName ENoLicenseType = NOLICENSE"
| "codeName ELimitExceededType = LIMITEXCEEDED"

section \<open>Error values\<close>

datatype serializer = DefaultSerializer | SecretiveSerializer

datatype level = LevelError | LevelWarning

text \<open>
  A Go \<open>error\<close> is the package's own \<open>Error\<close>, or an error from elsewhere: a sentinel or a
  formatted error, with an identity, a text and possibly the error it wraps.
\<close>

datatype go_error =
    XError (errorType: error_type) (description: string) (nestedError: "go_error option")
      (failedField: "string option") (warningLabel: string) (err_serializer: serializer)
      (externalLoggerLevel: level)
  | Plain (identity: string) (err_text: string) (wrapped: "go_error option")

definition newError ::
  "error_type \<Rightarrow> string \<Rightarrow> serializer \<Rightarrow> go_error option \<Rightarrow> string option \<Rightarrow> go_error" where
  "newError t d s err field = XError t d err field [] s LevelError"

definition newWarning ::
  "error_type \<Rightarrow> string \<Rightarrow> serializer \<Rightarrow> go_error option \<Rightarrow> string option \<Rightarrow> string \<Rightarrow> go_error" where
  "newWarning t msg s err field label =
     (let label = (if length label = 0 then ''unset'' else label)
      in XError t msg err field label s LevelWarning)"

lemmas error_defs [go_defs] = newError_def newWarning_def

definition EInternalError :: "string \<Rightarrow> go_error option \<Rightarrow> go_error" where
  "EInternalError d err = newError EInternalErrorType d SecretiveSerializer err None"

definition WInternalError :: "string \<Rightarrow> string \<Rightarrow> go_error option \<Rightarrow> go_error" where
  "WInternalError label d err = newWarning EInternalErrorType d SecretiveSerializer err None label"

definition EInvalidArgument :: "string \<Rightarrow> go_error option \<Rightarrow> go_error" where
  "EInvalidArgument d err = newError EInvalidArgumentType d DefaultSerializer err None"

definition WInvalidArgument :: "string \<Rightarrow> string \<Rightarrow> go_error option \<Rightarrow> go_error" where
  "WInvalidArgument label d err = newWarning EInvalidArgumentType d DefaultSerializer err None label"

definition EInvalidField :: "string \<Rightarrow> string \<Rightarrow> go_error option \<Rightarrow> go_error" where
  "EInvalidField d field err = newError EInvalidArgumentType d DefaultSerializer err (Some field)"

definition WInvalidField :: "string \<Rightarrow> string \<Rightarrow> string \<Rightarrow> go_error option \<Rightarrow> go_error" where
  "WInvalidField label d field err =
     newWarning EInvalidArgumentType d DefaultSerializer err (Some field) label"

definition EEntryNotFound :: "string \<Rightarrow> go_error option \<Rightarrow> go_error" where
  "EEntryNotFound d err = newError EEntryNotFoundType d DefaultSerializer err None"

definition WEntryNotFound :: "string \<Rightarrow> string \<Rightarrow> go_error option \<Rightarrow> go_error" where
  "WEntryNotFound label d err = newWarning EEntryNotFoundType d DefaultSerializer err None label"

definition EExists :: "string \<Rightarrow> go_error option \<Rightarrow> go_error" where
  "EExists d err = newError EExistsType d DefaultSerializer err None"

definition WExists :: "string \<Rightarrow> string \<Rightarrow> go_error option \<Rightarrow> go_error" where
  "WExists label d err = newWarning EExistsType d DefaultSerializer err None label"

definition EStorageError :: "string \<Rightarrow> go_error option \<Rightarrow> go_error" where
  "EStorageError d err = newError EStorageErrorType d DefaultSerializer err None"

definition WStorageError :: "string \<Rightarrow> string \<Rightarrow> go_error option \<Rightarrow> go_error" where
  "WStorageError label d err = newWarning EStorageErrorType d DefaultSerializer err None label"

definition ETunnelError :: "string \<Rightarrow> go_error option \<Rightarrow> go_error" where
  "ETunnelError d err = newError ETunnelErrorType d DefaultSerializer err None"

definition WTunnelError :: "string \<Rightarrow> string \<Rightarrow> go_error option \<Rightarrow> go_error" where
  "WTunnelError label d err = newWarning ETunnelErrorType d DefaultSerializer err None label"

definition EUnauthorized :: "string \<Rightarrow> go_error option \<Rightarrow> go_error" where
  "EUnauthorized d err = newError EUnauthorizedType d SecretiveSerializer err None"

definition WUnauthorized :: "string \<Rightarrow> string \<Rightarrow> go_error option \<Rightarrow> go_error" where
  "WUnauthorized label d err = newWarning EUnauthorizedType d SecretiveSerializer err None label"

definition EAuthenticationFailed :: "string \<Rightarrow> go_error option \<Rightarrow> go_error" where
  "EAuthenticationFailed d err =
     newError EAuthenticationFailedType d SecretiveSerializer err None"

definition WAuthenticationFailed :: "string \<Rightarrow> string \<Rightarrow> go_error option \<Rightarrow> go_error" where
  "WAuthenticationFailed label d err =
     newWarning EAuthenticationFailedType d SecretiveSerializer err None label"

definition ENotEnoughSpace :: "string \<Rightarrow> go_error option \<Rightarrow> go_error" where
  "ENotEnoughSpace d err = newError ENotEnoughSpaceType d DefaultSerializer err None"

definition WNotEnoughSpace :: "string \<Rightarrow> string \<Rightarrow> go_error option \<Rightarrow> go_error" where
  "WNotEnoughSpace label d err = newWarning ENotEnoughSpaceType d DefaultSerializer err None label"

definition EUnavailable :: "string \<Rightarrow> go_error option \<Rightarrow> go_error" where
  "EUnavailable d err = newError EUnavailableType d DefaultSerializer err None"

definition WUnavailable :: "string \<Rightarrow> string \<Rightarrow> go_error option \<Rightarrow> go_error" where
  "WUnavailable label d err = newWarning EUnavailableType d DefaultSerializer err None label"

definition EConfigurationRequired :: "string \<Rightarrow> go_error" where
  "EConfigurationRequired msg =
     newError EConfigurationRequiredType msg DefaultSerializer None None"

definition EForbidden :: "string \<Rightarrow> go_error" where
  "EForbidden msg = newError EForbiddenType msg DefaultSerializer None None"

definition EInvalidConfiguration :: "string \<Rightarrow> string \<Rightarrow> go_error" where
  "EInvalidConfiguration msg field =
     newError EInvalidConfigurationType msg DefaultSerializer None (Some field)"

definition EEntityTooLarge :: "string \<Rightarrow> go_error option \<Rightarrow> go_error" where
  "EEntityTooLarge d err = newError EEntityTooLargeType d DefaultSerializer err None"

definition ETooEarly :: "string \<Rightarrow> go_error option \<Rightarrow> go_error" where
  "ETooEarly d err = newError ETooEarlyType d DefaultSerializer err None"

definition ENoLicense :: "string \<Rightarrow> go_error" where
  "ENoLicense msg = newError ENoLicenseType msg DefaultSerializer None None"

definition ENLimitExceeded :: "string \<Rightarrow> go_error" where
  "ENLimitExceeded msg = newError ELimitExceededType msg DefaultSerializer None None"

lemmas constructor_defs [go_defs] =
  EInternalError_def WInternalError_def EInvalidArgument_def WInvalidArgument_def
  EInvalidField_def WInvalidField_def EEntryNotFound_def WEntryNotFound_def EExists_def
  WExists_def EStorageError_def WStorageError_def ETunnelError_def WTunnelError_def
  EUnauthorized_def WUnauthorized_def EAuthenticationFailed_def WAuthenticationFailed_def
  ENotEnoughSpace_def WNotEnoughSpace_def EUnavailable_def WUnavailable_def
  EConfigurationRequired_def EForbidden_def EInvalidConfiguration_def EEntityTooLarge_def
  ETooEarly_def ENoLicense_def ENLimitExceeded_def

section \<open>Text, matching and unwrapping\<close>

fun Error :: "go_error \<Rightarrow> string" where
  "Error (XError t d n f w s l) =
     (case n of None \<Rightarrow> d | Some e \<Rightarrow> d @ '': '' @ Error e)"
| "Error (Plain i m w) = m"

definition Is :: "go_error \<Rightarrow> go_error \<Rightarrow> bool" where
  "Is e target = (case target of XError t d n f w s l \<Rightarrow> errorType e = t | Plain i m w \<Rightarrow> False)"

definition Unwrap :: "go_error \<Rightarrow> go_error option" where
  "Unwrap e = (case e of XError t d n f w s l \<Rightarrow> n | Plain i m w \<Rightarrow> w)"

text \<open>The standard library's \<open>errors.Is\<close>: walk the chain of wrapped errors.\<close>

fun errors_Is :: "go_error \<Rightarrow> go_error \<Rightarrow> bool" where
  "errors_Is (XError t d n f w s l) target =
     (Is (XError t d n f w s l) target
      \<or> (case n of None \<Rightarrow> False | Some e \<Rightarrow> errors_Is e target))"
| "errors_Is (Plain i m w) target =
     (Plain i m w = target \<or> (case w of None \<Rightarrow> False | Some e \<Rightarrow> errors_Is e target))"

section \<open>HTTP responses\<close>

record openapi_error =
  Result :: error_result
  ErrorText :: string
  Field :: "string option"
  Details :: "string option"

definition defaultSerializer :: "go_error \<Rightarrow> int \<times> openapi_error" where
  "defaultSerializer e =
     (httpCode (errorType e),
      \<lparr>Result = codeName (errorType e), ErrorText = description e, Field = failedField e,
       Details = map_option Error (nestedError e)\<rparr>)"

definition secretiveSerializer :: "go_error \<Rightarrow> int \<times> openapi_error" where
  "secretiveSerializer e =
     (httpCode (errorType e),
      \<lparr>Result = codeName (errorType e), ErrorText = description e, Field = None,
       Details = None\<rparr>)"

definition ErrorToHttpResponse :: "go_error \<Rightarrow> int \<times> openapi_error" where
  "ErrorToHttpResponse err =
     (case err of
        XError t d n f w s l \<Rightarrow>
          (case s of DefaultSerializer \<Rightarrow> defaultSerializer err
           | SecretiveSerializer \<Rightarrow> secretiveSerializer err)
      | Plain i m w \<Rightarrow>
          (500, \<lparr>Result = UNKNOWN_ERROR, ErrorText = Error err, Field = None, Details = None\<rparr>))"

section \<open>Reports to the metrics and to Sentry\<close>

text \<open>
  What \<open>sendToExternalServices\<close> sends: the label values of the Prometheus counter that
  depend on the error, and the Sentry scope (its tag, the extras in the order they are
  set, the level when one is set) with what is captured in it. \<open>zap_fields\<close> is the JSON
  encoding of the log fields, when there are any and encoding them succeeds.
\<close>

datatype capture = CaptureMessage string | CaptureException go_error

record sentry_scope =
  err_type_tag :: error_result
  extras :: "(string \<times> string) list"
  scope_level :: "level option"
  captured :: capture

definition sendToExternalServices ::
  "go_error \<Rightarrow> string option \<Rightarrow> (error_result \<times> string) \<times> sentry_scope" where
  "sendToExternalServices e zap_fields =
     ((codeName (errorType e), warningLabel e),
      \<lparr>err_type_tag = codeName (errorType e),
       extras =
         (case failedField e of None \<Rightarrow> [] | Some f \<Rightarrow> [(''failed_field'', f)])
         @ (if length (warningLabel e) = 0 then [(''warn_label'', warningLabel e)] else [])
         @ (case zap_fields of None \<Rightarrow> [] | Some z \<Rightarrow> [(''zap_fields'', z)])
         @ (case nestedError e of None \<Rightarrow> [] | Some n \<Rightarrow> [(''message'', description e)]),
       scope_level =
         (case nestedError e of None \<Rightarrow> Some (externalLoggerLevel e) | Some n \<Rightarrow> None),
       captured =
         (case nestedError e of None \<Rightarrow> CaptureMessage (description e)
          | Some n \<Rightarrow> CaptureException n)\<rparr>)"

section \<open>The caller's file path\<close>

text \<open>
  The loop of \<open>cutCallerFilePath\<close> runs an index down from the last byte and stops above
  0; the second path separator it meets cuts the string.
\<close>

fun cutCaller_loop :: "string \<Rightarrow> nat \<Rightarrow> bool \<Rightarrow> string" where
  "cutCaller_loop file 0 oneSlash = file"
| "cutCaller_loop file (Suc i) oneSlash =
     (if file ! Suc i = CHR ''/''
      then (if oneSlash then drop (Suc (Suc i)) file else cutCaller_loop file i True)
      else cutCaller_loop file i oneSlash)"

definition cutCallerFilePath :: "string \<Rightarrow> string" where
  "cutCallerFilePath file = cutCaller_loop file (length file - 1) False"

section \<open>Shared facts\<close>

lemma errors_Is_refl: "errors_Is (newError t d s n f) (newError t d' s' n' f')"
  by (simp add: newError_def Is_def)

lemma errors_Is_nested:
  "errors_Is e target \<Longrightarrow> errors_Is (newError t d s (Some e) f) target"
  by (simp add: newError_def)

text \<open>What a secretive error answers, whatever it wraps.\<close>

lemma secretive_response:
  "ErrorToHttpResponse (XError t d n f w SecretiveSerializer l) =
     (httpCode t, \<lparr>Result = codeName t, ErrorText = d, Field = None, Details = None\<rparr>)"
  by (simp add: ErrorToHttpResponse_def secretiveSerializer_def)

lemma default_response:
  "ErrorToHttpResponse (XError t d n f w DefaultSerializer l) =
     (httpCode t, \<lparr>Result = codeName t, ErrorText = d, Field = f, Details = map_option Error n\<rparr>)"
  by (simp add: ErrorToHttpResponse_def defaultSerializer_def)

lemmas response_simps [go_simps] = secretive_response default_response

lemma cutCaller_loop_skip:
  "(\<forall>k. j < k \<and> k \<le> i \<longrightarrow> file ! k \<noteq> CHR ''/'') \<Longrightarrow> j \<le> i \<Longrightarrow>
   cutCaller_loop file i b = cutCaller_loop file j b"
proof (induction i)
  case (Suc i)
  then show ?case
    by (cases "j = Suc i") auto
qed simp

lemma nth_no_slash:
  "CHR ''/'' \<notin> set xs \<Longrightarrow> k < length xs \<Longrightarrow> xs ! k \<noteq> CHR ''/''"
  using nth_mem by fastforce

lemma cutCallerFilePath_two:
  assumes d: "CHR ''/'' \<notin> set dir" and f: "CHR ''/'' \<notin> set file" and p: "pre \<noteq> []"
  shows "cutCallerFilePath (pre @ ''/'' @ dir @ ''/'' @ file) = dir @ ''/'' @ file"
proof -
  let ?s = "pre @ ''/'' @ dir @ ''/'' @ file"
  let ?i1 = "length pre + 1 + length dir" and ?i0 = "length pre"
  have at1: "?s ! ?i1 = CHR ''/''" and at0: "?s ! ?i0 = CHR ''/''"
    by (simp_all add: nth_append)
  have "cutCallerFilePath ?s = cutCaller_loop ?s ?i1 False"
    unfolding cutCallerFilePath_def
  proof (rule cutCaller_loop_skip)
    show "\<forall>k. ?i1 < k \<and> k \<le> length ?s - 1 \<longrightarrow> ?s ! k \<noteq> CHR ''/''"
    proof (intro allI impI)
      fix k assume k: "?i1 < k \<and> k \<le> length ?s - 1"
      then have "?s ! k = file ! (k - ?i1 - 1)"
        by (auto simp add: nth_append nth_Cons')
      moreover have "k - ?i1 - 1 < length file" using k by auto
      ultimately show "?s ! k \<noteq> CHR ''/''" using nth_no_slash [OF f] by simp
    qed
  qed simp
  also have "\<dots> = cutCaller_loop ?s (length pre + length dir) True"
    using at1 by simp
  also have "\<dots> = cutCaller_loop ?s ?i0 True"
  proof (rule cutCaller_loop_skip)
    show "\<forall>k. ?i0 < k \<and> k \<le> length pre + length dir \<longrightarrow> ?s ! k \<noteq> CHR ''/''"
    proof (intro allI impI)
      fix k assume k: "?i0 < k \<and> k \<le> length pre + length dir"
      then have "?s ! k = dir ! (k - ?i0 - 1)"
        by (auto simp add: nth_append nth_Cons')
      moreover have "k - ?i0 - 1 < length dir" using k by auto
      ultimately show "?s ! k \<noteq> CHR ''/''" using nth_no_slash [OF d] by simp
    qed
  qed simp
  also have "\<dots> = dir @ ''/'' @ file"
    using at0 p by (cases "length pre") auto
  finally show ?thesis .
qed


section \<open>Properties\<close>

text \<open>the responses to internal, unauthorized and authentication errors (and to the warnings
  of the same kinds) carry the status, the code name and the description only: neither the wrapped
  cause nor a field name reaches the client.\<close>

theorem secretive_errors_hide_cause:
  "ErrorToHttpResponse (EInternalError d e) = (500, \<lparr>Result = INTERNALERROR, ErrorText = d, Field = None, Details = None\<rparr>)
   \<and> ErrorToHttpResponse (WInternalError l d e) = ErrorToHttpResponse (EInternalError d None)
   \<and> ErrorToHttpResponse (EUnauthorized d e) = (401, \<lparr>Result = UNAUTHORIZED, ErrorText = d, Field = None, Details = None\<rparr>)
   \<and> ErrorToHttpResponse (WUnauthorized l d e) = ErrorToHttpResponse (EUnauthorized d None)
   \<and> ErrorToHttpResponse (EAuthenticationFailed d e) = (401, \<lparr>Result = AUTHFAILED, ErrorText = d, Field = None, Details = None\<rparr>)
   \<and> ErrorToHttpResponse (WAuthenticationFailed l d e) = ErrorToHttpResponse (EAuthenticationFailed d None)"
  by (simp add: go_defs go_simps)

text \<open>\<open>errors.Is\<close> finds an error through any number of wrapping layers: a wrapped error
  matches a target exactly when the innermost error does or when some layer is of the target's
  error type.\<close>

theorem errors_Is_wrapped:
  "errors_Is (foldr (\<lambda>(t, d, s, f) e. newError t d s (Some e) f) layers e) target
     \<longleftrightarrow> errors_Is e target
        \<or> (\<exists>(t, d, s, f) \<in> set layers. \<exists>d' n' f' w' s' l'. target = XError t d' n' f' w' s' l')"
proof (induction layers)
  case (Cons layer layers)
  then show ?case by (cases target; cases layer) (auto simp: newError_def Is_def)
qed simp

text \<open>the file path reported with an error is the last directory and the file name, whatever
  precedes them.\<close>

theorem cutCallerFilePath_last_two:
  assumes "CHR ''/'' \<notin> set dir" and "CHR ''/'' \<notin> set file" and "pre \<noteq> []"
  shows "cutCallerFilePath (pre @ ''/'' @ dir @ ''/'' @ file) = dir @ ''/'' @ file"
  using assms by (rule cutCallerFilePath_two)

theorem cutCallerFilePath_last_two_witness:
  "cutCallerFilePath ''/home/user/src/project/package/foo.go'' = ''package/foo.go''"
  using cutCallerFilePath_last_two [of "''package''" "''foo.go''" "''/home/user/src/project''"] by simp

text \<open>the Sentry scope of a warning never carries its label: the extra \<open>warn_label\<close> is set only
  for errors that have no label, and then with the empty text.\<close>

theorem warning_label_not_reported:
  "''warn_label'' \<notin> fst ` set (extras (snd (sendToExternalServices (newWarning t msg s err field label) z)))
   \<and> (''warn_label'', []) \<in> set (extras (snd (sendToExternalServices (newError t msg s err field) z)))"
  by (auto simp: sendToExternalServices_def go_defs Let_def split: option.splits)

end
