(* ===== verification/Go_Strings.thy ===== *)
theory Go_Strings
  imports Go_Prelude
begin

text \<open>
  The parts of Go's \<open>strings\<close> and \<open>strconv\<close> packages the library uses, on strings of ASCII
  characters: splitting at a separator character, trimming white space, and the decimal
  notation of integers, printed by \<open>fmt.Sprintf\<close> and read by \<open>strconv.Atoi\<close>.
\<close>

section \<open>Splitting and trimming\<close>

fun split_char :: "char \<Rightarrow> string \<Rightarrow> string list" where
  "split_char c [] = [[]]"
| "split_char c (x # xs) =
     (if x = c then [] # split_char c xs
      else (case split_char c xs of [] \<Rightarrow> [[x]] | y # ys \<Rightarrow> (x # y) # ys))"

fun join_char :: "char \<Rightarrow> string list \<Rightarrow> string" where
  "join_char c [] = []"
| "join_char c [x] = x"
| "join_char c (x # y # ys) = x @ c # join_char c (y # ys)"

definition is_space :: "char \<Rightarrow> bool" where
  "is_space c \<longleftrightarrow> c \<in> {CHR 0x09, CHR 0x0A, CHR 0x0B, CHR 0x0C, CHR 0x0D, CHR 0x20}"

text \<open>\<open>strings.ToLower\<close> on ASCII text.\<close>

definition lower_char :: "char \<Rightarrow> char" where
  "lower_char c = (let n = of_char c :: nat in if 65 \<le> n \<and> n \<le> 90 then char_of (n + 32) else c)"

definition ToLower :: "string \<Rightarrow> string" where
  "ToLower s = map lower_char s"

definition trim_space :: "string \<Rightarrow> string" where
  "trim_space s = rev (dropWhile is_space (rev (dropWhile is_space s)))"

section \<open>Decimal notation\<close>

definition digit_char :: "nat \<Rightarrow> char" where
  "digit_char d = char_of (48 + d)"

definition digit_val :: "char \<Rightarrow> nat option" where
  "digit_val c = (let n = of_char c :: nat in if 48 \<le> n \<and> n \<le> 57 then Some (n - 48) else None)"

fun itoa :: "nat \<Rightarrow> string" where
  "itoa n = (if n < 10 then [digit_char n] else itoa (n div 10) @ [digit_char (n mod 10)])"

declare itoa.simps [simp del]

definition itoa_int :: "int \<Rightarrow> string" where
  "itoa_int i = (if i < 0 then CHR ''-'' # itoa (nat (- i)) else itoa (nat i))"

fun read_digits :: "nat \<Rightarrow> string \<Rightarrow> nat option" where
  "read_digits acc [] = Some acc"
| "read_digits acc (c # cs) =
     (case digit_val c of None \<Rightarrow> None | Some d \<Rightarrow> read_digits (10 * acc + d) cs)"

definition read_nat :: "string \<Rightarrow> nat option" where
  "read_nat s = (if s = [] then None else read_digits 0 s)"

text \<open>\<open>strconv.Atoi\<close>: an optional sign, at least one digit, a value that fits an int.\<close>

definition atoi :: "string \<Rightarrow> int option" where
  "atoi s =
     (let v = (case s of
                 c # cs \<Rightarrow>
                   if c = CHR ''-'' then map_option (\<lambda>n. - int n) (read_nat cs)
                   else if c = CHR ''+'' then map_option int (read_nat cs)
                   else map_option int (read_nat s)
               | [] \<Rightarrow> None) in
      case v of None \<Rightarrow> None | Some i \<Rightarrow> if is_int64 i then Some i else None)"

section \<open>Facts\<close>

lemma split_char_Cons: "\<exists>y ys. split_char c s = y # ys"
  by (induction s) (auto split: list.splits)

lemma split_char_none: "c \<notin> set s \<Longrightarrow> split_char c s = [s]"
  by (induction s) auto

lemma split_char_append:
  "c \<notin> set s \<Longrightarrow> split_char c (s @ c # t) = s # split_char c t"
  by (induction s) auto

lemma join_split: "join_char c (split_char c s) = s"
proof (induction s)
  case (Cons x s)
  obtain y ys where "split_char c s = y # ys" using split_char_Cons by blast
  with Cons show ?case by (cases ys) auto
qed simp

lemma split_no_sep: "x \<in> set (split_char c s) \<Longrightarrow> c \<notin> set x"
proof (induction s arbitrary: x)
  case (Cons a s)
  obtain y ys where "split_char c s = y # ys" using split_char_Cons by blast
  with Cons show ?case by (fastforce split: if_splits)
qed simp

lemma trim_space_id:
  assumes "\<And>c. c \<in> set s \<Longrightarrow> \<not> is_space c"
  shows "trim_space s = s"
proof -
  have "dropWhile is_space s = s" using assms by (cases s) auto
  moreover have "dropWhile is_space (rev s) = rev s" using assms by (cases "rev s") force+
  ultimately show ?thesis by (simp add: trim_space_def)
qed

lemma digit_val_digit_char [simp]: "d < 10 \<Longrightarrow> digit_val (digit_char d) = Some d"
  by (simp add: digit_val_def digit_char_def)

lemma of_digit_char [simp]: "d < 10 \<Longrightarrow> of_char (digit_char d) = (48 + d :: nat)"
  by (simp add: digit_char_def)

lemma read_digits_append:
  "read_digits acc (s @ [c]) =
     (case read_digits acc s of None \<Rightarrow> None
      | Some a \<Rightarrow> (case digit_val c of None \<Rightarrow> None | Some d \<Rightarrow> Some (10 * a + d)))"
  by (induction s arbitrary: acc) (auto split: option.splits)

lemma read_digits_itoa: "read_digits 0 (itoa n) = Some n"
proof (induction n rule: itoa.induct)
  case (1 n)
  then show ?case
    by (cases "n < 10") (simp_all add: itoa.simps [of n] read_digits_append)
qed

lemma itoa_not_Nil: "itoa n \<noteq> []"
  by (simp add: itoa.simps [of n])

lemma read_nat_itoa [simp]: "read_nat (itoa n) = Some n"
  by (simp add: read_nat_def itoa_not_Nil read_digits_itoa)

lemma itoa_digits: "c \<in> set (itoa n) \<Longrightarrow> \<exists>d<10. c = digit_char d"
proof (induction n rule: itoa.induct)
  case (1 n)
  show ?case
  proof (cases "n < 10")
    case True
    then show ?thesis using "1.prems" by (auto simp: itoa.simps [of n])
  next
    case False
    then have "c \<in> set (itoa (n div 10)) \<or> c = digit_char (n mod 10)"
      using "1.prems" by (auto simp: itoa.simps [of n])
    moreover have "n mod 10 < 10" by simp
    ultimately show ?thesis using "1.IH" [OF False] by blast
  qed
qed

lemma itoa_range: "c \<in> set (itoa n) \<Longrightarrow> 48 \<le> (of_char c :: nat) \<and> (of_char c :: nat) \<le> 57"
  using itoa_digits by fastforce

lemma itoa_no_space: "c \<in> set (itoa n) \<Longrightarrow> \<not> is_space c"
  using itoa_range [of c n] by (auto simp: is_space_def)

lemma itoa_no_sign: "CHR ''-'' \<notin> set (itoa n)" "CHR ''+'' \<notin> set (itoa n)"
  using itoa_range [of "CHR ''-''" n] itoa_range [of "CHR ''+''" n] by auto

lemma trim_space_itoa [simp]: "trim_space (itoa n) = itoa n"
  using itoa_no_space by (rule trim_space_id)

lemma atoi_itoa: "is_int64 (int n) \<Longrightarrow> atoi (itoa n) = Some (int n)"
proof -
  assume i: "is_int64 (int n)"
  obtain c cs where s: "itoa n = c # cs" using itoa_not_Nil [of n] by (cases "itoa n") auto
  then have "c \<noteq> CHR ''-''" "c \<noteq> CHR ''+''" using itoa_no_sign [of n] by auto
  moreover have "read_nat (c # cs) = Some n" using read_nat_itoa [of n] s by simp
  ultimately show ?thesis using i by (simp add: atoi_def s)
qed

lemma atoi_itoa_int: "is_int64 i \<Longrightarrow> atoi (itoa_int i) = Some i"
proof (cases "i < 0")
  case True
  assume "is_int64 i"
  then show ?thesis using True by (simp add: atoi_def itoa_int_def)
next
  case False
  assume "is_int64 i"
  then show ?thesis using False atoi_itoa [of "nat i"] by (simp add: itoa_int_def)
qed

lemma atoi_int64: "atoi s = Some i \<Longrightarrow> is_int64 i"
  by (auto simp: atoi_def Let_def split: option.splits if_splits)

end
