(* ===== verification/Ipam_Config.thy ===== *)
theory Ipam_Config
  imports Xerror Go_Strings "HOL-Library.Multiset"
begin

text \<open>
  The configuration of the address manager: access policies (\<open>src/ipam/config.go\<close>), port ranges
  and port restriction lists (\<open>src/ipam/config_ports.go\<close>), with their text formats.
\<close>

section \<open>Access policies\<close>

definition AccessPolicyDefault :: int where "AccessPolicyDefault = 0"
definition AccessPolicyInternetOnly :: int where "AccessPolicyInternetOnly = 1"
definition AccessPolicyAllowAll :: int where "AccessPolicyAllowAll = 2"

lemmas policy_simps [simp] =
  AccessPolicyDefault_def AccessPolicyInternetOnly_def AccessPolicyAllowAll_def

datatype accessPolicy = AccessPolicy (policy_Int: int)

definition Errorf :: "string \<Rightarrow> go_error" where
  "Errorf text = Plain ''fmt.Errorf'' text None"

definition policy_UnmarshalText :: "string \<Rightarrow> (go_error, accessPolicy) outcome" where
  "policy_UnmarshalText s =
     (if s = ''default'' then Ok (AccessPolicy AccessPolicyDefault)
      else if s = ''internet_only'' then Ok (AccessPolicy AccessPolicyInternetOnly)
      else if s = ''allow_all'' then Ok (AccessPolicy AccessPolicyAllowAll)
      else Err (Errorf (''unknown policy '' @ s)))"

definition policy_MarshalText :: "accessPolicy \<Rightarrow> (go_error, string) outcome" where
  "policy_MarshalText p =
     (if policy_Int p = AccessPolicyDefault then Ok ''default''
      else if policy_Int p = AccessPolicyInternetOnly then Ok ''internet_only''
      else if policy_Int p = AccessPolicyAllowAll then Ok ''allow_all''
      else Err (Errorf (''unknown policy '' @ itoa_int (policy_Int p))))"

definition AliasInternetOnly :: accessPolicy where
  "AliasInternetOnly = AccessPolicy AccessPolicyInternetOnly"

definition AliasAllowAll :: accessPolicy where
  "AliasAllowAll = AccessPolicy AccessPolicyAllowAll"

record RateLimiterConfig =
  TotalBandwidth :: uint64

section \<open>Port restrictions\<close>

definition RestrictionModeBlockList :: int where "RestrictionModeBlockList = 0"
definition RestrictionModeAllowList :: int where "RestrictionModeAllowList = 1"

lemmas mode_simps [simp] = RestrictionModeBlockList_def RestrictionModeAllowList_def

datatype ListMode = ListMode (mode_Int: int)

record PortRange =
  low :: uint16
  high :: uint16

text \<open>A nil slice of ranges (no restriction at all) is \<open>None\<close>.\<close>

record ProtocolPortConfig =
  Mode :: ListMode
  Ports :: "PortRange list option"

record PortRestrictionConfig =
  UDP :: ProtocolPortConfig
  TCP :: ProtocolPortConfig

record protocolID =
  proto_name :: string
  proto_id :: byte

definition protocolUDP :: protocolID where
  "protocolUDP = \<lparr>proto_name = ''UDP'', proto_id = 17\<rparr>"

definition protocolTCP :: protocolID where
  "protocolTCP = \<lparr>proto_name = ''TCP'', proto_id = 6\<rparr>"

definition portRange :: "uint16 \<Rightarrow> uint16 \<Rightarrow> PortRange" where
  "portRange l h = \<lparr>low = l, high = h\<rparr>"

definition port :: "uint16 \<Rightarrow> PortRange" where
  "port p = \<lparr>low = p, high = p\<rparr>"

definition DefaultPortRestrictions :: PortRestrictionConfig where
  "DefaultPortRestrictions =
     \<lparr>UDP = \<lparr>Mode = ListMode RestrictionModeBlockList,
             Ports = Some [port 69, port 113, port 135, portRange 137 139, port 445, port 514]\<rparr>,
      TCP = \<lparr>Mode = ListMode RestrictionModeBlockList,
             Ports = Some [port 113, port 445]\<rparr>\<rparr>"

definition BlockList :: "ListMode \<Rightarrow> bool" where
  "BlockList mode \<longleftrightarrow> mode_Int mode = RestrictionModeBlockList"

definition AllowList :: "ListMode \<Rightarrow> bool" where
  "AllowList mode \<longleftrightarrow> mode_Int mode = RestrictionModeAllowList"

definition mode_UnmarshalText :: "string \<Rightarrow> (go_error, ListMode) outcome" where
  "mode_UnmarshalText s =
     (if s = ''allow_list'' then Ok (ListMode RestrictionModeAllowList)
      else if s = ''block_list'' then Ok (ListMode RestrictionModeBlockList)
      else Err (Errorf (''unknown mode '' @ s)))"

definition mode_String :: "ListMode \<Rightarrow> string" where
  "mode_String mode =
     (if mode_Int mode = RestrictionModeAllowList then ''allow_list''
      else if mode_Int mode = RestrictionModeBlockList then ''block_list''
      else ''unknown'')"

definition mode_MarshalText :: "ListMode \<Rightarrow> (go_error, string) outcome" where
  "mode_MarshalText mode = Ok (mode_String mode)"

text \<open>The loop over the two ends of a range; \<open>None\<close> is the error return.\<close>

fun range_ends :: "string list \<Rightarrow> uint16 list option" where
  "range_ends [] = Some []"
| "range_ends (p_s # rest) =
     (case atoi (trim_space p_s) of
        None \<Rightarrow> None
      | Some p \<Rightarrow>
          if p < 0 \<or> p > 65535 then None
          else map_option (Cons (word_of_int p)) (range_ends rest))"

definition range_UnmarshalText :: "string \<Rightarrow> (go_error, PortRange) outcome" where
  "range_UnmarshalText s =
     (let tuple_s = split_char CHR ''-'' s in
      if length tuple_s > 2 \<or> length tuple_s < 1 then Err (Errorf (''invalid range '' @ s))
      else
        (case range_ends tuple_s of
           None \<Rightarrow> Err (Errorf (''invalid range '' @ s))
         | Some tuple \<Rightarrow>
             Ok \<lparr>low = tuple ! 0, high = (if length tuple = 1 then tuple ! 0 else tuple ! 1)\<rparr>))"

definition range_MarshalText :: "PortRange \<Rightarrow> (go_error, string) outcome" where
  "range_MarshalText rng =
     (if low rng = high rng then Ok (itoa (unat (low rng)))
      else Ok (itoa (unat (low rng)) @ ''-'' @ itoa (unat (high rng))))"

section \<open>Properties\<close>

lemma uint_uint16: "0 \<le> uint (w :: uint16)" "uint (w :: uint16) < 65536"
  using unsigned_less [of w, where ?'a = int] by simp_all

lemma atoi_uint16: "atoi (trim_space (itoa (unat (w :: uint16)))) = Some (uint w)"
proof -
  have "- (2 ^ 63) \<le> uint w" by (rule order_trans [OF _ uint_uint16(1)]) simp
  moreover have "uint w < 2 ^ 63" by (rule less_trans [OF uint_uint16(2)]) simp
  ultimately have "is_int64 (int (unat w))" by (simp add: is_int64_def)
  then show ?thesis using atoi_itoa by simp
qed

lemma range_ends_uint16:
  "range_ends (itoa (unat (w :: uint16)) # rest) = map_option (Cons w) (range_ends rest)"
  using uint_uint16 [of w] atoi_uint16 [of w] by simp

text \<open>the text form of a port range is read back as the same range, a single port or a pair,
  whether or not the pair is ordered.\<close>

theorem port_range_roundtrip:
  "\<exists>s. range_MarshalText rng = Ok s \<and> range_UnmarshalText s = Ok rng"
proof (cases "low rng = high rng")
  case True
  have "split_char CHR ''-'' (itoa (unat (low rng))) = [itoa (unat (low rng))]"
    by (rule split_char_none [OF itoa_no_sign(1)])
  then show ?thesis
    using True range_ends_uint16 [of "low rng" "[]"]
    by (simp add: range_MarshalText_def range_UnmarshalText_def)
next
  case False
  have "split_char CHR ''-'' (itoa (unat (low rng)) @ ''-'' @ itoa (unat (high rng)))
      = [itoa (unat (low rng)), itoa (unat (high rng))]"
    by (simp add: split_char_append [OF itoa_no_sign(1)] split_char_none [OF itoa_no_sign(1)])
  then show ?thesis
    using False range_ends_uint16 [of "low rng" "[itoa (unat (high rng))]"]
      range_ends_uint16 [of "high rng" "[]"]
    by (simp add: range_MarshalText_def range_UnmarshalText_def)
qed


text \<open>policies and list modes are read back from the text they print as; the text of every
  value that is not a policy is refused, but an invalid list mode prints as \<open>unknown\<close>, which no reader
  accepts.\<close>

theorem policy_mode_roundtrip:
  "(policy_MarshalText p = Ok s \<longleftrightarrow> policy_UnmarshalText s = Ok p)
   \<and> (mode_UnmarshalText s = Ok m \<longrightarrow> mode_MarshalText m = Ok s)
   \<and> (\<not> AllowList m \<and> \<not> BlockList m \<longrightarrow> (\<exists>e. mode_UnmarshalText (mode_String m) = Err e))"
  by (cases p; cases m)
    (auto simp: policy_MarshalText_def policy_UnmarshalText_def mode_UnmarshalText_def
      mode_MarshalText_def mode_String_def AllowList_def BlockList_def)

theorem policy_mode_roundtrip_witness:
  "mode_MarshalText (ListMode 1) = Ok ''allow_list''
   \<and> (\<exists>e. mode_UnmarshalText (mode_String (ListMode 7)) = Err e)"
proof -
  have "mode_UnmarshalText ''allow_list'' = Ok (ListMode 1)" by (simp add: mode_UnmarshalText_def)
  moreover have "\<not> AllowList (ListMode 7) \<and> \<not> BlockList (ListMode 7)"
    by (simp add: AllowList_def BlockList_def)
  ultimately show ?thesis using policy_mode_roundtrip by blast
qed

end
