(* ===== verification/Xnet.thy ===== *)
theory Xnet
  imports Xerror
begin

text \<open>
  IPv4 addresses and networks (\<open>src/xnet/ip.go\<close>, \<open>src/xnet/private.go\<close>) over the part of
  Go's \<open>net\<close> package they use: addresses and masks are byte slices (a nil slice is the
  empty list), \<open>To4\<close> recognises 4-byte addresses and IPv4-mapped 16-byte ones, and
  \<open>Size\<close> counts the leading ones of a mask, giving 0 for a mask that is not canonical.
  A conversion that indexes past the end of a slice panics in Go; here it is \<open>None\<close>.
  Parsing and printing of addresses are the standard library's and are not modelled.
\<close>

section \<open>Addresses and masks of package net\<close>

definition To4 :: "byte list \<Rightarrow> byte list option" where
  "To4 ip =
     (if length ip = 4 then Some ip
      else if length ip = 16 \<and> (\<forall>b \<in> set (take 10 ip). b = 0) \<and> ip ! 10 = 0xFF \<and> ip ! 11 = 0xFF
      then Some (drop 12 ip)
      else None)"

text \<open>\<open>lead_ones\<close> is the inner loop of \<open>simpleMaskLength\<close>: it shifts the byte left while
  its top bit is set; eight rounds empty a byte.\<close>

fun lead_ones :: "nat \<Rightarrow> byte \<Rightarrow> nat \<times> byte" where
  "lead_ones 0 v = (0, v)"
| "lead_ones (Suc k) v =
     (if v AND 0x80 \<noteq> 0 then (let (n, w) = lead_ones k (push_bit 1 v) in (Suc n, w))
      else (0, v))"

fun simpleMaskLength :: "byte list \<Rightarrow> nat option" where
  "simpleMaskLength [] = Some 0"
| "simpleMaskLength (v # vs) =
     (if v = 0xFF then map_option (\<lambda>n. n + 8) (simpleMaskLength vs)
      else (case lead_ones 8 v of (n, w) \<Rightarrow>
              if w = 0 \<and> (\<forall>u \<in> set vs. u = 0) then Some n else None))"

definition mask_Size :: "byte list \<Rightarrow> nat \<times> nat" where
  "mask_Size m =
     (case simpleMaskLength m of None \<Rightarrow> (0, 0) | Some ones \<Rightarrow> (ones, length m * 8))"

section \<open>The package's types and conversions\<close>

datatype IP = IP (IP_bytes: "byte list")

record IPNet =
  net_IP :: "byte list"
  net_Mask :: "byte list"

definition Isv4 :: "IP \<Rightarrow> bool" where
  "Isv4 ip \<longleftrightarrow> To4 (IP_bytes ip) \<noteq> None"

text \<open>\<open>net.IP.Equal\<close>: an IPv4 address equals its IPv4-mapped IPv6 form.\<close>

definition Equal :: "IP \<Rightarrow> IP \<Rightarrow> bool" where
  "Equal ip other =
     (let x = IP_bytes ip; y = IP_bytes other in
      if length x = length y then x = y
      else if length x = 4 \<and> length y = 16 \<or> length x = 16 \<and> length y = 4
      then To4 x \<noteq> None \<and> To4 x = To4 y
      else False)"

definition bytes_to_uint32 :: "byte list \<Rightarrow> uint32" where
  "bytes_to_uint32 b =
     push_bit 24 (ucast (b ! 0)) OR push_bit 16 (ucast (b ! 1))
     OR push_bit 8 (ucast (b ! 2)) OR ucast (b ! 3)"

definition ToUint32 :: "IP \<Rightarrow> uint32 option" where
  "ToUint32 ip = map_option bytes_to_uint32 (To4 (IP_bytes ip))"

definition mask_ToUint32 :: "byte list \<Rightarrow> uint32 option" where
  "mask_ToUint32 m = (if 4 \<le> length m then Some (bytes_to_uint32 m) else None)"

definition Uint32ToIP :: "uint32 \<Rightarrow> IP" where
  "Uint32ToIP n =
     IP [ucast (drop_bit 24 (n AND 0xFF000000)), ucast (drop_bit 16 (n AND 0x00FF0000)),
         ucast (drop_bit 8 (n AND 0x0000FF00)), ucast (n AND 0x000000FF)]"

definition NetworkAddr :: "IPNet \<Rightarrow> IP option" where
  "NetworkAddr n =
     (case (mask_ToUint32 (net_Mask n), ToUint32 (IP (net_IP n))) of
        (Some m, Some ip) \<Rightarrow> Some (Uint32ToIP (ip AND m))
      | _ \<Rightarrow> None)"

definition BroadcastAddr :: "IPNet \<Rightarrow> IP option" where
  "BroadcastAddr n =
     (case (mask_ToUint32 (net_Mask n), ToUint32 (IP (net_IP n))) of
        (Some m, Some ip) \<Rightarrow> Some (Uint32ToIP ((ip AND m) OR (m XOR 0xFFFFFFFF)))
      | _ \<Rightarrow> None)"

definition FirstUsable :: "IPNet \<Rightarrow> IP option" where
  "FirstUsable n =
     map_option
       (\<lambda>a. if fst (mask_Size (net_Mask n)) \<le> 30
            then IP ((IP_bytes a)[3 := IP_bytes a ! 3 + 1]) else a)
       (NetworkAddr n)"

definition LastUsable :: "IPNet \<Rightarrow> IP option" where
  "LastUsable n =
     map_option
       (\<lambda>a. if fst (mask_Size (net_Mask n)) \<le> 30
            then IP ((IP_bytes a)[3 := IP_bytes a ! 3 - 1]) else a)
       (BroadcastAddr n)"

section \<open>Private networks\<close>

text \<open>\<open>networkNumberAndMask\<close> and \<open>Contains\<close> are the standard library's \<open>net.IPNet\<close> methods.\<close>

definition networkNumberAndMask :: "IPNet \<Rightarrow> (byte list \<times> byte list) option" where
  "networkNumberAndMask n =
     (let ip = (case To4 (net_IP n) of
                  Some ip4 \<Rightarrow> Some ip4
                | None \<Rightarrow> if length (net_IP n) = 16 then Some (net_IP n) else None);
          m = net_Mask n in
      case ip of
        None \<Rightarrow> None
      | Some ip \<Rightarrow>
          if length m = 4 then (if length ip \<noteq> 4 then None else Some (ip, m))
          else if length m = 16 then (if length ip = 4 then Some (ip, drop 12 m) else Some (ip, m))
          else None)"

definition Contains :: "IPNet \<Rightarrow> byte list \<Rightarrow> bool" where
  "Contains n ip =
     (let (nn, m) = (case networkNumberAndMask n of None \<Rightarrow> ([], []) | Some nm \<Rightarrow> nm);
          ip = (case To4 ip of None \<Rightarrow> ip | Some x \<Rightarrow> x) in
      if length ip \<noteq> length nn then False
      else list_all (\<lambda>((a, k), b). a AND k = b AND k) (zip (zip nn m) ip))"

definition privateBlocks :: "IPNet list" where
  "privateBlocks =
     [\<lparr>net_IP = [10, 0, 0, 0], net_Mask = [255, 0, 0, 0]\<rparr>,
      \<lparr>net_IP = [172, 16, 0, 0], net_Mask = [255, 240, 0, 0]\<rparr>,
      \<lparr>net_IP = [192, 168, 0, 0], net_Mask = [255, 255, 0, 0]\<rparr>]"

definition IsPrivateIPNet :: "IPNet \<Rightarrow> bool" where
  "IsPrivateIPNet ipn =
     list_ex (\<lambda>block.
        let bits = fst (mask_Size (net_Mask block)); givenBits = fst (mask_Size (net_Mask ipn)) in
        Contains block (net_IP ipn) \<and> bits \<le> givenBits) privateBlocks"

section \<open>Conversions between addresses and integers\<close>

lemma octet_masks:
  "(0xFF000000 :: uint32) = push_bit 24 (mask 8)" "(0x00FF0000 :: uint32) = push_bit 16 (mask 8)"
  "(0x0000FF00 :: uint32) = push_bit 8 (mask 8)" "(0x000000FF :: uint32) = mask 8"
  by (simp_all add: mask_numeral)

lemma Uint32ToIP_bytes:
  "Uint32ToIP n = IP [ucast (drop_bit 24 n), ucast (drop_bit 16 n), ucast (drop_bit 8 n), ucast n]"
  unfolding Uint32ToIP_def octet_masks
  by simp (intro conjI; rule bit_word_eqI; auto simp: bit_simps)

lemma To4_Uint32ToIP [simp]: "To4 (IP_bytes (Uint32ToIP n)) = Some (IP_bytes (Uint32ToIP n))"
  by (simp add: Uint32ToIP_def To4_def)

lemma Isv4_Uint32ToIP [simp]: "Isv4 (Uint32ToIP n)"
  by (simp add: Isv4_def)

lemma bit_bytes_to_uint32:
  assumes "i < 32"
  shows "bit (bytes_to_uint32 [a, b, c, d]) i \<longleftrightarrow>
    (if i < 8 then bit d i else if i < 16 then bit c (i - 8)
     else if i < 24 then bit b (i - 16) else bit a (i - 24))"
  using assms unfolding bytes_to_uint32_def
  by (auto simp: bit_simps nth_Cons' dest: bit_imp_le_length)

lemma bytes_to_uint32_Uint32ToIP [simp]: "bytes_to_uint32 (IP_bytes (Uint32ToIP n)) = n"
proof (rule bit_word_eqI)
  fix i assume "i < LENGTH(32)"
  then have i: "i < 32" by simp
  show "bit (bytes_to_uint32 (IP_bytes (Uint32ToIP n))) i = bit n i"
    unfolding Uint32ToIP_bytes IP.sel bit_bytes_to_uint32 [OF i] using i
    by (auto simp: bit_simps)
qed

lemma ToUint32_Uint32ToIP [simp]: "ToUint32 (Uint32ToIP n) = Some n"
  by (simp add: ToUint32_def)

lemma Uint32ToIP_inj [simp]: "Uint32ToIP m = Uint32ToIP n \<longleftrightarrow> m = n"
  by (metis ToUint32_Uint32ToIP option.inject)

lemma length_four:
  "length xs = 4 \<Longrightarrow> \<exists>a b c d. xs = [a, b, c, d]"
  by (auto simp: numeral_eq_Suc length_Suc_conv)

lemma length_To4: "To4 b = Some b4 \<Longrightarrow> length b4 = 4"
  by (auto simp: To4_def split: if_splits)

lemma Uint32ToIP_bytes_to_uint32:
  "length b = 4 \<Longrightarrow> IP_bytes (Uint32ToIP (bytes_to_uint32 b)) = b"
proof -
  assume "length b = 4"
  then obtain p q r s where b: "b = [p, q, r, s]" using length_four by blast
  show ?thesis
    unfolding b Uint32ToIP_bytes IP.sel
    by (auto intro!: bit_word_eqI simp: bit_simps bit_bytes_to_uint32)
qed

lemma Isv4_ToUint32: "Isv4 ip \<longleftrightarrow> (\<exists>u. ToUint32 ip = Some u)"
  by (auto simp: Isv4_def ToUint32_def)

lemma Uint32ToIP_ToUint32: "ToUint32 ip = Some u \<Longrightarrow> Equal (Uint32ToIP u) ip"
proof -
  assume "ToUint32 ip = Some u"
  then obtain b4 where b4: "To4 (IP_bytes ip) = Some b4" and u: "u = bytes_to_uint32 b4"
    by (auto simp: ToUint32_def)
  have eq: "IP_bytes (Uint32ToIP u) = b4"
    using Uint32ToIP_bytes_to_uint32 [OF length_To4 [OF b4]] u by simp
  show ?thesis
    using b4 length_To4 [OF b4]
    by (auto simp: Equal_def Let_def eq To4_def split: if_splits)
qed

section \<open>Masks\<close>

lemma bit7_iff: "(v :: byte) AND 0x80 \<noteq> 0 \<longleftrightarrow> bit v 7"
proof -
  have *: "(0x80 :: byte) = push_bit 7 1" by simp
  show ?thesis unfolding * by (simp only: bit_iff_and_push_bit_not_eq_0)
qed

lemma lead_ones_bits:
  "lead_ones k v = (n, 0) \<Longrightarrow> n \<le> k \<and> (k \<le> 8 \<longrightarrow> (\<forall>i<8. bit v i \<longleftrightarrow> 8 - n \<le> i))"
proof (induction k arbitrary: v n)
  case (Suc k)
  show ?case
  proof (cases "bit v 7")
    case True
    then obtain m where m: "lead_ones k (push_bit 1 v) = (m, 0)" "n = Suc m"
      using Suc.prems by (auto simp: bit7_iff split: prod.splits)
    have IH: "m \<le> k" "k \<le> 8 \<Longrightarrow> i < 8 \<Longrightarrow> bit (push_bit 1 v) i \<longleftrightarrow> 8 - m \<le> i" for i
      using Suc.IH [OF m(1)] by auto
    show ?thesis
    proof (intro conjI impI allI)
      show "n \<le> Suc k" using IH(1) m(2) by simp
      fix i :: nat assume k: "Suc k \<le> 8" and i: "i < 8"
      show "bit v i \<longleftrightarrow> 8 - n \<le> i"
      proof (cases "i = 7")
        case True
        then show ?thesis using \<open>bit v 7\<close> m(2) by auto
      next
        case False
        then have "bit (push_bit 1 v) (Suc i) \<longleftrightarrow> bit v i"
          using i by (simp only: bit_push_bit_iff) simp
        then show ?thesis using IH(2) [of "Suc i"] False i k m(2) by auto
      qed
    qed
  next
    case False
    then show ?thesis using Suc.prems by (auto simp: bit7_iff)
  qed
qed auto

text \<open>The mask of a network of \<open>p\<close> leading ones.\<close>

definition prefix_mask :: "nat \<Rightarrow> uint32" where
  "prefix_mask p = NOT (mask (32 - p))"

lemma bit_prefix_mask: "i < 32 \<Longrightarrow> bit (prefix_mask p) i \<longleftrightarrow> 32 - p \<le> i"
  by (auto simp: prefix_mask_def bit_simps)

text \<open>The simplifier reads the bits of a word numeral off the integer numeral.\<close>

lemma byte_ones_bits: "(i::nat) < 8 \<Longrightarrow> bit (0xFF :: int) i"
proof -
  assume "i < 8"
  moreover have "(0xFF :: int) = mask 8" by (simp add: mask_numeral)
  ultimately show ?thesis by (simp only: bit_mask_iff) simp
qed

lemma lead_ones_le8: "lead_ones 8 v = (n, 0) \<Longrightarrow> n \<le> 8"
  using lead_ones_bits by blast

lemma lead_ones8_bits: "lead_ones 8 v = (n, 0) \<Longrightarrow> i < 8 \<Longrightarrow> bit v i \<longleftrightarrow> 8 - n \<le> i"
  using lead_ones_bits by blast

lemma simpleMaskLength_prefix:
  assumes "simpleMaskLength [a, b, c, d] = Some p"
  shows "p \<le> 32 \<and> bytes_to_uint32 [a, b, c, d] = prefix_mask p"
proof -
  have "p \<le> 32 \<and> (\<forall>i<32. bit (bytes_to_uint32 [a, b, c, d]) i \<longleftrightarrow> 32 - p \<le> i)"
    using assms
    by (auto simp: bit_bytes_to_uint32 lead_ones8_bits intro!: byte_ones_bits
        split: if_splits prod.splits dest: lead_ones_le8)
  then show ?thesis
    by (auto intro!: bit_word_eqI simp: bit_prefix_mask)
qed

section \<open>Usable addresses of a network\<close>

text \<open>An IPv4 network of prefix length \<open>p\<close>, as \<open>net.ParseCIDR\<close> yields them, and its base
  address.\<close>

definition ipv4_net :: "IPNet \<Rightarrow> nat \<Rightarrow> bool" where
  "ipv4_net n p \<longleftrightarrow>
     length (net_Mask n) = 4 \<and> simpleMaskLength (net_Mask n) = Some p \<and> Isv4 (IP (net_IP n))"

definition net_base :: "IPNet \<Rightarrow> nat \<Rightarrow> nat" where
  "net_base n p = (case ToUint32 (IP (net_IP n)) of None \<Rightarrow> 0 | Some u \<Rightarrow> unat (u AND prefix_mask p))"

lemma Uint32ToIP_succ:
  assumes "\<not> bit w 0"
  shows "IP ((IP_bytes (Uint32ToIP w))[3 := IP_bytes (Uint32ToIP w) ! 3 + 1]) = Uint32ToIP (w + 1)"
proof -
  have w: "w + 1 = w OR 1"
    using assms by (intro disjunctive_add_eq_or) (simp add: and_one_eq mod_2_eq_odd bit_0)
  have b: "(ucast w :: byte) + 1 = ucast w OR 1"
    using assms by (intro disjunctive_add_eq_or)
      (simp add: and_one_eq mod_2_eq_odd bit_simps flip: bit_0)
  have low: "ucast (w OR 1) = (ucast w :: byte) OR 1"
    by (rule bit_word_eqI) (auto simp: bit_simps)
  have high: "ucast (drop_bit (Suc j) (w OR 1)) = (ucast (drop_bit (Suc j) w) :: byte)" for j
    by (rule bit_word_eqI) (auto simp: bit_simps bit_1_iff)
  show ?thesis
    unfolding Uint32ToIP_bytes w using high [of 7] high [of 15] high [of 23]
    by (simp add: b low numeral_eq_Suc)
qed

lemma Uint32ToIP_pred:
  assumes "bit w 0"
  shows "IP ((IP_bytes (Uint32ToIP w))[3 := IP_bytes (Uint32ToIP w) ! 3 - 1]) = Uint32ToIP (w - 1)"
proof -
  have "\<not> bit (w - 1) 0" using assms by (simp add: bit_0)
  from Uint32ToIP_succ [OF this]
  have "IP_bytes (Uint32ToIP w) = (IP_bytes (Uint32ToIP (w - 1)))[3 := IP_bytes (Uint32ToIP (w - 1)) ! 3 + 1]"
    by (metis IP.sel diff_add_cancel)
  then show ?thesis
    by (simp add: Uint32ToIP_bytes)
qed

lemma unat_mask32: "k \<le> 32 \<Longrightarrow> unat (mask k :: uint32) = mask k"
  by (rule bit_eqI) (auto simp: bit_simps)

lemma unat_or_mask:
  fixes net :: uint32
  assumes "net AND mask k = 0" and "k \<le> 32"
  shows "unat (net OR mask k) = unat net + (2 ^ k - 1)"
proof -
  have "unat net AND mask k = (0::nat)"
    using arg_cong [OF assms(1), of unat] assms(2)
    by (simp add: unsigned_and_eq unat_mask32)
  then have "unat net + mask k = unat net OR mask k"
    by (rule disjunctive_add_eq_or)
  moreover have "unat (net OR mask k) = unat net OR mask k"
    using assms(2) by (simp only: unsigned_or_eq unat_mask32)
  ultimately show ?thesis
    by (simp add: mask_eq_exp_minus_1)
qed

text \<open>The network and broadcast addresses as integers: the base has its low \<open>32 - p\<close> bits
  clear, and the broadcast address sets them.\<close>

lemma network_and_broadcast:
  assumes net: "ipv4_net n p"
  shows "\<exists>w. NetworkAddr n = Some (Uint32ToIP w)
     \<and> BroadcastAddr n = Some (Uint32ToIP (w OR mask (32 - p)))
     \<and> unat w = net_base n p \<and> w AND mask (32 - p) = 0"
proof -
  obtain a b c d where m4: "net_Mask n = [a, b, c, d]"
    using net length_four unfolding ipv4_net_def by blast
  have m: "bytes_to_uint32 (net_Mask n) = prefix_mask p"
    using net simpleMaskLength_prefix m4 unfolding ipv4_net_def by metis
  obtain u where u: "ToUint32 (IP (net_IP n)) = Some u"
    using net Isv4_ToUint32 unfolding ipv4_net_def by blast
  have ones: "(0xFFFFFFFF :: uint32) = NOT 0" by simp
  have inv: "prefix_mask p XOR 0xFFFFFFFF = mask (32 - p)"
    unfolding ones by (rule bit_word_eqI) (auto simp: bit_simps bit_prefix_mask)
  let ?w = "u AND prefix_mask p"
  have "?w AND mask (32 - p) = 0"
    by (rule bit_word_eqI) (auto simp: bit_simps bit_prefix_mask)
  then show ?thesis
    using m4 m u inv
    by (intro exI [of _ ?w])
      (simp add: NetworkAddr_def BroadcastAddr_def mask_ToUint32_def net_base_def)
qed

text \<open>The usable addresses are those strictly between the two: for a prefix of at most 30
  bits neither increment nor decrement of the last byte carries.\<close>

lemma usable_range:
  assumes net: "ipv4_net n p" and p: "p \<le> 30"
  shows "\<exists>f l. FirstUsable n = Some (Uint32ToIP f) \<and> LastUsable n = Some (Uint32ToIP l)
     \<and> unat f = net_base n p + 1 \<and> unat l = net_base n p + 2 ^ (32 - p) - 2
     \<and> net_base n p + 2 ^ (32 - p) \<le> 2 ^ 32"
proof -
  define k where "k = 32 - p"
  have k: "2 \<le> k" "k \<le> 32" using p by (auto simp: k_def)
  obtain w where na: "NetworkAddr n = Some (Uint32ToIP w)"
    and ba: "BroadcastAddr n = Some (Uint32ToIP (w OR mask k))"
    and base: "unat w = net_base n p" and wm: "w AND mask k = 0"
    using network_and_broadcast [OF net] unfolding k_def by blast
  have sz: "fst (mask_Size (net_Mask n)) \<le> 30"
    using net p by (simp add: mask_Size_def ipv4_net_def)
  have "bit (w AND mask k) 0 = bit w 0" using k by (simp add: bit_simps)
  then have w0: "\<not> bit w 0" using wm by simp
  have b0: "bit (w OR mask k) 0" using k by (simp add: bit_simps)
  have ub: "unat (w OR mask k) = unat w + (2 ^ k - 1)"
    using unat_or_mask [OF wm k(2)] .
  have k4: "(4::nat) \<le> 2 ^ k" using power_increasing [OF k(1), of "2::nat"] by simp
  have lt: "unat w + 2 ^ k \<le> 2 ^ 32"
    using ub k4 unsigned_less [of "w OR mask k", where ?'a = nat] by simp
  have f: "unat (w + 1) = unat w + 1"
    using lt k4 unat_add_lem [of w 1] by simp
  have l: "unat ((w OR mask k) - 1) = unat w + 2 ^ k - 2"
    using ub k4 by (subst unat_sub) (simp_all add: word_le_nat_alt)
  show ?thesis
    using f l lt na ba sz w0 b0 base
    by (auto simp: FirstUsable_def LastUsable_def Uint32ToIP_succ Uint32ToIP_pred
        simp flip: k_def intro!: exI [of _ "w + 1"] exI [of _ "(w OR mask k) - 1"])
qed

section \<open>The private ranges\<close>

definition private_addr :: "uint32 \<Rightarrow> bool" where
  "private_addr u \<longleftrightarrow>
     u \<in> {0x0A000000..0x0AFFFFFF} \<or> u \<in> {0xAC100000..0xAC1FFFFF} \<or> u \<in> {0xC0A80000..0xC0A8FFFF}"

definition in_net :: "IPNet \<Rightarrow> nat \<Rightarrow> uint32 \<Rightarrow> bool" where
  "in_net n p a = (case ToUint32 (IP (net_IP n)) of None \<Rightarrow> False
     | Some u \<Rightarrow> a AND prefix_mask p = u AND prefix_mask p)"

lemma and_prefix_eq_iff:
  "(u AND prefix_mask p = v AND prefix_mask p) \<longleftrightarrow> drop_bit (32 - p) u = drop_bit (32 - p) (v :: uint32)"
proof
  assume l: "u AND prefix_mask p = v AND prefix_mask p"
  show "drop_bit (32 - p) u = drop_bit (32 - p) v"
  proof (rule bit_word_eqI)
    fix i assume "i < LENGTH(32)"
    have "bit (u AND prefix_mask p) (i + (32 - p)) = bit (v AND prefix_mask p) (i + (32 - p))"
      using l by simp
    then show "bit (drop_bit (32 - p) u) i = bit (drop_bit (32 - p) v) i"
      by (cases "i + (32 - p) < 32") (auto simp: bit_prefix_mask bit_simps add.commute dest: bit_imp_le_length)
  qed
next
  assume r: "drop_bit (32 - p) u = drop_bit (32 - p) v"
  show "u AND prefix_mask p = v AND prefix_mask p"
  proof (rule bit_word_eqI)
    fix i assume i: "i < LENGTH(32)"
    have "bit (drop_bit (32 - p) u) (i - (32 - p)) = bit (drop_bit (32 - p) v) (i - (32 - p))"
      using r by simp
    then show "bit (u AND prefix_mask p) i = bit (v AND prefix_mask p) i"
      using i by (cases "32 - p \<le> i") (auto simp: bit_prefix_mask bit_simps)
  qed
qed

lemma drop_bit_interval:
  fixes u c :: uint32
  shows "drop_bit k u = c \<longleftrightarrow> unat c * 2 ^ k \<le> unat u \<and> unat u < (unat c + 1) * 2 ^ k"
proof -
  have "unat (drop_bit k u) = unat u div 2 ^ k"
    by (metis unat_drop_bit_eq drop_bit_eq_div)
  then have "drop_bit k u = c \<longleftrightarrow> unat u div 2 ^ k = unat c"
    by (simp only: word_unat_eq_iff)
  also have "\<dots> \<longleftrightarrow> unat c * 2 ^ k \<le> unat u \<and> unat u < (unat c + 1) * 2 ^ k"
    using div_nat_eqI [of "2 ^ k" "unat c" "unat u"] dividend_less_div_times [of "2 ^ k" "unat u"]
    by (auto simp: algebra_simps) (metis div_times_less_eq_dividend mult.commute)
  finally show ?thesis .
qed

lemma block_interval:
  assumes "drop_bit (32 - p) v = c" and "unat c * 2 ^ (32 - p) = unat lo"
    and "(unat c + 1) * 2 ^ (32 - p) = unat hi + 1"
  shows "u AND prefix_mask p = v AND prefix_mask p \<longleftrightarrow> u \<in> {lo..hi}"
  unfolding and_prefix_eq_iff assms(1) drop_bit_interval assms(2,3)
  by (auto simp: word_le_nat_alt)

lemma and_bytes:
  assumes "length a = 4" and "length k = 4"
  shows "bytes_to_uint32 a AND bytes_to_uint32 k = bytes_to_uint32 (map2 (AND) a k)"
proof -
  obtain a0 a1 a2 a3 k0 k1 k2 k3 where "a = [a0, a1, a2, a3]" "k = [k0, k1, k2, k3]"
    using assms length_four by metis
  then show ?thesis
    by (intro bit_word_eqI) (auto simp: bit_bytes_to_uint32 bit_simps split: if_splits)
qed

lemma bytes_to_uint32_inj:
  "length a = 4 \<Longrightarrow> length b = 4 \<Longrightarrow> bytes_to_uint32 a = bytes_to_uint32 b \<longleftrightarrow> a = b"
  by (metis Uint32ToIP_bytes_to_uint32)

lemma Contains_v4:
  assumes n: "length (net_IP n) = 4" "length (net_Mask n) = 4" and u: "ToUint32 (IP ip) = Some u"
  shows "Contains n ip \<longleftrightarrow>
    bytes_to_uint32 (net_IP n) AND bytes_to_uint32 (net_Mask n) = u AND bytes_to_uint32 (net_Mask n)"
proof -
  obtain b4 where b4: "To4 ip = Some b4" and ub: "u = bytes_to_uint32 b4"
    using u by (auto simp: ToUint32_def)
  have l: "length b4 = 4" using length_To4 [OF b4] .
  have nm: "networkNumberAndMask n = Some (net_IP n, net_Mask n)"
    using n by (simp add: networkNumberAndMask_def To4_def Let_def)
  obtain a0 a1 a2 a3 k0 k1 k2 k3 c0 c1 c2 c3 where
    "net_IP n = [a0, a1, a2, a3]" "net_Mask n = [k0, k1, k2, k3]" "b4 = [c0, c1, c2, c3]"
    using n l length_four by metis
  then show ?thesis
    unfolding ub by (simp add: and_bytes bytes_to_uint32_inj Contains_def nm b4)
qed


abbreviation in_block :: "uint32 \<Rightarrow> nat \<Rightarrow> uint32 \<Rightarrow> bool" where
  "in_block v q u \<equiv> u AND prefix_mask q = v AND prefix_mask q"

abbreviation private_block :: "uint32 \<Rightarrow> nat \<Rightarrow> bool" where
  "private_block v q \<equiv> (v, q) \<in> {(0x0A000000, 8), (0xAC100000, 12), (0xC0A80000, 16)}"

lemma private_addr_iff: "private_addr u \<longleftrightarrow> (\<exists>v q. private_block v q \<and> in_block v q u)"
proof -
  have "in_block 0x0A000000 8 u \<longleftrightarrow> u \<in> {0x0A000000..0x0AFFFFFF}"
    by (rule block_interval [where c = "0x0A"]) simp_all
  moreover have "in_block 0xAC100000 12 u \<longleftrightarrow> u \<in> {0xAC100000..0xAC1FFFFF}"
    by (rule block_interval [where c = "0xAC1"]) simp_all
  moreover have "in_block 0xC0A80000 16 u \<longleftrightarrow> u \<in> {0xC0A80000..0xC0A8FFFF}"
    by (rule block_interval [where c = "0xC0A8"]) simp_all
  ultimately show ?thesis unfolding private_addr_def by auto
qed

lemma IsPrivateIPNet_iff:
  assumes net: "ipv4_net n p" and u: "ToUint32 (IP (net_IP n)) = Some u"
  shows "IsPrivateIPNet n \<longleftrightarrow> (\<exists>v q. private_block v q \<and> in_block v q u \<and> q \<le> p)"
proof -
  have p: "fst (mask_Size (net_Mask n)) = p" using net by (simp add: ipv4_net_def mask_Size_def)
  have sizes: "fst (mask_Size [255, 0, 0, 0]) = 8" "fst (mask_Size [255, 240, 0, 0]) = 12"
    "fst (mask_Size [255, 255, 0, 0]) = 16" by code_simp+
  have masks: "bytes_to_uint32 [255, 0, 0, 0] = prefix_mask 8"
    "bytes_to_uint32 [255, 240, 0, 0] = prefix_mask 12" "bytes_to_uint32 [255, 255, 0, 0] = prefix_mask 16"
    by (simp_all add: prefix_mask_def mask_numeral bytes_to_uint32_def)
  have bases: "bytes_to_uint32 [10, 0, 0, 0] = 0x0A000000" "bytes_to_uint32 [172, 16, 0, 0] = 0xAC100000"
    "bytes_to_uint32 [192, 168, 0, 0] = 0xC0A80000"
    by (simp_all add: bytes_to_uint32_def)
  have sym: "in_block v q u \<longleftrightarrow> v AND prefix_mask q = u AND prefix_mask q" for v q by auto
  show ?thesis
    unfolding IsPrivateIPNet_def privateBlocks_def sym
    by (simp add: p sizes Contains_v4 [OF _ _ u] masks bases) blast
qed


lemma ipv4_net_le: "ipv4_net n p \<Longrightarrow> p \<le> 32"
  using length_four [of "net_Mask n"] simpleMaskLength_prefix unfolding ipv4_net_def by metis

lemma in_block_shorter:
  assumes "q \<le> p" and "p \<le> 32" and "a AND prefix_mask p = u AND prefix_mask p"
  shows "a AND prefix_mask q = u AND prefix_mask q"
proof -
  have "drop_bit (32 - q) x = drop_bit (p - q) (drop_bit (32 - p) x)" for x :: uint32
    using assms(1,2) by (simp add: drop_bit_drop_bit)
  then show ?thesis using assms(3) unfolding and_prefix_eq_iff by metis
qed

lemma drop_bit_flip:
  fixes u :: uint32
  assumes "k < 32"
  shows "drop_bit k (u XOR push_bit k 1) = drop_bit k u XOR 1"
    and "k < l \<Longrightarrow> drop_bit l (u XOR push_bit k 1) = drop_bit l u"
  using assms by (auto intro!: bit_word_eqI simp only: bit_drop_bit_eq bit_xor_iff bit_push_bit_iff
      bit_1_iff o_def) auto

lemma flipped_not_private:
  assumes "private_block v q" and "in_block v q u"
  shows "\<not> private_addr (u XOR push_bit (32 - q) 1)" (is "\<not> private_addr ?a")
proof -
  have "drop_bit (32 - q) u = drop_bit (32 - q) v" using assms(2) by (simp only: and_prefix_eq_iff)
  moreover have "drop_bit (32 - q) ?a = drop_bit (32 - q) u XOR 1"
    using assms(1) by (intro drop_bit_flip) auto
  ultimately have a: "drop_bit (32 - q) ?a = drop_bit (32 - q) v XOR 1" by simp
  consider "v = 0x0A000000" "q = 8" | "v = 0xAC100000" "q = 12" | "v = 0xC0A80000" "q = 16"
    using assms(1) by auto
  then show ?thesis
  proof cases
    case 1
    then have "drop_bit 24 ?a = 0x0B" using a by simp
    then show ?thesis unfolding drop_bit_interval private_addr_def by (simp add: word_le_nat_alt)
  next
    case 2
    then have "drop_bit 20 ?a = 0xAC0" using a by simp
    then show ?thesis unfolding drop_bit_interval private_addr_def by (simp add: word_le_nat_alt)
  next
    case 3
    then have "drop_bit 16 ?a = 0xC0A9" using a by simp
    then show ?thesis unfolding drop_bit_interval private_addr_def by (simp add: word_le_nat_alt)
  qed
qed

section \<open>Properties\<close>

text \<open>an address survives the trip through its 32-bit number: \<open>ToUint32\<close> inverts \<open>Uint32ToIP\<close>, and
  \<open>Uint32ToIP\<close> of the number of any IPv4 address (also one in IPv4-mapped IPv6 form) gives an equal
  address.\<close>

theorem uint32_roundtrip:
  "ToUint32 (Uint32ToIP u) = Some u
   \<and> (Isv4 ip \<longrightarrow> (\<exists>v. ToUint32 ip = Some v \<and> Equal (Uint32ToIP v) ip))"
  using Uint32ToIP_ToUint32 Isv4_ToUint32 by auto

theorem uint32_roundtrip_witness:
  "\<exists>v. ToUint32 (IP [0, 0, 0, 0, 0, 0, 0, 0, 0, 0, 0xFF, 0xFF, 10, 8, 0, 1]) = Some v
     \<and> Equal (Uint32ToIP v) (IP [0, 0, 0, 0, 0, 0, 0, 0, 0, 0, 0xFF, 0xFF, 10, 8, 0, 1])"
proof -
  have "Isv4 (IP [0, 0, 0, 0, 0, 0, 0, 0, 0, 0, 0xFF, 0xFF, 10, 8, 0, 1])"
    by (simp add: Isv4_def To4_def)
  then show ?thesis using uint32_roundtrip by blast
qed

text \<open>\<open>IsPrivateIPNet\<close> accepts an IPv4 network exactly when every address of the network lies in
  one of the three private ranges 10.0.0.0-10.255.255.255, 172.16.0.0-172.31.255.255 and
  192.168.0.0-192.168.255.255.\<close>

theorem IsPrivateIPNet_all_private:
  assumes net: "ipv4_net n p"
  shows "IsPrivateIPNet n \<longleftrightarrow> (\<forall>a. in_net n p a \<longrightarrow> private_addr a)"
proof -
  obtain u where u: "ToUint32 (IP (net_IP n)) = Some u"
    using net Isv4_ToUint32 unfolding ipv4_net_def by blast
  have p: "p \<le> 32" using net by (rule ipv4_net_le)
  have in_net: "in_net n p a \<longleftrightarrow> a AND prefix_mask p = u AND prefix_mask p" for a
    by (simp add: in_net_def u)
  show ?thesis
  proof
    assume "IsPrivateIPNet n"
    then obtain v q where b: "private_block v q" "in_block v q u" and q: "q \<le> p"
      using IsPrivateIPNet_iff [OF net u] by blast
    show "\<forall>a. in_net n p a \<longrightarrow> private_addr a"
    proof (intro allI impI)
      fix a assume "in_net n p a"
      then have "a AND prefix_mask p = u AND prefix_mask p" by (simp only: in_net)
      then have "in_block v q a" by (rule trans [OF in_block_shorter [OF q p] b(2)])
      then show "private_addr a" unfolding private_addr_iff by (intro exI conjI) (rule b(1))
    qed
  next
    assume all: "\<forall>a. in_net n p a \<longrightarrow> private_addr a"
    then have "private_addr u" using in_net by blast
    then obtain v q where b: "private_block v q" "in_block v q u" unfolding private_addr_iff by blast
    have "q \<le> p"
    proof (rule ccontr)
      assume "\<not> q \<le> p"
      then have "in_net n p (u XOR push_bit (32 - q) 1)"
        using b(1) unfolding in_net and_prefix_eq_iff by (intro drop_bit_flip(2)) auto
      then show False using all flipped_not_private [OF b] by blast
    qed
    then show "IsPrivateIPNet n" using IsPrivateIPNet_iff [OF net u] b by blast
  qed
qed

theorem IsPrivateIPNet_all_private_witness:
  "IsPrivateIPNet \<lparr>net_IP = [172, 20, 0, 0], net_Mask = [255, 252, 0, 0]\<rparr> \<and> private_addr 0xAC170102"
proof -
  let ?n = "\<lparr>net_IP = [172, 20, 0, 0], net_Mask = [255, 252, 0, 0]\<rparr>"
  have "ipv4_net ?n 14" and priv: "IsPrivateIPNet ?n" by code_simp+
  moreover have "in_net ?n 14 0xAC170102"
    by (simp add: in_net_def ToUint32_def To4_def bytes_to_uint32_def prefix_mask_def mask_numeral)
  ultimately show ?thesis using IsPrivateIPNet_all_private [of ?n 14] by blast
qed

end
