(* ===== verification/Ippool.thy ===== *)
theory Ippool
  imports Xnet
begin

text \<open>
  The IPv4 address pool of \<open>src/ippool/poolv4.go\<close> and \<open>src/ippool/internal.go\<close>.  The record
  \<open>IPv4pool\<close> is the Go struct (its mutex serialises the operations, so each is one function on the
  state); the map of used addresses keeps its type.  The random start of the search is an argument.
  A call of the logger's \<open>Fatal\<close> and a panic are the outcome \<open>Crash\<close>.  The search loop may in
  principle run forever, so it is a partial function and that it returns is proved.
\<close>

section \<open>State\<close>

abbreviation ErrInvalidAddress :: go_error where
  "ErrInvalidAddress \<equiv> Plain ''ippool.ErrInvalidAddress'' ''non-ipv4 address given'' None"

abbreviation ErrNotInRange :: go_error where
  "ErrNotInRange \<equiv> Plain ''ippool.ErrNotInRange''
     ''provided ipv4 address does not fit to configured subnet'' None"

abbreviation ErrAddressInUse :: go_error where
  "ErrAddressInUse \<equiv> Plain ''ippool.ErrAddressInUse'' ''ip address is already used'' None"

abbreviation ErrNotEnoughSpace :: go_error where
  "ErrNotEnoughSpace \<equiv> Plain ''ippool.ErrNotEnoughSpace'' ''not enough space in the pool'' None"

record IPv4pool =
  serverIP :: IP
  used :: "uint32 \<rightharpoonup> bool"
  pool_min :: uint32
  pool_max :: uint32
  running :: bool

definition defaultUsed :: "uint32 \<Rightarrow> (uint32 \<rightharpoonup> bool)" where
  "defaultUsed server = [server \<mapsto> True]"

definition isUsed :: "IPv4pool \<Rightarrow> uint32 \<Rightarrow> bool" where
  "isUsed pool uip \<longleftrightarrow> used pool uip \<noteq> None"

definition nextAddr :: "IPv4pool \<Rightarrow> uint32 \<Rightarrow> uint32 \<times> bool" where
  "nextAddr pool ip = (if ip \<ge> pool_max pool then (pool_min pool, True) else (ip + 1, False))"

definition capacity :: "IPv4pool \<Rightarrow> int" where
  "capacity pool = uint (pool_max pool) - uint (pool_min pool) + 1"

definition allocated :: "IPv4pool \<Rightarrow> int" where
  "allocated pool = int (card (dom (used pool)))"

definition free :: "IPv4pool \<Rightarrow> (go_error, int) outcome" where
  "free pool =
     (let cap = capacity pool; alc = allocated pool in
      if alc > cap then Crash ''Pool is broken - allocated more then capacity''
      else Ok (cap - alc))"

text \<open>The constructor logs \<open>subnet.String()\<close> first, which computes the network address; that panics
  for anything but an IPv4 address with a mask of at least four bytes.\<close>

definition NewIPv4FromSubnet :: "IPNet \<Rightarrow> (go_error, IPv4pool) outcome" where
  "NewIPv4FromSubnet subnet =
     (if NetworkAddr subnet = None then Crash ''index out of range''
      else if \<not> Isv4 (IP (net_IP subnet))
      then Err (EInvalidArgument ''can't start pool with non-ipv4 subnet'' None)
      else if fst (mask_Size (net_Mask subnet)) > 30
      then Err (EInvalidArgument ''need at least /30 subnet to operate'' None)
      else
        (case (FirstUsable subnet, LastUsable subnet) of
           (Some minIP, Some maxIP) \<Rightarrow>
             (case (ToUint32 minIP, ToUint32 maxIP) of
                (Some mn, Some mx) \<Rightarrow>
                  Ok \<lparr>serverIP = minIP, used = defaultUsed mn, pool_min = mn, pool_max = mx,
                      running = True\<rparr>
              | _ \<Rightarrow> Crash ''index out of range'')
         | _ \<Rightarrow> Crash ''index out of range''))"

definition Shutdown :: "IPv4pool \<Rightarrow> (go_error, unit) outcome \<times> IPv4pool" where
  "Shutdown pool =
     (case ToUint32 (serverIP pool) of
        None \<Rightarrow> (Crash ''index out of range'', pool\<lparr>running := False\<rparr>)
      | Some s \<Rightarrow> (Ok (), pool\<lparr>running := False, used := defaultUsed s\<rparr>))"

partial_function (option) getUnusedIP_loop ::
  "IPv4pool \<Rightarrow> uint32 \<Rightarrow> uint32 \<Rightarrow> bool \<Rightarrow> uint32 option option" where
  "getUnusedIP_loop pool stop next cycled =
     (if \<not> cycled \<or> next \<noteq> stop
      then if \<not> isUsed pool next then Some (Some next)
           else (case nextAddr pool next of
                   (next', cycledRound) \<Rightarrow>
                     getUnusedIP_loop pool stop next' (cycled \<or> cycledRound))
      else Some None)"

definition getUnusedIP :: "IPv4pool \<Rightarrow> uint32 \<Rightarrow> (go_error, IP) outcome option" where
  "getUnusedIP pool rnd =
     (if pool_max pool - pool_min pool + 1 = 0 then Some (Crash ''integer divide by zero'')
      else
        (let next = rnd mod (pool_max pool - pool_min pool + 1) + pool_min pool in
         case getUnusedIP_loop pool next next False of
           None \<Rightarrow> None
         | Some None \<Rightarrow> Some (Crash ''free IP was not found'')
         | Some (Some u) \<Rightarrow> Some (Ok (Uint32ToIP u))))"

definition Alloc :: "IPv4pool \<Rightarrow> uint32 \<Rightarrow> ((go_error, IP) outcome \<times> IPv4pool) option" where
  "Alloc pool rnd =
     (if \<not> running pool then Some (Crash ''Attempt to operate on stopped pool'', pool)
      else
        (case free pool of
           Ok n \<Rightarrow>
             if n = 0 then Some (Err (ENotEnoughSpace ''ipv4pool'' (Some ErrNotEnoughSpace)), pool)
             else
               (case getUnusedIP pool rnd of
                  None \<Rightarrow> None
                | Some (Ok ip) \<Rightarrow>
                    (case ToUint32 ip of
                       None \<Rightarrow> Some (Crash ''index out of range'', pool)
                     | Some u \<Rightarrow> Some (Ok ip, pool\<lparr>used := (used pool)(u \<mapsto> True)\<rparr>))
                | Some (Err e) \<Rightarrow> Some (Err e, pool)
                | Some (Crash m) \<Rightarrow> Some (Crash m, pool))
         | Err e \<Rightarrow> Some (Err e, pool)
         | Crash m \<Rightarrow> Some (Crash m, pool)))"

definition Set :: "IPv4pool \<Rightarrow> IP \<Rightarrow> (go_error, unit) outcome \<times> IPv4pool" where
  "Set pool ip =
     (if \<not> Isv4 ip then (Err (EInvalidArgument ''ipv4pool'' (Some ErrInvalidAddress)), pool)
      else
        (case ToUint32 ip of
           None \<Rightarrow> (Crash ''index out of range'', pool)
         | Some uip \<Rightarrow>
             if uip < pool_min pool \<or> uip > pool_max pool
             then (Err (EInvalidArgument ''ipv4pool'' (Some ErrNotInRange)), pool)
             else if \<not> running pool
             then (Crash ''Attempt to operate on stopped pool'', pool)
             else if isUsed pool uip
             then (Err (EExists ''ipv4pool'' (Some ErrAddressInUse)), pool)
             else (Ok (), pool\<lparr>used := (used pool)(uip \<mapsto> True)\<rparr>)))"

definition Unset :: "IPv4pool \<Rightarrow> IP \<Rightarrow> (go_error, unit) outcome \<times> IPv4pool" where
  "Unset pool ip =
     (if \<not> Isv4 ip then (Err (EInvalidArgument ''non-ipv4 address given'' None), pool)
      else
        (case ToUint32 ip of
           None \<Rightarrow> (Crash ''index out of range'', pool)
         | Some uip \<Rightarrow>
             if \<not> running pool
             then (Crash ''Attempt to operate on stopped pool'', pool)
             else if \<not> isUsed pool uip
             then (Err (EEntryNotFound ''ip address is not used'' None), pool)
             else (Ok (), pool\<lparr>used := (used pool)(uip := None)\<rparr>)))"

definition IsAvailable :: "IPv4pool \<Rightarrow> IP \<Rightarrow> (go_error, bool) outcome" where
  "IsAvailable pool ip =
     (if \<not> Isv4 ip then Ok False
      else
        (case ToUint32 ip of
           None \<Rightarrow> Crash ''index out of range''
         | Some uip \<Rightarrow>
             if uip < pool_min pool \<or> uip > pool_max pool then Ok False
             else Ok (\<not> isUsed pool uip)))"

definition Available :: "IPv4pool \<Rightarrow> uint32 \<Rightarrow> (go_error, IP) outcome option" where
  "Available pool rnd =
     (if \<not> running pool then Some (Crash ''Attempt to operate on stopped pool'')
      else
        (case free pool of
           Ok n \<Rightarrow>
             if n = 0 then Some (Err (ENotEnoughSpace ''ipv4pool'' (Some ErrNotEnoughSpace)))
             else getUnusedIP pool rnd
         | Err e \<Rightarrow> Some (Err e)
         | Crash m \<Rightarrow> Some (Crash m)))"

section \<open>The invariant\<close>

definition pool_range :: "IPv4pool \<Rightarrow> uint32 set" where
  "pool_range pool = {pool_min pool .. pool_max pool}"

definition taken :: "IPv4pool \<Rightarrow> uint32 set" where
  "taken pool = dom (used pool)"

definition pool_wf :: "IPv4pool \<Rightarrow> bool" where
  "pool_wf pool \<longleftrightarrow>
     running pool \<and> 0 < pool_min pool \<and> pool_min pool \<le> pool_max pool
     \<and> taken pool \<subseteq> pool_range pool \<and> ToUint32 (serverIP pool) = Some (pool_min pool)"

lemma capacity_card:
  "pool_min pool \<le> pool_max pool \<Longrightarrow> capacity pool = int (card (pool_range pool))"
  using word_le_nat_alt [of "pool_min pool" "pool_max pool"]
  by (simp add: capacity_def pool_range_def card_word_interval of_nat_diff)

lemma free_wf:
  assumes "pool_wf pool"
  shows "free pool = Ok (int (card (pool_range pool - taken pool)))"
proof -
  have sub: "taken pool \<subseteq> pool_range pool" and le: "pool_min pool \<le> pool_max pool"
    using assms by (simp_all add: pool_wf_def)
  have "card (pool_range pool - taken pool) = card (pool_range pool) - card (taken pool)"
    using sub by (intro card_Diff_subset) simp_all
  moreover have "card (taken pool) \<le> card (pool_range pool)"
    using sub by (intro card_mono) simp_all
  ultimately show ?thesis
    using capacity_card [OF le] by (simp add: free_def allocated_def Let_def flip: taken_def)
qed

section \<open>The search for an unused address\<close>

lemma nextAddr_step:
  assumes "next < pool_max pool"
  shows "nextAddr pool next = (next + 1, False)" and "unat (next + 1) = unat next + 1"
proof -
  show "nextAddr pool next = (next + 1, False)"
    using assms by (simp add: nextAddr_def)
  have "unat next < unat (pool_max pool)" using assms by (simp add: word_less_nat_alt)
  then show "unat (next + 1) = unat next + 1"
    using unat_add_lem [of "next" 1] unsigned_less [of "pool_max pool", where ?'a = nat]
    by simp
qed

definition searched :: "IPv4pool \<Rightarrow> uint32 set \<Rightarrow> uint32 option option \<Rightarrow> bool" where
  "searched pool A r =
     (case r of
        None \<Rightarrow> False
      | Some None \<Rightarrow> A \<subseteq> taken pool
      | Some (Some u) \<Rightarrow> u \<in> pool_range pool \<and> u \<notin> taken pool)"

lemma isUsed_taken: "isUsed pool u \<longleftrightarrow> u \<in> taken pool"
  by (auto simp: isUsed_def taken_def)

lemma search_second_round:
  assumes "pool_min pool \<le> next" and "next \<le> stop" and "stop \<le> pool_max pool"
  shows "searched pool {next..<stop} (getUnusedIP_loop pool stop next True)"
  using assms
proof (induction "unat stop - unat next" arbitrary: "next")
  case 0
  then have "next = stop" by (simp add: word_le_nat_alt word_unat_eq_iff)
  then show ?case by (simp add: getUnusedIP_loop.simps searched_def)
next
  case (Suc k)
  then have lt: "next < stop" by (auto simp: word_less_nat_alt)
  then have mx: "next < pool_max pool" using Suc.prems by simp
  note nx = nextAddr_step [OF mx]
  show ?case
  proof (cases "isUsed pool next")
    case False
    then show ?thesis
      using lt Suc.prems
      by (auto simp: getUnusedIP_loop.simps [of pool stop "next"] searched_def isUsed_taken
          pool_range_def)
  next
    case True
    have "searched pool {next + 1..<stop} (getUnusedIP_loop pool stop (next + 1) True)"
      using Suc.hyps lt Suc.prems nx(2)
      by (intro Suc.hyps(1)) (auto simp: word_le_nat_alt word_less_nat_alt)
    moreover have "{next..<stop} = insert next {next + 1..<stop}"
      by (rule word_atLeastLessThan_step [OF nx(2) lt])
    ultimately show ?thesis
      using True lt nx(1)
      by (auto simp: getUnusedIP_loop.simps [of pool stop "next"] searched_def isUsed_taken
          split: option.splits)
  qed
qed


lemma search_first_round:
  assumes "pool_min pool \<le> stop" and "stop \<le> next" and "next \<le> pool_max pool"
  shows "searched pool ({pool_min pool..<stop} \<union> {next..pool_max pool})
           (getUnusedIP_loop pool stop next False)"
  using assms
proof (induction "unat (pool_max pool) - unat next" arbitrary: "next")
  case 0
  then have mx: "next = pool_max pool" by (simp add: word_le_nat_alt word_unat_eq_iff)
  have "searched pool {pool_min pool..<stop} (getUnusedIP_loop pool stop (pool_min pool) True)"
    using 0 mx by (intro search_second_round) auto
  with mx 0 show ?case
    by (auto simp: getUnusedIP_loop.simps [of pool stop "pool_max pool" False] searched_def isUsed_taken
        nextAddr_def pool_range_def split: option.splits)
next
  case (Suc k)
  then have mx: "next < pool_max pool" by (auto simp: word_less_nat_alt)
  note nx = nextAddr_step [OF mx]
  have lt: "stop < next + 1"
    using Suc.prems(2) nx(2) by (simp add: word_le_nat_alt word_less_nat_alt)
  have step: "{next..pool_max pool} = insert next {next + 1..pool_max pool}"
    using mx by (intro word_atLeastAtMost_step [OF nx(2)]) simp
  have "searched pool ({pool_min pool..<stop} \<union> {next + 1..pool_max pool})
          (getUnusedIP_loop pool stop (next + 1) False)"
    using Suc.hyps(2) Suc.prems lt nx(2) mx
    by (intro Suc.hyps(1)) (simp_all add: word_succ_le_iff)
  then show ?case
    using Suc.prems mx nx(1) step
    by (auto simp: getUnusedIP_loop.simps [of pool stop "next" False] searched_def isUsed_taken
        pool_range_def split: option.splits)
qed


lemma pool_size:
  assumes "pool_wf pool"
  shows "unat (pool_max pool - pool_min pool + 1) = unat (pool_max pool) - unat (pool_min pool) + 1"
proof -
  have le: "unat (pool_min pool) \<le> unat (pool_max pool)" and pos: "0 < unat (pool_min pool)"
    using assms by (simp_all add: pool_wf_def word_le_nat_alt word_less_nat_alt)
  have sub: "unat (pool_max pool - pool_min pool) = unat (pool_max pool) - unat (pool_min pool)"
    using le by (simp add: unat_sub word_le_nat_alt)
  moreover have "unat (pool_max pool) < 2 ^ 32"
    using unsigned_less [of "pool_max pool", where ?'a = nat] by simp
  ultimately have "unat (pool_max pool - pool_min pool) + unat (1 :: uint32) < 2 ^ 32"
    using le pos by simp
  then show ?thesis
    using sub unat_add_lem [of "pool_max pool - pool_min pool" 1] by simp
qed

lemma start_in_range:
  assumes "pool_wf pool"
  shows "rnd mod (pool_max pool - pool_min pool + 1) + pool_min pool \<in> pool_range pool"
    and "pool_max pool - pool_min pool + 1 \<noteq> 0"
proof -
  let ?n = "pool_max pool - pool_min pool + 1"
  note sz = pool_size [OF assms]
  have le: "unat (pool_min pool) \<le> unat (pool_max pool)"
    using assms by (simp add: pool_wf_def word_le_nat_alt)
  show "?n \<noteq> 0" using sz by (metis Suc_eq_plus1 nat.distinct(1) unsigned_0)
  have m: "unat (rnd mod ?n) \<le> unat (pool_max pool) - unat (pool_min pool)"
    using sz by (simp add: unat_mod)
  have "unat (rnd mod ?n + pool_min pool) = unat (rnd mod ?n) + unat (pool_min pool)"
    using m le unsigned_less [of "pool_max pool", where ?'a = nat]
    by (subst unat_add_lem [symmetric]) simp
  then show "rnd mod ?n + pool_min pool \<in> pool_range pool"
    using m le by (simp add: pool_range_def word_le_nat_alt)
qed

lemma getUnusedIP_finds:
  assumes wf: "pool_wf pool" and free: "taken pool \<noteq> pool_range pool"
  shows "\<exists>u. getUnusedIP pool rnd = Some (Ok (Uint32ToIP u)) \<and> u \<in> pool_range pool - taken pool"
proof -
  let ?s = "rnd mod (pool_max pool - pool_min pool + 1) + pool_min pool"
  have s: "?s \<in> pool_range pool" and nz: "pool_max pool - pool_min pool + 1 \<noteq> 0"
    using start_in_range [OF wf] by auto
  have "searched pool ({pool_min pool..<?s} \<union> {?s..pool_max pool})
          (getUnusedIP_loop pool ?s ?s False)"
    using s by (intro search_first_round) (auto simp: pool_range_def)
  moreover have "{pool_min pool..<?s} \<union> {?s..pool_max pool} = pool_range pool"
    using s by (auto simp: pool_range_def)
  moreover have "\<not> pool_range pool \<subseteq> taken pool"
    using wf free by (auto simp: pool_wf_def)
  ultimately obtain u where "getUnusedIP_loop pool ?s ?s False = Some (Some u)"
    and "u \<in> pool_range pool - taken pool"
    by (auto simp: searched_def split: option.splits)
  then show ?thesis using nz by (auto simp: getUnusedIP_def Let_def)
qed

section \<open>Functional behaviour\<close>

abbreviation not_enough_space :: go_error where
  "not_enough_space \<equiv> ENotEnoughSpace ''ipv4pool'' (Some ErrNotEnoughSpace)"

abbreviation hold :: "IPv4pool \<Rightarrow> uint32 \<Rightarrow> IPv4pool" where
  "hold pool u \<equiv> pool\<lparr>used := (used pool)(u \<mapsto> True)\<rparr>"

lemma free_zero_iff: "pool_wf pool \<Longrightarrow> free pool = Ok 0 \<longleftrightarrow> taken pool = pool_range pool"
  by (auto simp: free_wf pool_wf_def)

lemma pool_wf_hold [go_simps]:
  "pool_wf pool \<Longrightarrow> u \<in> pool_range pool \<Longrightarrow> pool_wf (hold pool u)"
  by (auto simp: pool_wf_def taken_def pool_range_def)

lemma taken_hold [go_simps]: "taken (hold pool u) = insert u (taken pool)"
  by (auto simp: taken_def)

lemma pool_range_used [go_simps]: "pool_range (pool\<lparr>used := m\<rparr>) = pool_range pool"
  by (simp add: pool_range_def)

lemma Alloc_cases:
  assumes wf: "pool_wf pool"
  obtains (full) "taken pool = pool_range pool" "Alloc pool rnd = Some (Err not_enough_space, pool)"
  | (fresh) u where "u \<in> pool_range pool - taken pool"
      "Alloc pool rnd = Some (Ok (Uint32ToIP u), hold pool u)"
proof (cases "taken pool = pool_range pool")
  case True
  then have "free pool = Ok 0" using free_zero_iff wf by simp
  then show thesis using True wf by (intro full) (simp_all add: Alloc_def pool_wf_def)
next
  case False
  then obtain u where u: "getUnusedIP pool rnd = Some (Ok (Uint32ToIP u))"
    "u \<in> pool_range pool - taken pool"
    using getUnusedIP_finds wf by blast
  have "free pool \<noteq> Ok 0" and "\<exists>n. free pool = Ok n"
    using False free_zero_iff free_wf wf by auto
  then show thesis using u wf by (intro fresh [of u]) (auto simp: Alloc_def pool_wf_def)
qed

lemma Available_cases:
  assumes wf: "pool_wf pool"
  obtains (full) "taken pool = pool_range pool" "Available pool rnd = Some (Err not_enough_space)"
  | (fresh) u where "u \<in> pool_range pool - taken pool"
      "Available pool rnd = Some (Ok (Uint32ToIP u))"
proof (cases "taken pool = pool_range pool")
  case True
  then have "free pool = Ok 0" using free_zero_iff wf by simp
  then show thesis using True wf by (intro full) (simp_all add: Available_def pool_wf_def)
next
  case False
  then obtain u where u: "getUnusedIP pool rnd = Some (Ok (Uint32ToIP u))"
    "u \<in> pool_range pool - taken pool"
    using getUnusedIP_finds wf by blast
  have "free pool \<noteq> Ok 0" and "\<exists>n. free pool = Ok n"
    using False free_zero_iff free_wf wf by auto
  then show thesis using u wf by (intro fresh [of u]) (auto simp: Available_def pool_wf_def)
qed


lemma Isv4_obtain:
  assumes "Isv4 ip"
  obtains u where "ToUint32 ip = Some u"
  using assms Isv4_ToUint32 by auto

lemma Set_cases:
  assumes wf: "pool_wf pool"
  obtains (bad) "\<not> Isv4 ip"
      "Set pool ip = (Err (EInvalidArgument ''ipv4pool'' (Some ErrInvalidAddress)), pool)"
  | (outside) u where "Isv4 ip" "ToUint32 ip = Some u" "u \<notin> pool_range pool"
      "Set pool ip = (Err (EInvalidArgument ''ipv4pool'' (Some ErrNotInRange)), pool)"
  | (busy) u where "Isv4 ip" "ToUint32 ip = Some u" "u \<in> taken pool"
      "Set pool ip = (Err (EExists ''ipv4pool'' (Some ErrAddressInUse)), pool)"
  | (fresh) u where "Isv4 ip" "ToUint32 ip = Some u" "u \<in> pool_range pool - taken pool"
      "Set pool ip = (Ok (), hold pool u)"
proof (cases "Isv4 ip")
  case False
  then show thesis by (intro bad) (simp_all add: Set_def)
next
  case True
  then obtain u where u: "ToUint32 ip = Some u" by (rule Isv4_obtain)
  have run: "running pool" using wf by (simp add: pool_wf_def)
  consider "u \<notin> pool_range pool" | "u \<in> pool_range pool" "u \<in> taken pool"
    | "u \<in> pool_range pool" "u \<notin> taken pool" by blast
  then show thesis
  proof cases
    case 1 then show thesis using True u by (intro outside) (auto simp: Set_def pool_range_def)
  next
    case 2 then show thesis using True u run
      by (intro busy) (auto simp: Set_def pool_range_def isUsed_taken)
  next
    case 3 then show thesis using True u run
      by (intro fresh) (auto simp: Set_def pool_range_def isUsed_taken)
  qed
qed

abbreviation release :: "IPv4pool \<Rightarrow> uint32 \<Rightarrow> IPv4pool" where
  "release pool u \<equiv> pool\<lparr>used := (used pool)(u := None)\<rparr>"

lemma Unset_cases:
  assumes wf: "pool_wf pool"
  obtains (bad) "\<not> Isv4 ip"
      "Unset pool ip = (Err (EInvalidArgument ''non-ipv4 address given'' None), pool)"
  | (unused) u where "Isv4 ip" "ToUint32 ip = Some u" "u \<notin> taken pool"
      "Unset pool ip = (Err (EEntryNotFound ''ip address is not used'' None), pool)"
  | (taken) u where "Isv4 ip" "ToUint32 ip = Some u" "u \<in> taken pool"
      "Unset pool ip = (Ok (), release pool u)"
proof (cases "Isv4 ip")
  case False
  then show thesis by (intro bad) (simp_all add: Unset_def)
next
  case True
  then obtain u where u: "ToUint32 ip = Some u" by (rule Isv4_obtain)
  have run: "running pool" using wf by (simp add: pool_wf_def)
  show thesis
    using True u run
    by (cases "u \<in> Ippool.taken pool")
      (auto intro: taken unused simp: Unset_def isUsed_taken)
qed

lemma pool_wf_release [go_simps]: "pool_wf pool \<Longrightarrow> pool_wf (release pool u)"
  by (auto simp: pool_wf_def taken_def pool_range_def)

lemma taken_release [go_simps]: "taken (release pool u) = taken pool - {u}"
  by (auto simp: taken_def)

lemma release_hold: "u \<notin> taken pool \<Longrightarrow> release (hold pool u) u = pool"
  by (cases pool) (auto simp: taken_def fun_eq_iff)


lemma four_le_power: "p \<le> 30 \<Longrightarrow> 4 \<le> (2 :: nat) ^ (32 - p)"
  using power_increasing [of 2 "32 - p" "2 :: nat"] by simp

lemma NewIPv4FromSubnet_net:
  assumes net: "ipv4_net n p" and p: "p \<le> 30"
  obtains pool where "NewIPv4FromSubnet n = Ok pool" "pool_wf pool" "taken pool = {pool_min pool}"
    "unat (pool_min pool) = net_base n p + 1"
    "unat (pool_max pool) = net_base n p + 2 ^ (32 - p) - 2"
proof -
  have v4: "Isv4 (IP (net_IP n))" "fst (mask_Size (net_Mask n)) \<le> 30" "NetworkAddr n \<noteq> None"
    using net p network_and_broadcast [OF net] by (auto simp: ipv4_net_def mask_Size_def)
  obtain f l where fl: "FirstUsable n = Some (Uint32ToIP f)" "LastUsable n = Some (Uint32ToIP l)"
    "unat f = net_base n p + 1" "unat l = net_base n p + 2 ^ (32 - p) - 2"
    using usable_range [OF net p] by blast
  let ?pool = "\<lparr>serverIP = Uint32ToIP f, used = [f \<mapsto> True], pool_min = f, pool_max = l,
    running = True\<rparr>"
  have "f \<le> l" and "0 < f"
    using fl four_le_power [OF p] by (simp_all add: word_le_nat_alt word_less_nat_alt)
  then have "pool_wf ?pool" "taken ?pool = {pool_min ?pool}"
    by (auto simp: pool_wf_def taken_def pool_range_def)
  moreover have "NewIPv4FromSubnet n = Ok ?pool"
    using v4 fl by (simp add: NewIPv4FromSubnet_def defaultUsed_def)
  ultimately show thesis using fl that by simp
qed

lemma free_single:
  assumes "pool_wf pool" and "taken pool = {pool_min pool}"
  shows "free pool = Ok (int (unat (pool_max pool) - unat (pool_min pool)))"
proof -
  have le: "pool_min pool \<le> pool_max pool" using assms(1) by (simp add: pool_wf_def)
  then have "card (pool_range pool - taken pool) = unat (pool_max pool) - unat (pool_min pool)"
    unfolding assms(2) by (simp add: pool_range_def card_word_interval)
  then show ?thesis using free_wf [OF assms(1)] by simp
qed

section \<open>Runs of the pool\<close>

datatype pool_event = Acquired uint32 | Released uint32 | Refused

inductive pool_step :: "IPv4pool \<Rightarrow> pool_event \<Rightarrow> IPv4pool \<Rightarrow> bool" where
  step_alloc: "Alloc pool rnd = Some (Ok ip, pool') \<Longrightarrow> ToUint32 ip = Some u
    \<Longrightarrow> pool_step pool (Acquired u) pool'"
| step_alloc_refused: "Alloc pool rnd = Some (Err e, pool') \<Longrightarrow> pool_step pool Refused pool'"
| step_set: "Set pool ip = (Ok (), pool') \<Longrightarrow> ToUint32 ip = Some u
    \<Longrightarrow> pool_step pool (Acquired u) pool'"
| step_set_refused: "Set pool ip = (Err e, pool') \<Longrightarrow> pool_step pool Refused pool'"
| step_unset: "Unset pool ip = (Ok (), pool') \<Longrightarrow> ToUint32 ip = Some u
    \<Longrightarrow> pool_step pool (Released u) pool'"
| step_unset_refused: "Unset pool ip = (Err e, pool') \<Longrightarrow> pool_step pool Refused pool'"

inductive pool_run :: "IPv4pool \<Rightarrow> pool_event list \<Rightarrow> IPv4pool \<Rightarrow> bool" where
  run_nil: "pool_run pool [] pool"
| run_cons: "pool_step pool e pool' \<Longrightarrow> pool_run pool' es pool'' \<Longrightarrow> pool_run pool (e # es) pool''"

inductive_cases pool_run_nilE: "pool_run pool [] pool'"
inductive_cases pool_run_consE: "pool_run pool (e # es) pool'"

text \<open>The abstract pool: a set \<open>H\<close> of held addresses inside a fixed range \<open>R\<close>.  \<open>exclusive\<close> checks
  that a trace only acquires addresses of the range nobody holds and only releases held ones, and
  computes who holds what at the end.\<close>

fun exclusive :: "uint32 set \<Rightarrow> uint32 set \<Rightarrow> pool_event list \<Rightarrow> uint32 set option" where
  "exclusive R H [] = Some H"
| "exclusive R H (Acquired u # es) =
     (if u \<in> R \<and> u \<notin> H then exclusive R (insert u H) es else None)"
| "exclusive R H (Released u # es) = (if u \<in> H then exclusive R (H - {u}) es else None)"
| "exclusive R H (Refused # es) = exclusive R H es"

lemma pool_step_simulates:
  assumes "pool_step pool e pool'" and wf: "pool_wf pool"
  shows "pool_wf pool'" and "pool_range pool' = pool_range pool"
    and "exclusive (pool_range pool) (taken pool) [e] = Some (taken pool')"
proof -
  have "pool_wf pool' \<and> pool_range pool' = pool_range pool
    \<and> exclusive (pool_range pool) (taken pool) [e] = Some (taken pool')"
    using assms(1)
  proof cases
    case (step_alloc rnd ip u)
    then show ?thesis using wf by (cases rule: Alloc_cases [OF wf, of rnd]) (auto simp: go_simps)
  next
    case (step_alloc_refused rnd err)
    then show ?thesis using wf by (cases rule: Alloc_cases [OF wf, of rnd]) auto
  next
    case (step_set ip u)
    then show ?thesis using wf by (cases rule: Set_cases [OF wf, of ip]) (auto simp: go_simps)
  next
    case (step_set_refused ip err)
    then show ?thesis using wf by (cases rule: Set_cases [OF wf, of ip]) auto
  next
    case (step_unset ip u)
    then show ?thesis using wf by (cases rule: Unset_cases [OF wf, of ip]) (auto simp: go_simps)
  next
    case (step_unset_refused ip err)
    then show ?thesis using wf by (cases rule: Unset_cases [OF wf, of ip]) auto
  qed
  then show "pool_wf pool'" and "pool_range pool' = pool_range pool"
    and "exclusive (pool_range pool) (taken pool) [e] = Some (taken pool')" by auto
qed

lemma exclusive_cons:
  "exclusive R H [e] = Some H' \<Longrightarrow> exclusive R H (e # es) = exclusive R H' es"
  by (cases e) (auto split: if_splits)

lemma pool_run_simulates:
  assumes "pool_run pool es pool'" and "pool_wf pool"
  shows "pool_wf pool' \<and> pool_range pool' = pool_range pool
    \<and> exclusive (pool_range pool) (taken pool) es = Some (taken pool')"
  using assms
proof (induction rule: pool_run.induct)
  case (run_cons pool e pool' es pool'')
  note step = pool_step_simulates [OF run_cons.hyps(1) run_cons.prems]
  show ?case using run_cons.IH [OF step(1)] step exclusive_cons [OF step(3)] by simp
qed simp


lemma exclusive_keeps:
  assumes "exclusive R H es = Some H'" and "s \<in> H" and "Released s \<notin> set es"
  shows "Acquired s \<notin> set es \<and> s \<in> H'"
  using assms by (induction R H es rule: exclusive.induct) (auto split: if_splits)

section \<open>The contract of an address pool\<close>

text \<open>What a client of the pool relies on: an acquired address was free and inside the range, only
  that address changes hands, and releasing it right away undoes the acquisition.\<close>

locale address_pool =
  fixes wf :: "'p \<Rightarrow> bool"
    and held :: "'p \<Rightarrow> uint32 set"
    and range_of :: "'p \<Rightarrow> uint32 set"
    and alloc :: "'p \<Rightarrow> 'r \<Rightarrow> ((go_error, IP) outcome \<times> 'p) option"
    and set_addr :: "'p \<Rightarrow> IP \<Rightarrow> (go_error, unit) outcome \<times> 'p"
    and unset_addr :: "'p \<Rightarrow> IP \<Rightarrow> (go_error, unit) outcome \<times> 'p"
  assumes alloc_law: "wf p \<Longrightarrow>
      (\<exists>u p'. alloc p r = Some (Ok (Uint32ToIP u), p') \<and> u \<in> range_of p - held p \<and> wf p'
          \<and> held p' = insert u (held p) \<and> range_of p' = range_of p
          \<and> unset_addr p' (Uint32ToIP u) = (Ok (), p))
      \<or> held p = range_of p \<and> (\<exists>e. alloc p r = Some (Err e, p))"
    and set_law: "wf p \<Longrightarrow>
      (\<exists>u p'. set_addr p ip = (Ok (), p') \<and> ToUint32 ip = Some u \<and> u \<in> range_of p - held p \<and> wf p'
          \<and> held p' = insert u (held p) \<and> range_of p' = range_of p \<and> unset_addr p' ip = (Ok (), p))
      \<or> (\<exists>e. set_addr p ip = (Err e, p)) \<and> (\<forall>u. ToUint32 ip = Some u \<longrightarrow> u \<notin> range_of p - held p)"
    and unset_law: "wf p \<Longrightarrow>
      (\<exists>u p'. unset_addr p ip = (Ok (), p') \<and> ToUint32 ip = Some u \<and> u \<in> held p \<and> wf p'
          \<and> held p' = held p - {u} \<and> range_of p' = range_of p)
      \<or> (\<exists>e. unset_addr p ip = (Err e, p)) \<and> (\<forall>u. ToUint32 ip = Some u \<longrightarrow> u \<notin> held p)"
begin

lemma alloc_ok:
  assumes "wf p" and "alloc p r = Some (Ok ip, p')"
  shows "\<exists>u. ip = Uint32ToIP u \<and> u \<in> range_of p - held p \<and> held p' = insert u (held p)"
    and "wf p'" and "range_of p' = range_of p" and "unset_addr p' ip = (Ok (), p)"
  using alloc_law [OF assms(1), of r] assms(2) by auto

lemma alloc_total: "wf p \<Longrightarrow> \<exists>res p'. alloc p r = Some (res, p') \<and> wf p' \<and> \<not> is_crash res"
  using alloc_law [of p r] by auto

lemma alloc_refused: "wf p \<Longrightarrow> alloc p r = Some (Err e, p') \<Longrightarrow> p' = p \<and> held p = range_of p"
  using alloc_law [of p r] by auto

lemma set_ok:
  assumes "wf p" and "set_addr p ip = (Ok (), p')"
  shows "\<exists>u. ToUint32 ip = Some u \<and> u \<in> range_of p - held p \<and> held p' = insert u (held p)"
    and "wf p'" and "range_of p' = range_of p" and "unset_addr p' ip = (Ok (), p)"
  using set_law [OF assms(1), of ip] assms(2) by auto

lemma set_refused: "wf p \<Longrightarrow> set_addr p ip = (Err e, p') \<Longrightarrow> p' = p"
  using set_law [of p ip] by auto

lemma set_no_crash: "wf p \<Longrightarrow> set_addr p ip \<noteq> (Crash m, p')"
  using set_law [of p ip] by auto

lemma unset_ok:
  assumes "wf p" and "unset_addr p ip = (Ok (), p')"
  shows "\<exists>u. ToUint32 ip = Some u \<and> u \<in> held p \<and> held p' = held p - {u}"
    and "wf p'" and "range_of p' = range_of p"
  using unset_law [OF assms(1), of ip] assms(2) by auto

lemma unset_refused: "wf p \<Longrightarrow> unset_addr p ip = (Err e, p') \<Longrightarrow> p' = p"
  using unset_law [of p ip] by auto

lemma unset_no_crash: "wf p \<Longrightarrow> unset_addr p ip \<noteq> (Crash m, p')"
  using unset_law [of p ip] by auto

lemma unset_twice:
  assumes "wf p" and "unset_addr p ip = (Ok (), p')"
  shows "\<exists>e. unset_addr p' ip = (Err e, p')"
proof -
  obtain u where u: "ToUint32 ip = Some u" and "held p' = held p - {u}"
    using unset_ok(1) [OF assms] by blast
  then have "u \<notin> held p'" by simp
  with unset_law [OF unset_ok(2) [OF assms], of ip] u show ?thesis by auto
qed

end

lemma Unset_hold:
  assumes "pool_wf pool" and "u \<in> pool_range pool" and "u \<notin> taken pool" and "ToUint32 ip = Some u"
  shows "Unset (hold pool u) ip = (Ok (), pool)"
proof -
  have "Isv4 ip" using assms(4) Isv4_ToUint32 by blast
  then show ?thesis
    using assms release_hold [OF assms(3)] by (simp add: Unset_def pool_wf_def isUsed_def)
qed

lemmas pool_hold_facts = pool_wf_hold taken_hold pool_range_used Unset_hold

interpretation v4pool: address_pool pool_wf taken pool_range Alloc Set Unset
proof
  fix p and r :: uint32 and ip
  assume wf: "pool_wf p"
  show "(\<exists>u p'. Alloc p r = Some (Ok (Uint32ToIP u), p') \<and> u \<in> pool_range p - taken p \<and> pool_wf p'
          \<and> taken p' = insert u (taken p) \<and> pool_range p' = pool_range p
          \<and> Unset p' (Uint32ToIP u) = (Ok (), p))
      \<or> taken p = pool_range p \<and> (\<exists>e. Alloc p r = Some (Err e, p))"
    using wf by (cases rule: Alloc_cases [OF wf, of r]) (auto simp: pool_hold_facts)
  show "(\<exists>u p'. Set p ip = (Ok (), p') \<and> ToUint32 ip = Some u \<and> u \<in> pool_range p - taken p \<and> pool_wf p'
          \<and> taken p' = insert u (taken p) \<and> pool_range p' = pool_range p \<and> Unset p' ip = (Ok (), p))
      \<or> (\<exists>e. Set p ip = (Err e, p)) \<and> (\<forall>u. ToUint32 ip = Some u \<longrightarrow> u \<notin> pool_range p - taken p)"
    using wf by (cases rule: Set_cases [OF wf, of ip]) (auto simp: pool_hold_facts Isv4_ToUint32)
  show "(\<exists>u p'. Unset p ip = (Ok (), p') \<and> ToUint32 ip = Some u \<and> u \<in> taken p \<and> pool_wf p'
          \<and> taken p' = taken p - {u} \<and> pool_range p' = pool_range p)
      \<or> (\<exists>e. Unset p ip = (Err e, p)) \<and> (\<forall>u. ToUint32 ip = Some u \<longrightarrow> u \<notin> taken p)"
    using wf
    by (cases rule: Unset_cases [OF wf, of ip])
      (auto simp: pool_wf_release taken_release pool_range_used Isv4_ToUint32)
qed


section \<open>Two concrete pools\<close>

definition tiny_pool :: IPv4pool where
  "tiny_pool = \<lparr>serverIP = Uint32ToIP 5, used = [5 \<mapsto> True, 6 \<mapsto> True], pool_min = 5, pool_max = 7,
     running = True\<rparr>"

lemma tiny_pool_wf: "pool_wf tiny_pool"
  by (simp add: tiny_pool_def pool_wf_def taken_def pool_range_def)

definition office_net :: IPNet where
  "office_net = \<lparr>net_IP = [10, 8, 0, 5], net_Mask = [255, 255, 255, 248]\<rparr>"

lemma office_net_ok: "ipv4_net office_net 29"
  unfolding office_net_def by code_simp

lemma office_net_base: "net_base office_net 29 = 0xA080000"
  by (simp add: office_net_def net_base_def ToUint32_def To4_def bytes_to_uint32_def prefix_mask_def
      mask_numeral)

section \<open>Properties\<close>

text \<open>C5: a pool made from an IPv4 network with prefix length at most 30 spans exactly the
  network's usable addresses, holds the first of them for the server, satisfies the pool invariant
  and reports all but the network, broadcast and server addresses as free.\<close>

theorem new_pool_spans_usable:
  assumes "ipv4_net n p" and "p \<le> 30"
  shows "\<exists>pool. NewIPv4FromSubnet n = Ok pool \<and> pool_wf pool
     \<and> unat (pool_min pool) = net_base n p + 1
     \<and> unat (pool_max pool) = net_base n p + 2 ^ (32 - p) - 2
     \<and> taken pool = {pool_min pool} \<and> ToUint32 (serverIP pool) = Some (pool_min pool)
     \<and> free pool = Ok (2 ^ (32 - p) - 3)"
proof -
  obtain pool where new: "NewIPv4FromSubnet n = Ok pool" "pool_wf pool" "taken pool = {pool_min pool}"
    and mn: "unat (pool_min pool) = net_base n p + 1"
    and mx: "unat (pool_max pool) = net_base n p + 2 ^ (32 - p) - 2"
    by (rule NewIPv4FromSubnet_net [OF assms])
  have "int (unat (pool_max pool) - unat (pool_min pool)) = 2 ^ (32 - p) - 3"
    unfolding mn mx using four_le_power [OF assms(2)] by (simp add: of_nat_diff)
  then have "free pool = Ok (2 ^ (32 - p) - 3)" using free_single [OF new(2,3)] by simp
  then show ?thesis using new mn mx by (auto simp: pool_wf_def)
qed

theorem new_pool_spans_usable_witness:
  "\<exists>pool. NewIPv4FromSubnet office_net = Ok pool \<and> pool_wf pool \<and> free pool = Ok 5"
  using new_pool_spans_usable [OF office_net_ok] by auto

text \<open>C1: on a running well-formed pool \<open>Alloc\<close> always returns, whatever the random start of the
  search: it hands out an address of the range that was free and marks exactly that one used, and it
  refuses with the not-enough-space error, leaving the pool alone, exactly when every address of the
  range is taken.\<close>

theorem Alloc_fresh_or_full:
  assumes "pool_wf pool"
  shows "(taken pool = pool_range pool \<and> Alloc pool rnd = Some (Err not_enough_space, pool))
     \<or> (\<exists>u pool'. Alloc pool rnd = Some (Ok (Uint32ToIP u), pool') \<and> pool_wf pool'
          \<and> u \<in> pool_range pool \<and> u \<notin> taken pool \<and> taken pool' = insert u (taken pool)
          \<and> serverIP pool' = serverIP pool \<and> pool_range pool' = pool_range pool)"
  using assms by (cases rule: Alloc_cases [OF assms, of rnd]) (auto simp: go_simps)

theorem Alloc_fresh_or_full_witness:
  "\<exists>u pool'. Alloc tiny_pool 4 = Some (Ok (Uint32ToIP u), pool') \<and> pool_wf pool'
     \<and> u \<in> pool_range tiny_pool \<and> u \<notin> {5, 6}"
proof -
  have tk: "taken tiny_pool = {5, 6}" and "7 \<in> pool_range tiny_pool"
    by (auto simp: tiny_pool_def taken_def pool_range_def)
  then have "taken tiny_pool \<noteq> pool_range tiny_pool" by (simp add: set_eq_iff) (rule exI [of _ 7], simp)
  then show ?thesis using Alloc_fresh_or_full [OF tiny_pool_wf, of 4] tk by auto
qed

text \<open>C2: every sequence of \<open>Alloc\<close>, \<open>Set\<close> and \<open>Unset\<close> calls on a well-formed pool refines the
  abstract pool: no address is acquired while somebody holds it, only held addresses are released,
  the set of used addresses is at every moment the one the trace accounts for, and the invariant
  survives.\<close>

theorem pool_runs_exclusive:
  assumes "pool_wf pool" and "pool_run pool es pool'"
  shows "exclusive (pool_range pool) (taken pool) es = Some (taken pool') \<and> pool_wf pool'"
  using pool_run_simulates [OF assms(2,1)] by simp

lemma tiny_pool_run:
  "pool_run tiny_pool [Released 6, Acquired 6, Refused]
     (hold (release tiny_pool 6) 6)"
proof -
  have s1: "pool_step tiny_pool (Released 6) (release tiny_pool 6)"
    by (rule step_unset [where ip = "Uint32ToIP 6"])
      (simp_all add: Unset_def Isv4_Uint32ToIP tiny_pool_def isUsed_def)
  have s2: "pool_step (release tiny_pool 6) (Acquired 6) (hold (release tiny_pool 6) 6)"
    by (rule step_set [where ip = "Uint32ToIP 6"])
      (simp_all add: Set_def Isv4_Uint32ToIP tiny_pool_def isUsed_def)
  have s3: "pool_step (hold (release tiny_pool 6) 6) Refused (hold (release tiny_pool 6) 6)"
    by (rule step_set_refused [where ip = "Uint32ToIP 6"])
      (simp_all add: Set_def Isv4_Uint32ToIP tiny_pool_def isUsed_def)
  show ?thesis by (rule run_cons [OF s1 run_cons [OF s2 run_cons [OF s3 run_nil]]])
qed

theorem pool_runs_exclusive_witness:
  "exclusive (pool_range tiny_pool) (taken tiny_pool) [Released 6, Acquired 6, Refused]
     = Some (taken (hold (release tiny_pool 6) 6))"
  using pool_runs_exclusive [OF tiny_pool_wf tiny_pool_run] by simp

text \<open>the address the pool reserves for the server is never handed out, however the pool is
  used, as long as no caller releases it with \<open>Unset\<close>, and it is still held at the end.\<close>

theorem server_address_reserved:
  assumes "ipv4_net n p" and "p \<le> 30" and "NewIPv4FromSubnet n = Ok pool"
    and "pool_run pool es pool'" and "Released (pool_min pool) \<notin> set es"
  shows "Acquired (pool_min pool) \<notin> set es \<and> pool_min pool \<in> taken pool'"
proof -
  have wf: "pool_wf pool" and "pool_min pool \<in> taken pool"
    by (rule NewIPv4FromSubnet_net [OF assms(1,2)], use assms(3) in simp)+
  then show ?thesis
    using exclusive_keeps [OF _ _ assms(5)] pool_run_simulates [OF assms(4) wf] by blast
qed


theorem server_address_reserved_witness:
  "\<exists>pool pool'. NewIPv4FromSubnet office_net = Ok pool \<and> pool_min pool = 0xA080001
     \<and> pool_run pool [Acquired 0xA080002] pool' \<and> 0xA080001 \<in> taken pool'"
proof -
  obtain pool where new: "NewIPv4FromSubnet office_net = Ok pool" "pool_wf pool"
    "taken pool = {pool_min pool}" and "unat (pool_min pool) = 0xA080001"
    and "unat (pool_max pool) = 0xA080006"
    by (rule NewIPv4FromSubnet_net [OF office_net_ok]) (auto simp: office_net_base)
  then have mn: "pool_min pool = 0xA080001" and mx: "pool_max pool = 0xA080006"
    by (simp_all add: word_unat_eq_iff)
  have "pool_step pool (Acquired 0xA080002) (hold pool 0xA080002)"
    using new mn mx
    by (intro step_set [where ip = "Uint32ToIP 0xA080002"])
      (simp_all add: Set_def Isv4_Uint32ToIP isUsed_taken pool_wf_def)
  then have run: "pool_run pool [Acquired 0xA080002] (hold pool 0xA080002)"
    by (rule run_cons [OF _ run_nil])
  show ?thesis
    using server_address_reserved [OF office_net_ok _ new(1) run] new mn run by auto
qed


text \<open>the error for a subnet that is not IPv4 is never returned: the constructor panics on such
  a subnet before it checks the address family.\<close>

theorem non_ipv4_subnet_panics:
  assumes "\<not> Isv4 (IP (net_IP n))"
  shows "is_crash (NewIPv4FromSubnet n)"
proof -
  have "ToUint32 (IP (net_IP n)) = None" using assms Isv4_ToUint32 by (meson not_None_eq)
  then show ?thesis by (simp add: NewIPv4FromSubnet_def NetworkAddr_def split: option.splits)
qed

theorem non_ipv4_subnet_panics_witness:
  "is_crash (NewIPv4FromSubnet \<lparr>net_IP = replicate 16 1, net_Mask = replicate 16 255\<rparr>)"
  by (rule non_ipv4_subnet_panics) (simp add: Isv4_def To4_def numeral_eq_Suc)

end
