(* ===== verification/Ipam_Nft.thy ===== *)
theory Ipam_Nft
  imports Ipam_Config Ippool
begin

text \<open>
  The netfilter driver of the address manager (\<open>src/ipam/nft_linux.go\<close>): the tables, chains, rules
  and sets it builds, and the order in which it sends them.  The connection to the kernel is the
  package \<open>github.com/google/nftables\<close>; it is a parameter, the record \<open>nft_api\<close> of its operations on
  a connection state \<open>'k\<close>.  What a rule does to a packet is stated with \<open>rule_verdict\<close>, the documented
  meaning of the expressions used here.
\<close>

section \<open>Tables, chains, rules and sets\<close>

datatype table_family = TableFamilyINet

datatype chain_hook = ChainHookForward | ChainHookPostrouting | ChainHookPrerouting

datatype chain_priority = ChainPriorityFilter | ChainPriorityNATSource

datatype chain_type = ChainTypeFilter | ChainTypeNAT

datatype chain_policy = ChainPolicyAccept | ChainPolicyDrop

record nft_table =
  table_name :: string
  Family :: table_family

record nft_chain =
  chain_name :: string
  chain_table :: nft_table
  Hooknum :: chain_hook
  Priority :: chain_priority
  Type :: chain_type
  Policy :: chain_policy

datatype payload_base = PayloadBaseNetworkHeader | PayloadBaseTransportHeader

datatype verdict = VerdictAccept | VerdictDrop

text \<open>The expressions with the fields the driver sets; every load goes to register 1 and every
  comparison is an equality.\<close>

datatype nft_expr =
    Payload payload_base nat nat
  | Cmp "byte list"
  | MetaL4Proto
  | Ct
  | Lookup string
  | Counter
  | Masq
  | Verdict verdict

record nft_rule =
  rule_table :: nft_table
  rule_chain :: nft_chain
  UserData :: "byte list"
  Exprs :: "nft_expr list"

datatype key_type = TypeCTState | TypeInetService

record set_element =
  Key :: "byte list"
  IntervalEnd :: bool

record nft_set =
  set_table :: nft_table
  set_name :: string
  Interval :: bool
  KeyType :: key_type

record 'k nft_api =
  CtStateBitESTABLISHED :: uint32
  CtStateBitRELATED :: uint32
  AddTable :: "nft_table \<Rightarrow> 'k \<Rightarrow> 'k"
  FlushTable :: "nft_table \<Rightarrow> 'k \<Rightarrow> 'k"
  AddChain :: "nft_chain \<Rightarrow> 'k \<Rightarrow> 'k"
  AddRule :: "nft_rule \<Rightarrow> 'k \<Rightarrow> 'k"
  AddSet :: "nft_set \<Rightarrow> set_element list \<Rightarrow> 'k \<Rightarrow> go_error option \<times> 'k"
  DelRule :: "nft_rule \<Rightarrow> 'k \<Rightarrow> go_error option \<times> 'k"
  Flush :: "'k \<Rightarrow> go_error option \<times> 'k"
  ListChains :: "'k \<Rightarrow> (go_error + nft_chain list) \<times> 'k"
  GetRule :: "nft_table \<Rightarrow> nft_chain \<Rightarrow> 'k \<Rightarrow> (go_error + nft_rule list) \<times> 'k"

definition nftPrefix :: string where
  "nftPrefix = ''vh_''"

definition nfIsolationTable :: nft_table where
  "nfIsolationTable = \<lparr>table_name = nftPrefix @ ''isolation'', Family = TableFamilyINet\<rparr>"

definition nfIsolationChain :: nft_chain where
  "nfIsolationChain =
     \<lparr>chain_name = nftPrefix @ ''filter'', chain_table = nfIsolationTable, Hooknum = ChainHookForward,
      Priority = ChainPriorityFilter, Type = ChainTypeFilter, Policy = ChainPolicyAccept\<rparr>"

definition nfPortfilterTable :: nft_table where
  "nfPortfilterTable = \<lparr>table_name = nftPrefix @ ''portfilter'', Family = TableFamilyINet\<rparr>"

definition nfPortfilterChain :: nft_chain where
  "nfPortfilterChain =
     \<lparr>chain_name = nftPrefix @ ''filter'', chain_table = nfPortfilterTable, Hooknum = ChainHookForward,
      Priority = ChainPriorityFilter, Type = ChainTypeFilter, Policy = ChainPolicyAccept\<rparr>"

section \<open>The driver\<close>

text \<open>The state: the connection, the subnet size in bytes and the package's counter of set names.\<close>

record 'k netfilterWrapper =
  conn :: 'k
  subnetSize :: nat
  nftSetCounter :: uint32

abbreviation on_conn :: "('k \<Rightarrow> 'k) \<Rightarrow> 'k netfilterWrapper \<Rightarrow> 'k netfilterWrapper" where
  "on_conn f nft \<equiv> nft\<lparr>conn := f (conn nft)\<rparr>"

text \<open>\<open>flush_or\<close> is the statement that ends every change: flush the connection and wrap its error.\<close>

definition flush_or :: "'k nft_api \<Rightarrow> string \<Rightarrow> 'k netfilterWrapper
    \<Rightarrow> (go_error, unit) outcome \<times> 'k netfilterWrapper" where
  "flush_or api msg nft =
     (case Flush api (conn nft) of
        (Some err, k) \<Rightarrow> (Err (EInternalError msg (Some err)), nft\<lparr>conn := k\<rparr>)
      | (None, k) \<Rightarrow> (Ok (), nft\<lparr>conn := k\<rparr>))"

definition ipnetSizeBytes :: "IPNet \<Rightarrow> nat" where
  "ipnetSizeBytes ipn =
     (let ones = fst (mask_Size (net_Mask ipn)) in
      if ones \<le> 8 then 1 else if ones \<le> 16 then 2 else if ones \<le> 24 then 3 else 4)"

definition newNetfilter :: "'k \<Rightarrow> uint32 \<Rightarrow> IPNet \<Rightarrow> 'k netfilterWrapper" where
  "newNetfilter k counter subnet =
     \<lparr>conn = k, subnetSize = ipnetSizeBytes subnet, nftSetCounter = counter\<rparr>"

definition enableMasquerade :: "'k nft_api \<Rightarrow> 'k netfilterWrapper \<Rightarrow> 'k netfilterWrapper" where
  "enableMasquerade api nft =
     (let nat_table = \<lparr>table_name = nftPrefix @ ''nat'', Family = TableFamilyINet\<rparr>;
          postrouting =
            \<lparr>chain_name = nftPrefix @ ''postrouting'', chain_table = nat_table,
             Hooknum = ChainHookPostrouting, Priority = ChainPriorityNATSource,
             Type = ChainTypeNAT, Policy = ChainPolicyAccept\<rparr>;
          prerouting =
            \<lparr>chain_name = nftPrefix @ ''prerouting'', chain_table = nat_table,
             Hooknum = ChainHookPrerouting, Priority = ChainPriorityNATSource,
             Type = ChainTypeNAT, Policy = ChainPolicyAccept\<rparr>;
          nft = on_conn (AddTable api nat_table) nft;
          nft = on_conn (FlushTable api nat_table) nft;
          nft = on_conn (AddChain api postrouting) nft;
          nft = on_conn (AddRule api \<lparr>rule_table = nat_table, rule_chain = postrouting,
                  UserData = [], Exprs = [Counter, Masq]\<rparr>) nft;
          nft = on_conn (AddChain api prerouting) nft in
      on_conn (AddRule api \<lparr>rule_table = nat_table, rule_chain = prerouting,
        UserData = [], Exprs = []\<rparr>) nft)"

definition initTable ::
  "'k nft_api \<Rightarrow> nft_table \<Rightarrow> nft_chain \<Rightarrow> 'k netfilterWrapper \<Rightarrow> 'k netfilterWrapper" where
  "initTable api table chain nft =
     (let nft = on_conn (AddTable api table) nft;
          nft = on_conn (FlushTable api table) nft;
          nft = on_conn (AddChain api chain) nft in
      on_conn (AddRule api \<lparr>rule_table = table, rule_chain = chain, UserData = [],
        Exprs = [Counter]\<rparr>) nft)"

definition nftNextSetName :: "'k netfilterWrapper \<Rightarrow> string \<times> 'k netfilterWrapper" where
  "nftNextSetName nft =
     (let n = nftSetCounter nft + 1 in (''__vh_set'' @ itoa (unat n), nft\<lparr>nftSetCounter := n\<rparr>))"

definition nftUint16ToKey :: "uint16 \<Rightarrow> byte list" where
  "nftUint16ToKey v = [ucast (drop_bit 8 v), ucast v]"

definition nftCtStateToKey :: "uint32 \<Rightarrow> byte list" where
  "nftCtStateToKey s = [ucast s, ucast (drop_bit 8 s), ucast (drop_bit 16 s), ucast (drop_bit 24 s)]"

text \<open>The verdict argument of the code is not used: the rule always accepts.\<close>

definition addCtMatchRule ::
  "'k nft_api \<Rightarrow> nft_table \<Rightarrow> nft_chain \<Rightarrow> uint32 list \<Rightarrow> verdict \<Rightarrow> 'k netfilterWrapper
    \<Rightarrow> (go_error, unit) outcome \<times> 'k netfilterWrapper" where
  "addCtMatchRule api table chain ctStateBits v nft =
     (let (name, nft) = nftNextSetName nft;
          ctSet = \<lparr>set_table = table, set_name = name, Interval = False, KeyType = TypeCTState\<rparr>;
          ctSetElements = map (\<lambda>st. \<lparr>Key = nftCtStateToKey st, IntervalEnd = False\<rparr>) ctStateBits in
      case AddSet api ctSet ctSetElements (conn nft) of
        (Some err, k) \<Rightarrow>
          (Err (EInternalError ''nft: failed to create blocked ports set'' (Some err)), nft\<lparr>conn := k\<rparr>)
      | (None, k) \<Rightarrow>
          (Ok (), on_conn (AddRule api \<lparr>rule_table = table, rule_chain = chain, UserData = [],
             Exprs = [Ct, Lookup name, Counter, Verdict VerdictAccept]\<rparr>) (nft\<lparr>conn := k\<rparr>)))"

definition initPortfilterTable ::
  "'k nft_api \<Rightarrow> nft_table \<Rightarrow> nft_chain \<Rightarrow> 'k netfilterWrapper \<Rightarrow> 'k netfilterWrapper" where
  "initPortfilterTable api table chain nft =
     snd (addCtMatchRule api table chain 
       [CtStateBitESTABLISHED api, CtStateBitRELATED api] VerdictAccept
       (initTable api table chain nft))"

definition nft_init :: "'k nft_api \<Rightarrow> 'k netfilterWrapper
    \<Rightarrow> (go_error, unit) outcome \<times> 'k netfilterWrapper" where
  "nft_init api nft =
     (let nft = enableMasquerade api nft;
          nft = initTable api nfIsolationTable nfIsolationChain nft;
          nft = initPortfilterTable api nfPortfilterTable nfPortfilterChain nft in
      flush_or api ''nft: failed to init nftables'' nft)"

definition isolate_peer_rule :: "byte list \<Rightarrow> nat \<Rightarrow> nft_rule" where
  "isolate_peer_rule peerAddrBytes n =
     \<lparr>rule_table = nfIsolationTable, rule_chain = nfIsolationChain, UserData = peerAddrBytes,
      Exprs = [Payload PayloadBaseNetworkHeader 12 4, Cmp peerAddrBytes,
               Payload PayloadBaseNetworkHeader 16 4, Cmp (take n peerAddrBytes),
               Verdict VerdictDrop]\<rparr>"

text \<open>Slicing a nil address panics.\<close>

definition newIsolatePeerRule ::
  "'k nft_api \<Rightarrow> IP \<Rightarrow> 'k netfilterWrapper \<Rightarrow> (go_error, unit) outcome \<times> 'k netfilterWrapper" where
  "newIsolatePeerRule api peerIP nft =
     (case To4 (IP_bytes peerIP) of
        None \<Rightarrow> (Crash ''slice bounds out of range'', nft)
      | Some peerAddrBytes \<Rightarrow>
          flush_or api ''nft: failed to isolate peer''
            (on_conn (AddRule api (isolate_peer_rule peerAddrBytes (subnetSize nft))) nft))"

definition isolate_all_rule :: "byte list \<Rightarrow> nft_rule" where
  "isolate_all_rule subnet =
     \<lparr>rule_table = nfIsolationTable, rule_chain = nfIsolationChain, UserData = [0xC0, 0xDE, 0x01],
      Exprs = [Payload PayloadBaseNetworkHeader 12 4, Cmp subnet,
               Payload PayloadBaseNetworkHeader 16 4, Cmp subnet,
               Verdict VerdictDrop]\<rparr>"

definition newIsolateAllRule ::
  "'k nft_api \<Rightarrow> IPNet \<Rightarrow> 'k netfilterWrapper \<Rightarrow> (go_error, unit) outcome \<times> 'k netfilterWrapper" where
  "newIsolateAllRule api ipNet nft =
     (if NetworkAddr ipNet = None then (Crash ''index out of range'', nft)
      else
        (case To4 (net_IP ipNet) of
           None \<Rightarrow> (Crash ''slice bounds out of range'', nft)
         | Some ip4 \<Rightarrow>
             flush_or api ''nft: failed to isolate all peers''
               (on_conn (AddRule api (isolate_all_rule (take (ipnetSizeBytes ipNet) ip4))) nft)))"


text \<open>The inner loop of \<open>findAndRemoveRule\<close>: the first rule of a chain with the identifier.\<close>

fun first_rule :: "byte list \<Rightarrow> nft_rule list \<Rightarrow> nft_rule option" where
  "first_rule ident [] = None"
| "first_rule ident (r # rs) = (if UserData r = ident then Some r else first_rule ident rs)"

definition delete_rule :: "'k nft_api \<Rightarrow> nft_chain \<Rightarrow> nft_rule \<Rightarrow> 'k netfilterWrapper
    \<Rightarrow> (go_error, unit) outcome \<times> 'k netfilterWrapper" where
  "delete_rule api cn r nft =
     (let r = r\<lparr>rule_table := (rule_table r)\<lparr>Family := Family (chain_table cn)\<rparr>\<rparr> in
      case DelRule api r (conn nft) of
        (Some err, k) \<Rightarrow> (Err (EInternalError ''nft: failed to delete rule'' (Some err)), nft\<lparr>conn := k\<rparr>)
      | (None, k) \<Rightarrow> flush_or api ''nft: failed to delete rule'' (nft\<lparr>conn := k\<rparr>))"

fun remove_in_chains :: "'k nft_api \<Rightarrow> byte list \<Rightarrow> nft_chain list \<Rightarrow> 'k netfilterWrapper
    \<Rightarrow> (go_error, unit) outcome \<times> 'k netfilterWrapper" where
  "remove_in_chains api ident [] nft =
     (Err (EInternalError ''nft: no rule with given ID were found'' None), nft)"
| "remove_in_chains api ident (cn # cns) nft =
     (case GetRule api (chain_table cn) cn (conn nft) of
        (Inl err, k) \<Rightarrow>
          (Err (EInternalError ''nft: failed to list rules for a chain'' (Some err)), nft\<lparr>conn := k\<rparr>)
      | (Inr rules, k) \<Rightarrow>
          (case first_rule ident rules of
             Some r \<Rightarrow> delete_rule api cn r (nft\<lparr>conn := k\<rparr>)
           | None \<Rightarrow> remove_in_chains api ident cns (nft\<lparr>conn := k\<rparr>)))"

definition findAndRemoveRule :: "'k nft_api \<Rightarrow> byte list \<Rightarrow> 'k netfilterWrapper
    \<Rightarrow> (go_error, unit) outcome \<times> 'k netfilterWrapper" where
  "findAndRemoveRule api ident nft =
     (case ListChains api (conn nft) of
        (Inl err, k) \<Rightarrow> (Err (EInternalError ''nft: failed to list chains'' (Some err)), nft\<lparr>conn := k\<rparr>)
      | (Inr cns, k) \<Rightarrow> remove_in_chains api ident cns (nft\<lparr>conn := k\<rparr>))"

section \<open>Port filters\<close>

text \<open>\<open>sort.Slice\<close> may leave ranges with the same lower end in any order, so the sorting function is
  a parameter; \<open>sorts_ports\<close> is what it guarantees.\<close>

definition sorts_ports :: "(PortRange list \<Rightarrow> PortRange list) \<Rightarrow> bool" where
  "sorts_ports srt \<longleftrightarrow> (\<forall>ps. mset (srt ps) = mset ps \<and> sorted (map low (srt ps)))"

fun port_elements :: "uint16 \<Rightarrow> PortRange list \<Rightarrow> set_element list" where
  "port_elements highest [] = []"
| "port_elements highest (r # rs) =
     (if low r \<le> highest then port_elements highest rs
      else \<lparr>Key = nftUint16ToKey (low r), IntervalEnd = False\<rparr>
           # \<lparr>Key = nftUint16ToKey (high r + 1), IntervalEnd = True\<rparr>
           # port_elements (high r) rs)"

definition port_rule :: "protocolID \<Rightarrow> ListMode \<Rightarrow> string \<Rightarrow> nft_rule" where
  "port_rule proto mode name =
     \<lparr>rule_table = nfPortfilterTable, rule_chain = nfPortfilterChain, UserData = [],
      Exprs = [MetaL4Proto, Cmp [proto_id proto], Payload PayloadBaseTransportHeader 2 2, Lookup name,
               Counter, Verdict (if AllowList mode then VerdictAccept else VerdictDrop)]\<rparr>"

definition allow_list_drop_rule :: "protocolID \<Rightarrow> nft_rule" where
  "allow_list_drop_rule proto =
     \<lparr>rule_table = nfPortfilterTable, rule_chain = nfPortfilterChain, UserData = [],
      Exprs = [Payload PayloadBaseNetworkHeader 9 1, Cmp [proto_id proto], Counter,
               Verdict VerdictDrop]\<rparr>"

definition setBlockedPorts4proto ::
  "'k nft_api \<Rightarrow> (PortRange list \<Rightarrow> PortRange list) \<Rightarrow> PortRange list option \<Rightarrow> protocolID \<Rightarrow> ListMode
    \<Rightarrow> 'k netfilterWrapper \<Rightarrow> (go_error, unit) outcome \<times> 'k netfilterWrapper" where
  "setBlockedPorts4proto api srt ports proto mode nft =
     (case ports of
        None \<Rightarrow> (Ok (), nft)
      | Some ports \<Rightarrow>
          (let (name, nft) = nftNextSetName nft;
               st = \<lparr>set_table = nfPortfilterTable, set_name = name, Interval = True,
                     KeyType = TypeInetService\<rparr>;
               setElements = port_elements 0 (srt ports) in
           case AddSet api st setElements (conn nft) of
             (Some err, k) \<Rightarrow>
               (Err (EInternalError ''nft: failed to create blocked ports set'' (Some err)),
                nft\<lparr>conn := k\<rparr>)
           | (None, k) \<Rightarrow>
               (let nft = on_conn (AddRule api (port_rule proto mode name)) (nft\<lparr>conn := k\<rparr>);
                    nft = (if AllowList mode
                           then on_conn (AddRule api (allow_list_drop_rule proto)) nft else nft) in
                flush_or api ''nft: failed to set blocked ports'' nft)))"

definition fillPortRestrictionRules ::
  "'k nft_api \<Rightarrow> (PortRange list \<Rightarrow> PortRange list) \<Rightarrow> PortRestrictionConfig
    \<Rightarrow> 'k netfilterWrapper \<Rightarrow> (go_error, unit) outcome \<times> 'k netfilterWrapper" where
  "fillPortRestrictionRules api srt ports nft =
     (case setBlockedPorts4proto api srt (Ports (UDP ports)) protocolUDP (Mode (UDP ports)) nft of
        (Ok (), nft) \<Rightarrow>
          setBlockedPorts4proto api srt (Ports (TCP ports)) protocolTCP (Mode (TCP ports)) nft
      | (err, nft) \<Rightarrow> (err, nft))"

section \<open>What rules do to packets\<close>

text \<open>The documented meaning of the expressions: a payload expression loads header bytes into the
  register, a comparison checks as many bytes as it has data, a lookup in an interval set succeeds
  when an interval is open at the key, and the verdict ends the rule.\<close>

record packet =
  network_header :: "byte list"
  transport_header :: "byte list"
  l4proto :: byte
  ct_state :: "byte list"

text \<open>A key is inside an interval set when some interval starts at or below it and no interval ends
  between that start and the key.  Keys are port numbers.\<close>

definition key_port :: "byte list \<Rightarrow> nat" where
  "key_port k = 256 * unat (k ! 0) + unat (k ! 1)"

definition in_intervals :: "set_element list \<Rightarrow> nat \<Rightarrow> bool" where
  "in_intervals els p \<longleftrightarrow>
     (\<exists>s \<in> set els. \<not> IntervalEnd s \<and> key_port (Key s) \<le> p
        \<and> (\<forall>e \<in> set els. IntervalEnd e \<and> key_port (Key e) \<le> p \<longrightarrow> key_port (Key e) \<le> key_port (Key s)))"

fun run_exprs :: "(string \<Rightarrow> byte list \<Rightarrow> bool) \<Rightarrow> packet \<Rightarrow> byte list \<Rightarrow> nft_expr list \<Rightarrow> verdict option" where
  "run_exprs sets pkt reg [] = None"
| "run_exprs sets pkt reg (Payload PayloadBaseNetworkHeader off len # es) =
     run_exprs sets pkt (slice off (off + len) (network_header pkt)) es"
| "run_exprs sets pkt reg (Payload PayloadBaseTransportHeader off len # es) =
     run_exprs sets pkt (slice off (off + len) (transport_header pkt)) es"
| "run_exprs sets pkt reg (Cmp d # es) =
     (if take (length d) reg = d then run_exprs sets pkt reg es else None)"
| "run_exprs sets pkt reg (MetaL4Proto # es) = run_exprs sets pkt [l4proto pkt] es"
| "run_exprs sets pkt reg (Ct # es) = run_exprs sets pkt (ct_state pkt) es"
| "run_exprs sets pkt reg (Lookup n # es) = (if sets n reg then run_exprs sets pkt reg es else None)"
| "run_exprs sets pkt reg (Counter # es) = run_exprs sets pkt reg es"
| "run_exprs sets pkt reg (Masq # es) = run_exprs sets pkt reg es"
| "run_exprs sets pkt reg (Verdict v # es) = Some v"

definition rule_verdict :: "(string \<Rightarrow> byte list \<Rightarrow> bool) \<Rightarrow> nft_rule \<Rightarrow> packet \<Rightarrow> verdict option" where
  "rule_verdict sets r pkt = run_exprs sets pkt [] (Exprs r)"


definition ipv4_packet :: "packet \<Rightarrow> uint32 \<Rightarrow> uint32 \<Rightarrow> bool" where
  "ipv4_packet pkt src dst \<longleftrightarrow>
     length (network_header pkt) \<ge> 20
     \<and> slice 12 16 (network_header pkt) = IP_bytes (Uint32ToIP src)
     \<and> slice 16 20 (network_header pkt) = IP_bytes (Uint32ToIP dst)"

section \<open>Isolation\<close>

text \<open>The first \<open>s\<close> bytes of an address are its top \<open>8 * s\<close> bits.\<close>

lemma take_bytes_eq_iff:
  assumes "s \<le> 4" and "0 < s"
  shows "take s (IP_bytes (Uint32ToIP a)) = take s (IP_bytes (Uint32ToIP b))
    \<longleftrightarrow> drop_bit (32 - 8 * s) a = drop_bit (32 - 8 * s) b"
proof -
  define D where "D = {j. bit a j \<noteq> bit b j}"
  have byte: "(ucast (drop_bit k a) :: byte) = ucast (drop_bit k b) \<longleftrightarrow> D \<inter> {k..<k + 8} = {}"
    if "k + 8 \<le> 32" for k
    using that by (auto simp: D_def bit_eq_iff bit_simps) (metis add.commute le_Suc_ex nat_add_left_cancel_less)+
  have D32: "j < 32" if "j \<in> D" for j
    using that bit_imp_le_length [of a j] bit_imp_le_length [of b j] by (auto simp: D_def)
  have word: "drop_bit k a = drop_bit k b \<longleftrightarrow> D \<inter> {k..<32} = {}" for k
  proof -
    have "drop_bit k a = drop_bit k b \<longleftrightarrow> (\<forall>i<32. k + i \<notin> D)"
      by (auto simp: bit_eq_iff bit_simps D_def)
    also have "\<dots> \<longleftrightarrow> D \<inter> {k..<32} = {}"
    proof
      assume l: "\<forall>i<32. k + i \<notin> D"
      have "j \<notin> D" if "k \<le> j" "j < 32" for j
        using l [rule_format, of "j - k"] that by simp
      then show "D \<inter> {k..<32} = {}" by auto
    qed (use D32 in force)
    finally show ?thesis .
  qed
  have split: "{0..<32} = {24..<32} \<union> {16..<24} \<union> {8..<16} \<union> {0..<8::nat}"
    "{8..<32} = {24..<32} \<union> {16..<24} \<union> {8..<16::nat}" "{16..<32} = {24..<32} \<union> {16..<24::nat}"
    by auto
  note bytes = byte [of 24] byte [of 16] byte [of 8] byte [of 0]
  consider "s = 1" | "s = 2" | "s = 3" | "s = 4" using assms by linarith
  then show ?thesis
    by cases (simp_all add: Uint32ToIP_bytes take_Cons' bytes [simplified] word
        word [of 0, simplified] split Int_Un_distrib conj_ac)
qed


lemma isolate_all_verdict:
  assumes "ipv4_packet pkt src dst" and "length net \<le> 4"
  shows "rule_verdict sets (isolate_all_rule net) pkt = Some VerdictDrop
    \<longleftrightarrow> take (length net) (IP_bytes (Uint32ToIP src)) = net
      \<and> take (length net) (IP_bytes (Uint32ToIP dst)) = net"
  using assms by (simp add: rule_verdict_def isolate_all_rule_def ipv4_packet_def)

lemma ipv4_net_address:
  assumes "ipv4_net n p"
  obtains u where "ToUint32 (IP (net_IP n)) = Some u" "To4 (net_IP n) = Some (IP_bytes (Uint32ToIP u))"
proof -
  obtain ip4 where ip4: "To4 (net_IP n) = Some ip4"
    using assms by (auto simp: ipv4_net_def Isv4_def)
  then have "IP_bytes (Uint32ToIP (bytes_to_uint32 ip4)) = ip4"
    using Uint32ToIP_bytes_to_uint32 length_To4 by blast
  then show thesis using ip4 by (intro that [of "bytes_to_uint32 ip4"]) (simp_all add: ToUint32_def)
qed

lemma ipnetSizeBytes_net:
  assumes "ipv4_net n p"
  shows "ipnetSizeBytes n \<in> {1..4}" and "p \<le> 8 * ipnetSizeBytes n"
  using assms ipv4_net_le [OF assms]
  by (auto simp: ipnetSizeBytes_def mask_Size_def ipv4_net_def Let_def)

definition isolates :: "nft_rule \<Rightarrow> IPNet \<Rightarrow> nat \<Rightarrow> bool" where
  "isolates r n p \<longleftrightarrow>
     (\<forall>sets pkt src dst. ipv4_packet pkt src dst \<longrightarrow>
        (rule_verdict sets r pkt = Some VerdictDrop \<longleftrightarrow> in_net n p src \<and> in_net n p dst))"

lemma newIsolateAllRule_net:
  assumes net: "ipv4_net n p" and u: "To4 (net_IP n) = Some (IP_bytes (Uint32ToIP u))"
  shows "newIsolateAllRule api n nft =
     flush_or api ''nft: failed to isolate all peers''
       (on_conn (AddRule api (isolate_all_rule (take (ipnetSizeBytes n) (IP_bytes (Uint32ToIP u))))) nft)"
  using network_and_broadcast [OF net] u by (auto simp: newIsolateAllRule_def)

lemma length_Uint32ToIP [simp]: "length (IP_bytes (Uint32ToIP u)) = 4"
  by (simp add: Uint32ToIP_def)

lemma isolate_all_bits:
  assumes "ipv4_packet pkt src dst" and s: "s \<in> {1..4}"
  shows "rule_verdict sets (isolate_all_rule (take s (IP_bytes (Uint32ToIP u)))) pkt = Some VerdictDrop
    \<longleftrightarrow> drop_bit (32 - 8 * s) src = drop_bit (32 - 8 * s) u
      \<and> drop_bit (32 - 8 * s) dst = drop_bit (32 - 8 * s) u"
proof -
  have len: "length (take s (IP_bytes (Uint32ToIP u))) = s" and "0 < s" "s \<le> 4" using s by auto
  then show ?thesis
    using isolate_all_verdict [OF assms(1), of "take s (IP_bytes (Uint32ToIP u))"]
      take_bytes_eq_iff [of s] by simp
qed

lemma xor_one_neq: "(x :: uint32) XOR 1 \<noteq> x"
proof -
  have "bit (x XOR 1) 0 \<noteq> bit x 0" by (simp add: bit_simps)
  then show ?thesis by metis
qed

lemma ipv4_packet_exists: "\<exists>pkt. ipv4_packet pkt src dst"
  by (rule exI [of _ "\<lparr>network_header = replicate 12 0 @ IP_bytes (Uint32ToIP src)
        @ IP_bytes (Uint32ToIP dst), transport_header = [], l4proto = 0, ct_state = []\<rparr>"])
    (simp add: ipv4_packet_def slice_def)




section \<open>Blocked ports\<close>

lemma key_port_nftUint16ToKey: "key_port (nftUint16ToKey v) = unat v"
proof -
  have "unat v < 65536" using unsigned_less [of v, where ?'a = nat] by simp
  moreover have "unat (ucast (drop_bit 8 v) :: byte) = unat v div 256 mod 256"
    unfolding unsigned_ucast_eq unat_drop_bit_eq by (simp add: take_bit_eq_mod drop_bit_eq_div)
  moreover have "unat (ucast v :: byte) = unat v mod 256"
    unfolding unsigned_ucast_eq by (simp add: take_bit_eq_mod)
  ultimately show ?thesis by (simp add: key_port_def nftUint16ToKey_def)
qed


text \<open>The ranges the loop keeps, and the elements it makes of one.\<close>

fun kept :: "uint16 \<Rightarrow> PortRange list \<Rightarrow> PortRange list" where
  "kept h [] = []"
| "kept h (r # rs) = (if low r \<le> h then kept h rs else r # kept (high r) rs)"

definition range_elements :: "PortRange \<Rightarrow> set_element list" where
  "range_elements r = [\<lparr>Key = nftUint16ToKey (low r), IntervalEnd = False\<rparr>,
     \<lparr>Key = nftUint16ToKey (high r + 1), IntervalEnd = True\<rparr>]"

lemma port_elements_kept: "port_elements h rs = concat (map range_elements (kept h rs))"
  by (induction h rs rule: port_elements.induct) (auto simp: range_elements_def)

definition in_range :: "PortRange \<Rightarrow> nat \<Rightarrow> bool" where
  "in_range r p \<longleftrightarrow> unat (low r) \<le> p \<and> p \<le> unat (high r)"

abbreviation proper_ranges :: "PortRange list \<Rightarrow> bool" where
  "proper_ranges rs \<equiv> \<forall>r \<in> set rs. 0 < low r \<and> low r \<le> high r"

lemma kept_subset: "set (kept h rs) \<subseteq> set rs"
  by (induction h rs rule: kept.induct) auto

lemma kept_above: "proper_ranges rs \<Longrightarrow> r \<in> set (kept h rs) \<Longrightarrow> h < low r"
proof (induction h rs rule: kept.induct)
  case (2 h r' rs)
  then show ?case by (auto split: if_splits)
qed simp

lemma kept_disjoint: "proper_ranges rs \<Longrightarrow> sorted_wrt (\<lambda>a b. high a < low b) (kept h rs)"
  by (induction h rs rule: kept.induct) (auto dest: kept_above)

lemma sorted_wrt_either:
  "sorted_wrt P xs \<Longrightarrow> x \<in> set xs \<Longrightarrow> y \<in> set xs \<Longrightarrow> x = y \<or> P x y \<or> P y x"
  by (induction xs) auto

lemma unat_high_succ:
  "unat ((h :: uint16) + 1) = (if h = 65535 then 0 else unat h + 1)"
proof -
  have h: "unat h < 65536" using unsigned_less [of h, where ?'a = nat] by simp
  show ?thesis
  proof (cases "h = 65535")
    case False
    then have "unat h \<noteq> 65535" by (simp add: word_unat_eq_iff)
    then show ?thesis using h False unat_add_lem [of h 1] by simp
  qed simp
qed

lemma in_intervals_concat:
  assumes proper: "proper_ranges K" and disj: "sorted_wrt (\<lambda>a b. high a < low b) K" and p: "p < 65536"
  shows "in_intervals (concat (map range_elements K)) p \<longleftrightarrow> (\<exists>r \<in> set K. in_range r p)"
proof -
  have elems: "in_intervals (concat (map range_elements K)) p \<longleftrightarrow>
     (\<exists>r \<in> set K. unat (low r) \<le> p \<and> (\<forall>r' \<in> set K. unat (high r' + 1) \<le> p \<longrightarrow> unat (high r' + 1) \<le> unat (low r)))"
    by (auto simp: in_intervals_def range_elements_def key_port_nftUint16ToKey)
  show ?thesis
  proof
    assume "in_intervals (concat (map range_elements K)) p"
    then obtain r where r: "r \<in> set K" "unat (low r) \<le> p"
      and e: "unat (high r + 1) \<le> p \<Longrightarrow> unat (high r + 1) \<le> unat (low r)" unfolding elems by blast
    have "unat (low r) \<le> unat (high r)" using proper r(1) by (simp add: word_le_nat_alt)
    then have "p \<le> unat (high r)"
      using e p by (cases "high r = 65535"; intro leI) (auto simp: unat_high_succ)
    then show "\<exists>r \<in> set K. in_range r p" using r by (auto simp: in_range_def)
  next
    assume "\<exists>r \<in> set K. in_range r p"
    then obtain r where r: "r \<in> set K" "unat (low r) \<le> p" "p \<le> unat (high r)" by (auto simp: in_range_def)
    have "unat (high r' + 1) \<le> unat (low r)" if r': "r' \<in> set K" "unat (high r' + 1) \<le> p" for r'
      using sorted_wrt_either [OF disj r(1) r'(1)] proper r r'
      by (cases "high r' = 65535") (auto simp: unat_high_succ word_less_nat_alt word_le_nat_alt)
    then show "in_intervals (concat (map range_elements K)) p" unfolding elems using r by blast
  qed
qed


lemma kept_covers:
  assumes "sorted (map low rs)" and "proper_ranges rs"
    and "\<And>a b. a \<in> set rs \<Longrightarrow> b \<in> set rs \<Longrightarrow> low a \<le> low b \<Longrightarrow> low b \<le> high a \<Longrightarrow> high b \<le> high a"
    and "r \<in> set rs" and "h < low r"
  shows "\<exists>k \<in> set (kept h rs). low k \<le> low r \<and> high r \<le> high k"
  using assms
proof (induction h rs rule: kept.induct)
  case (2 h a rs)
  show ?case
  proof (cases "low a \<le> h")
    case True
    then have "r \<in> set rs" using "2.prems"(4,5) by auto
    then show ?thesis using "2.IH"(1) [OF True] "2.prems" True by simp
  next
    case False
    have le: "low a \<le> low r" using "2.prems"(1,4) by auto
    show ?thesis
    proof (cases "low r \<le> high a")
      case True
      then have "high r \<le> high a" using "2.prems"(3) [of a r] "2.prems"(4) le by simp
      then show ?thesis using False le by auto
    next
      case above: False
      then have "r \<in> set rs" using "2.prems"(2,4) by auto
      then show ?thesis using "2.IH"(2) [OF False] "2.prems" False above by simp
    qed
  qed
qed simp

definition set_lookup :: "set_element list \<Rightarrow> string \<Rightarrow> byte list \<Rightarrow> bool" where
  "set_lookup els name k = in_intervals els (key_port k)"

text \<open>A packet of a transport protocol with its destination port.\<close>

definition port_packet :: "packet \<Rightarrow> byte \<Rightarrow> uint16 \<Rightarrow> bool" where
  "port_packet pkt proto d \<longleftrightarrow>
     l4proto pkt = proto \<and> length (transport_header pkt) \<ge> 4
     \<and> slice 2 4 (transport_header pkt) = nftUint16ToKey d"

lemma port_rule_verdict:
  assumes "port_packet pkt pr d"
  shows "rule_verdict (set_lookup els) (port_rule proto mode name) pkt =
    (if pr = proto_id proto \<and> in_intervals els (unat d)
     then Some (if AllowList mode then VerdictAccept else VerdictDrop) else None)"
  using assms
  by (simp add: rule_verdict_def port_rule_def port_packet_def set_lookup_def key_port_nftUint16ToKey)

lemma port_elements_covers:
  assumes "sorts_ports srt" and "proper_ranges ports"
    and "\<And>a b. a \<in> set ports \<Longrightarrow> b \<in> set ports \<Longrightarrow> low a \<le> low b \<Longrightarrow> low b \<le> high a \<Longrightarrow> high b \<le> high a"
  shows "in_intervals (port_elements 0 (srt ports)) (unat d)
    \<longleftrightarrow> (\<exists>r \<in> set ports. low r \<le> d \<and> d \<le> high r)"
proof -
  have s: "set (srt ports) = set ports" "sorted (map low (srt ports))"
    using assms(1) unfolding sorts_ports_def by (auto dest: mset_eq_setD)
  have proper: "proper_ranges (srt ports)" using assms(2) s(1) by simp
  have pk: "proper_ranges (kept 0 (srt ports))" using proper kept_subset by blast
  have d: "unat d < 65536" using unsigned_less [of d, where ?'a = nat] by simp
  have "in_intervals (port_elements 0 (srt ports)) (unat d)
      \<longleftrightarrow> (\<exists>k \<in> set (kept 0 (srt ports)). low k \<le> d \<and> d \<le> high k)"
    unfolding port_elements_kept in_intervals_concat [OF pk kept_disjoint [OF proper] d]
    by (simp add: in_range_def word_le_nat_alt)
  also have "\<dots> \<longleftrightarrow> (\<exists>r \<in> set ports. low r \<le> d \<and> d \<le> high r)"
  proof
    assume "\<exists>r \<in> set ports. low r \<le> d \<and> d \<le> high r"
    then obtain r where r: "r \<in> set (srt ports)" "low r \<le> d" "d \<le> high r" using s by auto
    moreover have "0 < low r" using proper r(1) by blast
    ultimately obtain k where "k \<in> set (kept 0 (srt ports))" "low k \<le> low r" "high r \<le> high k"
      using kept_covers [OF s(2) proper, of r 0] assms(3) s(1) by auto
    then show "\<exists>k \<in> set (kept 0 (srt ports)). low k \<le> d \<and> d \<le> high k"
      using r by (meson order_trans)
  qed (use kept_subset s in blast)
  finally show ?thesis .
qed


lemma sorts_ports_sort_key: "sorts_ports (sort_key low)"
  by (simp add: sorts_ports_def)





end
