(* ===== verification/Ipam_Tc.thy ===== *)
theory Ipam_Tc
  imports Ipam_Config Ippool
begin

text \<open>
  The traffic control driver of the address manager (\<open>src/ipam/tc_linux.go\<close>, \<open>src/ipam/tc.go\<close>,
  \<open>src/ipam/tc_noop.go\<close>).  The package \<open>github.com/vishvananda/netlink\<close> is a parameter: the record
  \<open>netlink_api\<close> of its operations on a kernel state \<open>'k\<close>, for one link.
\<close>

section \<open>Requests\<close>

type_synonym Rate = uint64

definition Mbitps :: Rate where
  "Mbitps = 1000 * (1000 * 1)"

definition defaultClassID :: uint16 where
  "defaultClassID = 0x999"

record htb_qdisc =
  q_Handle :: uint32
  q_Parent :: uint32
  Defcls :: uint16

record htb_class =
  c_Handle :: uint32
  c_Parent :: uint32
  c_Rate :: uint64

record u32_key =
  Mask :: uint32
  Val :: uint32
  Off :: int

record u32_filter =
  f_Handle :: uint32
  f_Parent :: uint32
  f_Priority :: uint16
  ClassId :: uint32
  Keys :: "u32_key list"

datatype tc_filter = U32 u32_filter | OtherFilter

record 'k netlink_api =
  MakeHandle :: "uint16 \<Rightarrow> uint16 \<Rightarrow> uint32"
  HANDLE_ROOT :: uint32
  QdiscAdd :: "htb_qdisc \<Rightarrow> 'k \<Rightarrow> go_error option \<times> 'k"
  QdiscDel :: "htb_qdisc \<Rightarrow> 'k \<Rightarrow> go_error option \<times> 'k"
  ClassAdd :: "htb_class \<Rightarrow> 'k \<Rightarrow> go_error option \<times> 'k"
  ClassDel :: "htb_class \<Rightarrow> 'k \<Rightarrow> go_error option \<times> 'k"
  FilterAdd :: "u32_filter \<Rightarrow> 'k \<Rightarrow> go_error option \<times> 'k"
  FilterDel :: "u32_filter \<Rightarrow> 'k \<Rightarrow> go_error option \<times> 'k"
  FilterList :: "uint32 \<Rightarrow> 'k \<Rightarrow> (go_error + tc_filter list) \<times> 'k"

record 'k tcWrapper =
  kernel :: 'k
  parentRate :: Rate
  defaultRate :: Rate
  ipToFilterHandler :: "uint32 \<rightharpoonup> uint32"

section \<open>Operations\<close>

definition newTrafficControl :: "'k \<Rightarrow> Rate \<Rightarrow> 'k tcWrapper" where
  "newTrafficControl k rate =
     \<lparr>kernel = k, parentRate = rate, defaultRate = 1 * Mbitps, ipToFilterHandler = Map.empty\<rparr>"

definition root_qdisc :: "'k netlink_api \<Rightarrow> uint16 \<Rightarrow> htb_qdisc" where
  "root_qdisc api defcls =
     \<lparr>q_Handle = MakeHandle api 1 0, q_Parent = HANDLE_ROOT api, Defcls = defcls\<rparr>"

definition tc_cleanup ::
  "'k netlink_api \<Rightarrow> 'k tcWrapper \<Rightarrow> (go_error, unit) outcome \<times> 'k tcWrapper" where
  "tc_cleanup api tc =
     (case QdiscDel api (root_qdisc api 0) (kernel tc) of
        (Some err, k) \<Rightarrow> (Err err, tc\<lparr>kernel := k\<rparr>)
      | (None, k) \<Rightarrow> (Ok (), tc\<lparr>kernel := k\<rparr>))"

definition tc_init ::
  "'k netlink_api \<Rightarrow> 'k tcWrapper \<Rightarrow> (go_error, unit) outcome \<times> 'k tcWrapper" where
  "tc_init api tc =
     (case QdiscAdd api (root_qdisc api defaultClassID) (kernel tc) of
        (Some err, k) \<Rightarrow> (Err (Errorf (''failed to add root handle: '' @ Error err)), tc\<lparr>kernel := k\<rparr>)
      | (None, k) \<Rightarrow>
          (case ClassAdd api \<lparr>c_Handle = MakeHandle api 1 defaultClassID, c_Parent = HANDLE_ROOT api,
                  c_Rate = defaultRate tc\<rparr> k of
             (Some err, k) \<Rightarrow>
               (Err (Errorf (''failed to add default class: '' @ Error err)), tc\<lparr>kernel := k\<rparr>)
           | (None, k) \<Rightarrow>
               (case ClassAdd api \<lparr>c_Handle = MakeHandle api 1 1, c_Parent = HANDLE_ROOT api,
                       c_Rate = parentRate tc\<rparr> k of
                  (Some err, k) \<Rightarrow>
                    (Err (Errorf (''failed to add parent class: '' @ Error err)), tc\<lparr>kernel := k\<rparr>)
                | (None, k) \<Rightarrow> (Ok (), tc\<lparr>kernel := k\<rparr>))))"

definition handleForIP :: "'k netlink_api \<Rightarrow> uint32 \<Rightarrow> uint32" where
  "handleForIP api ip = MakeHandle api 1 (ucast (0xFFF AND ip))"

definition isSameFilter :: "u32_filter \<Rightarrow> u32_filter \<Rightarrow> bool" where
  "isSameFilter a b =
     (if f_Parent a \<noteq> f_Parent b then False
      else if length (Keys a) = length (Keys b) \<and> length (Keys a) > 0
      then Val (Keys a ! 0) = Val (Keys b ! 0)
      else False)"

fun find_filter :: "u32_filter \<Rightarrow> tc_filter list \<Rightarrow> u32_filter option" where
  "find_filter f [] = None"
| "find_filter f (OtherFilter # fs) = find_filter f fs"
| "find_filter f (U32 u # fs) = (if isSameFilter u f then Some u else find_filter f fs)"

definition peer_filter :: "'k netlink_api \<Rightarrow> uint32 \<Rightarrow> u32_filter" where
  "peer_filter api uaddr =
     \<lparr>f_Handle = 0, f_Parent = MakeHandle api 1 0, f_Priority = 1, ClassId = handleForIP api uaddr,
      Keys = [\<lparr>Mask = 0xFFFFFFFF, Val = uaddr, Off = 16\<rparr>]\<rparr>"

definition addr_String :: "IP \<Rightarrow> string" where
  "addr_String addr =
     (case To4 (IP_bytes addr) of None \<Rightarrow> ''<nil>''
      | Some b4 \<Rightarrow> join_char CHR ''.'' (map (\<lambda>b. itoa (unat b)) b4))"

definition setLimit :: "'k netlink_api \<Rightarrow> IP \<Rightarrow> Rate \<Rightarrow> 'k tcWrapper
    \<Rightarrow> (go_error, unit) outcome \<times> 'k tcWrapper" where
  "setLimit api addr rate tc =
     (if rate = 0 then (Ok (), tc)
      else
        (case ToUint32 addr of
           None \<Rightarrow> (Crash ''index out of range'', tc)
         | Some uaddr \<Rightarrow>
             if ipToFilterHandler tc uaddr \<noteq> None
             then (Err (Errorf ''the limit has already been set''), tc)
             else
               (case ClassAdd api \<lparr>c_Handle = handleForIP api uaddr, c_Parent = MakeHandle api 1 1,
                       c_Rate = rate\<rparr> (kernel tc) of
                  (Some err, k) \<Rightarrow>
                    (Err (Errorf (''tc: failed to add class for '' @ addr_String addr @ '': '' @ Error err)), tc\<lparr>kernel := k\<rparr>)
                | (None, k) \<Rightarrow>
                    (case FilterAdd api (peer_filter api uaddr) k of
                       (Some err, k) \<Rightarrow>
                         (Err (Errorf (''failed to add filter for '' @ addr_String addr @ '': '' @ Error err)), tc\<lparr>kernel := k\<rparr>)
                     | (None, k) \<Rightarrow>
                         (case FilterList api (MakeHandle api 1 0) k of
                            (Inl err, k) \<Rightarrow>
                              (Err (Errorf (''failed to list filters: '' @ Error err)), tc\<lparr>kernel := k\<rparr>)
                          | (Inr filters, k) \<Rightarrow>
                              (case find_filter (peer_filter api uaddr) filters of
                                 Some u \<Rightarrow>
                                   (Ok (), tc\<lparr>kernel := k,
                                      ipToFilterHandler := (ipToFilterHandler tc)(uaddr \<mapsto> f_Handle u)\<rparr>)
                               | None \<Rightarrow>
                                   (Err (Errorf (''unable to load back the filter for '' @ addr_String addr)),
                                    tc\<lparr>kernel := k\<rparr>)))))))"

definition removeLimit :: "'k netlink_api \<Rightarrow> IP \<Rightarrow> 'k tcWrapper
    \<Rightarrow> (go_error, unit) outcome \<times> 'k tcWrapper" where
  "removeLimit api addr tc =
     (case ToUint32 addr of
        None \<Rightarrow> (Crash ''index out of range'', tc)
      | Some uaddr \<Rightarrow>
          (case ipToFilterHandler tc uaddr of
             None \<Rightarrow> (Err (Errorf ''no limit has been set for such an address''), tc)
           | Some handleID \<Rightarrow>
               (case FilterDel api \<lparr>f_Handle = handleID, f_Parent = MakeHandle api 1 0, f_Priority = 1,
                       ClassId = 0, Keys = []\<rparr> (kernel tc) of
                  (Some err, k) \<Rightarrow>
                    (Err (Errorf (''tc: failed to delete filter for '' @ addr_String addr @ '': '' @ Error err)), tc\<lparr>kernel := k\<rparr>)
                | (None, k) \<Rightarrow>
                    (case ClassDel api \<lparr>c_Handle = handleForIP api uaddr,
                            c_Parent = MakeHandle api 1 1, c_Rate = 0\<rparr> k of
                       (Some err, k) \<Rightarrow>
                         (Err (Errorf (''tc: failed to delete class for '' @ addr_String addr @ '': '' @ Error err)), tc\<lparr>kernel := k\<rparr>)
                     | (None, k) \<Rightarrow>
                         (Ok (), tc\<lparr>kernel := k,
                            ipToFilterHandler := (ipToFilterHandler tc)(uaddr := None)\<rparr>)))))"

text \<open>The driver used without a rate limiter does nothing.\<close>

definition nop_init :: "'t \<Rightarrow> (go_error, unit) outcome \<times> 't" where
  "nop_init tc = (Ok (), tc)"

definition nop_setLimit :: "IP \<Rightarrow> Rate \<Rightarrow> 't \<Rightarrow> (go_error, unit) outcome \<times> 't" where
  "nop_setLimit addr rate tc = (Ok (), tc)"

definition nop_removeLimit :: "IP \<Rightarrow> 't \<Rightarrow> (go_error, unit) outcome \<times> 't" where
  "nop_removeLimit addr tc = (Ok (), tc)"

definition nop_cleanup :: "'t \<Rightarrow> (go_error, unit) outcome \<times> 't" where
  "nop_cleanup tc = (Ok (), tc)"

section \<open>Class handles\<close>

lemma low12: "0xFFF AND x = take_bit 12 (x :: uint32)"
  by (simp add: take_bit_eq_mask mask_numeral and.commute)

lemma ucast_low12_inj:
  "(ucast (take_bit 12 a) :: uint16) = ucast (take_bit 12 b) \<longleftrightarrow> take_bit 12 a = take_bit 12 (b :: uint32)"
proof
  assume eq: "(ucast (take_bit 12 a) :: uint16) = ucast (take_bit 12 b)"
  show "take_bit 12 a = take_bit 12 b"
  proof (rule bit_word_eqI)
    fix i :: nat
    have "bit (ucast (take_bit 12 a) :: uint16) i = bit (ucast (take_bit 12 b) :: uint16) i"
      using eq by simp
    then show "bit (take_bit 12 a) i = bit (take_bit 12 b) i" by (auto simp: bit_simps)
  qed
qed simp

abbreviation handles_distinct :: "'k netlink_api \<Rightarrow> bool" where
  "handles_distinct api \<equiv> (\<forall>m m'. MakeHandle api 1 m = MakeHandle api 1 m' \<longrightarrow> m = m')"

lemma handleForIP_eq_iff:
  assumes "handles_distinct api"
  shows "handleForIP api a = handleForIP api b \<longleftrightarrow> take_bit 12 a = take_bit 12 b"
  using assms unfolding handleForIP_def low12 by (metis ucast_low12_inj)

lemma low_high_bits_eq:
  fixes a b :: uint32
  assumes "take_bit 12 a = take_bit 12 b" and "drop_bit k a = drop_bit k b" and "k \<le> 12"
  shows "a = b"
proof (rule bit_word_eqI)
  fix i :: nat assume "i < LENGTH(32)"
  have t: "bit (take_bit 12 a) i = bit (take_bit 12 b) i" using assms(1) by simp
  have d: "bit (drop_bit k a) (i - k) = bit (drop_bit k b) (i - k)" using assms(2) by simp
  show "bit a i = bit b i"
    using t d assms(3) by (cases "i < 12") (auto simp: bit_simps)
qed

text \<open>C9: in a network with prefix length at least 20 (such as the default /24) different peers get
  different class handles; but the handle of a peer is the one of the class for unclassified traffic
  exactly when the last 12 bits of its address are 0x999, and the one of the parent class exactly when
  they are 1.\<close>

theorem class_handles:
  assumes "handles_distinct api" and "20 \<le> p" and "in_net n p a" and "in_net n p b"
  shows "(handleForIP api a = handleForIP api b \<longleftrightarrow> a = b)
    \<and> (handleForIP api a = MakeHandle api 1 defaultClassID \<longleftrightarrow> a AND 0xFFF = 0x999)
    \<and> (handleForIP api a = MakeHandle api 1 1 \<longleftrightarrow> a AND 0xFFF = 1)"
proof (intro conjI)
  have "drop_bit (32 - p) a = drop_bit (32 - p) b"
    using assms(3,4) by (auto simp: in_net_def and_prefix_eq_iff split: option.splits)
  then show "handleForIP api a = handleForIP api b \<longleftrightarrow> a = b"
    using handleForIP_eq_iff [OF assms(1)] low_high_bits_eq assms(2) by auto
  have c: "handleForIP api a = MakeHandle api 1 (ucast (0xFFF AND (x :: uint32))) \<longleftrightarrow> a AND 0xFFF = x AND 0xFFF" for x
    using handleForIP_eq_iff [OF assms(1), of a x] unfolding low12 [symmetric]
    by (simp add: handleForIP_def and.commute)
  show "handleForIP api a = MakeHandle api 1 defaultClassID \<longleftrightarrow> a AND 0xFFF = 0x999"
    using c [of "0x999"] by (simp add: defaultClassID_def)
  show "handleForIP api a = MakeHandle api 1 1 \<longleftrightarrow> a AND 0xFFF = 1"
    using c [of 1] by simp
qed

section \<open>Failed limits\<close>

text \<open>What the kernel documents of classes: adding a class with a handle in use fails, a class that
  was added is there, and filters do not touch classes.\<close>

definition class_laws :: "'k netlink_api \<Rightarrow> ('k \<Rightarrow> uint32 set) \<Rightarrow> bool" where
  "class_laws api classes \<longleftrightarrow>
     (\<forall>c k. c_Handle c \<in> classes k \<longrightarrow> (\<exists>err k'. ClassAdd api c k = (Some err, k') \<and> classes k' = classes k))
     \<and> (\<forall>c k k'. ClassAdd api c k = (None, k') \<longrightarrow> classes k' = insert (c_Handle c) (classes k))
     \<and> (\<forall>f k. classes (snd (FilterAdd api f k)) = classes k)
     \<and> (\<forall>h k. classes (snd (FilterList api h k)) = classes k)"

lemma setLimit_keeps_map:
  assumes "setLimit api addr rate tc = (Err e, tc')"
  shows "ipToFilterHandler tc' = ipToFilterHandler tc"
  using assms
  by (auto simp: setLimit_def split: if_splits option.splits prod.splits sum.splits)

lemma setLimit_class_taken:
  assumes "class_laws api classes" and "rate \<noteq> 0" and "ToUint32 addr = Some u"
    and "ipToFilterHandler tc u = None" and "handleForIP api u \<in> classes (kernel tc)"
  shows "\<exists>e tc'. setLimit api addr rate tc = (Err e, tc') \<and> ipToFilterHandler tc' u = None
    \<and> handleForIP api u \<in> classes (kernel tc')"
proof -
  let ?c = "\<lparr>c_Handle = handleForIP api u, c_Parent = MakeHandle api 1 1, c_Rate = rate\<rparr>"
  have "c_Handle ?c \<in> classes (kernel tc)" using assms(5) by simp
  then obtain err k where "ClassAdd api ?c (kernel tc) = (Some err, k)" "classes k = classes (kernel tc)"
    using assms(1) unfolding class_laws_def by blast
  then show ?thesis using assms by (simp add: setLimit_def)
qed


abbreviation stuck :: "'k netlink_api \<Rightarrow> ('k \<Rightarrow> uint32 set) \<Rightarrow> uint32 \<Rightarrow> 'k tcWrapper \<Rightarrow> bool" where
  "stuck api classes u tc \<equiv>
     ipToFilterHandler tc u = None \<and> handleForIP api u \<in> classes (kernel tc)"

lemma stuck_retries:
  assumes "class_laws api classes" and "ToUint32 addr = Some u" and "stuck api classes u tc"
    and "0 \<notin> set rates"
  shows "stuck api classes u (fold (\<lambda>rate tc. snd (setLimit api addr rate tc)) rates tc)"
  using assms(3,4)
proof (induction rates arbitrary: tc)
  case (Cons r rates)
  then obtain e tc' where "setLimit api addr r tc = (Err e, tc')" "stuck api classes u tc'"
    using setLimit_class_taken [OF assms(1) _ assms(2), of r tc] by auto
  then show ?case using Cons by simp
qed simp

text \<open>C10: when \<open>setLimit\<close> fails after it has added the class of an address (the filter cannot be added
  or found), the class stays behind and is not recorded: however often the limit is set again, every
  further \<open>setLimit\<close> for the address fails, and so does \<open>removeLimit\<close>.\<close>

theorem failed_limit_sticks:
  assumes "class_laws api classes" and "ToUint32 addr = Some u"
    and "setLimit api addr rate tc = (Err e, tc1)" and "ipToFilterHandler tc u = None"
    and "handleForIP api u \<in> classes (kernel tc1)" and "0 \<notin> set rates" and "rate' \<noteq> 0"
    and "tc2 = fold (\<lambda>rate tc. snd (setLimit api addr rate tc)) rates tc1"
  shows "(\<exists>e' tc3. setLimit api addr rate' tc2 = (Err e', tc3)) \<and> (\<exists>e'. removeLimit api addr tc2 = (Err e', tc2))"
proof -
  have "stuck api classes u tc1" using setLimit_keeps_map [OF assms(3)] assms(4,5) by simp
  then have s: "stuck api classes u tc2" unfolding assms(8) by (rule stuck_retries [OF assms(1,2) _ assms(6)])
  then show ?thesis
    using setLimit_class_taken [OF assms(1,7,2), of tc2] assms(2) by (auto simp: removeLimit_def)
qed

text \<open>A kernel that keeps the handles of classes and refuses every filter.\<close>

definition no_filter_api :: "(uint32 set) netlink_api" where
  "no_filter_api =
     \<lparr>MakeHandle = (\<lambda>major minor. push_bit 16 (ucast major) OR ucast minor), HANDLE_ROOT = 0xFFFFFFFF,
      QdiscAdd = (\<lambda>q k. (None, k)), QdiscDel = (\<lambda>q k. (None, k)),
      ClassAdd = (\<lambda>c k. if c_Handle c \<in> k then (Some (Errorf ''file exists''), k)
                        else (None, insert (c_Handle c) k)),
      ClassDel = (\<lambda>c k. (None, k - {c_Handle c})),
      FilterAdd = (\<lambda>f k. (Some (Errorf ''no buffer space available''), k)),
      FilterDel = (\<lambda>f k. (None, k)), FilterList = (\<lambda>h k. (Inr [], k))\<rparr>"

lemma no_filter_laws: "class_laws no_filter_api id"
  by (auto simp: class_laws_def no_filter_api_def split: if_splits)

theorem failed_limit_sticks_witness:
  "\<exists>e tc1. setLimit no_filter_api (Uint32ToIP 7) 5 (newTrafficControl {} 100) = (Err e, tc1)
     \<and> (\<exists>e' tc3. setLimit no_filter_api (Uint32ToIP 7) 8
                    (snd (setLimit no_filter_api (Uint32ToIP 7) 6 tc1)) = (Err e', tc3))"
proof -
  let ?h = "handleForIP no_filter_api 7" and ?tc = "newTrafficControl {} 100"
  obtain e tc1 where s: "setLimit no_filter_api (Uint32ToIP 7) 5 ?tc = (Err e, tc1)"
    and k: "handleForIP no_filter_api 7 \<in> id (kernel tc1)"
    by (auto simp: setLimit_def newTrafficControl_def no_filter_api_def)
  have "ipToFilterHandler ?tc 7 = None" by (simp add: newTrafficControl_def)
  from failed_limit_sticks [OF no_filter_laws _ s this k, of "[6]" 8] s show ?thesis by auto
qed

lemma handle_minor:
  assumes "MakeHandle no_filter_api x m = MakeHandle no_filter_api x m'"
  shows "m = m'"
proof (rule bit_word_eqI)
  fix i assume i: "i < LENGTH(16)"
  have "bit (push_bit 16 (ucast x) OR ucast m :: uint32) i = bit (push_bit 16 (ucast x) OR ucast m' :: uint32) i"
    using assms by (simp add: no_filter_api_def)
  then show "bit m i = bit m' i" using i by (auto simp: bit_simps)
qed

theorem class_handles_witness:
  "handleForIP no_filter_api 0x0A080999 = MakeHandle no_filter_api 1 defaultClassID"
proof -
  have inj: "handles_distinct no_filter_api" using handle_minor by blast
  let ?n = "\<lparr>net_IP = [10, 8, 9, 0], net_Mask = [255, 255, 255, 0]\<rparr>"
  have net: "in_net ?n 24 0x0A080999"
    by (simp add: in_net_def ToUint32_def To4_def bytes_to_uint32_def prefix_mask_def mask_numeral)
  show ?thesis using class_handles [OF inj _ net net] by simp
qed

end
