(* ===== verification/Ipam.thy ===== *)
theory Ipam
  imports Ipam_Nft Ipam_Tc
begin

text \<open>
  The IP address manager (\<open>src/ipam/ipam.go\<close>): it takes addresses from the pool of
  \<open>Ippool\<close> and applies a peer's policy through a netfilter driver and a traffic control driver.  A Go
  interface value is a pair of its methods and the state behind them; \<open>netFilter\<close>
  (\<open>src/ipam/netfilter.go\<close>) and \<open>trafficControl\<close> (\<open>src/ipam/tc.go\<close>) are the records of methods, and
  \<open>netfilter_methods\<close>, \<open>tc_methods\<close> and \<open>nop_methods\<close> are the implementations the package has.
\<close>

section \<open>Interfaces and state\<close>

record 'n netFilter =
  nf_init :: "'n \<Rightarrow> (go_error, unit) outcome \<times> 'n"
  nf_newIsolatePeerRule :: "IP \<Rightarrow> 'n \<Rightarrow> (go_error, unit) outcome \<times> 'n"
  nf_newIsolateAllRule :: "IPNet \<Rightarrow> 'n \<Rightarrow> (go_error, unit) outcome \<times> 'n"
  nf_findAndRemoveRule :: "byte list \<Rightarrow> 'n \<Rightarrow> (go_error, unit) outcome \<times> 'n"
  nf_fillPortRestrictionRules :: "PortRestrictionConfig \<Rightarrow> 'n \<Rightarrow> (go_error, unit) outcome \<times> 'n"

record 't trafficControl =
  tr_init :: "'t \<Rightarrow> (go_error, unit) outcome \<times> 't"
  tr_setLimit :: "IP \<Rightarrow> Rate \<Rightarrow> 't \<Rightarrow> (go_error, unit) outcome \<times> 't"
  tr_removeLimit :: "IP \<Rightarrow> 't \<Rightarrow> (go_error, unit) outcome \<times> 't"
  tr_cleanup :: "'t \<Rightarrow> (go_error, unit) outcome \<times> 't"

definition netfilter_methods ::
  "'k nft_api \<Rightarrow> (PortRange list \<Rightarrow> PortRange list) \<Rightarrow> 'k netfilterWrapper netFilter" where
  "netfilter_methods api srt =
     \<lparr>nf_init = nft_init api, nf_newIsolatePeerRule = newIsolatePeerRule api,
      nf_newIsolateAllRule = newIsolateAllRule api, nf_findAndRemoveRule = findAndRemoveRule api,
      nf_fillPortRestrictionRules = fillPortRestrictionRules api srt\<rparr>"

definition tc_methods :: "'k netlink_api \<Rightarrow> 'k tcWrapper trafficControl" where
  "tc_methods api =
     \<lparr>tr_init = tc_init api, tr_setLimit = setLimit api, tr_removeLimit = removeLimit api,
      tr_cleanup = tc_cleanup api\<rparr>"

definition nop_methods :: "'t trafficControl" where
  "nop_methods =
     \<lparr>tr_init = nop_init, tr_setLimit = nop_setLimit, tr_removeLimit = nop_removeLimit,
      tr_cleanup = nop_cleanup\<rparr>"

record Policy =
  Access :: int
  RateLimit :: Rate

record ipam_config =
  Subnet :: "IPNet option"
  Interface :: string
  DefaultPolicy :: accessPolicy
  RateLimiter :: "RateLimiterConfig option"
  PortRestrictions :: "PortRestrictionConfig option"

text \<open>The pointers to the pool and the drivers are nil after a shutdown.\<close>

record ('n, 't) IPAM =
  defaultPol :: int
  nf :: "('n netFilter \<times> 'n) option"
  tc :: "('t trafficControl \<times> 't) option"
  ipp :: "IPv4pool option"

section \<open>Operations\<close>

text \<open>\<open>New\<close> gets the constructors of the drivers as arguments.\<close>

definition New ::
  "(string \<Rightarrow> Rate \<Rightarrow> go_error + ('t trafficControl \<times> 't)) \<Rightarrow> 't trafficControl \<times> 't
    \<Rightarrow> (IPNet \<Rightarrow> 'n netFilter \<times> 'n) \<Rightarrow> ipam_config \<Rightarrow> (go_error, ('n, 't) IPAM) outcome" where
  "New mkTC nopTC mkNF cfg =
     (if policy_Int (DefaultPolicy cfg) = AccessPolicyDefault
      then Err (Errorf ''no default access policy given'')
      else case Subnet cfg of None \<Rightarrow> Err (Errorf ''no peers subnet given'')
      | Some subnet \<Rightarrow>
        if length (Interface cfg) = 0 then Err (Errorf ''no network interfce name given'')
        else if (case RateLimiter cfg of None \<Rightarrow> False | Some rl \<Rightarrow> TotalBandwidth rl = 0)
        then Err (Errorf ''no total_bandwidth value given'')
        else
          (case NewIPv4FromSubnet subnet of
             Err e \<Rightarrow> Err e
           | Crash m \<Rightarrow> Crash m
           | Ok ipPool \<Rightarrow>
               (case (case RateLimiter cfg of
                        Some rl \<Rightarrow> mkTC (Interface cfg) (TotalBandwidth rl)
                      | None \<Rightarrow> Inr nopTC) of
                  Inl e \<Rightarrow> Err e
                | Inr (T, t) \<Rightarrow>
                    (let (F, n) = mkNF subnet in
                     case nf_init F n of
                       (Err e, n) \<Rightarrow> Err e
                     | (Crash m, n) \<Rightarrow> Crash m
                     | (Ok _, n) \<Rightarrow>
                         (case tr_init T t of
                            (Err e, t) \<Rightarrow> Err e
                          | (Crash m, t) \<Rightarrow> Crash m
                          | (Ok _, t) \<Rightarrow>
                              (case (if policy_Int (DefaultPolicy cfg) = AccessPolicyInternetOnly
                                     then nf_newIsolateAllRule F subnet n else (Ok (), n)) of
                                 (Err e, n) \<Rightarrow> Err e
                               | (Crash m, n) \<Rightarrow> Crash m
                               | (Ok _, n) \<Rightarrow>
                                   (case (case PortRestrictions cfg of
                                            Some ports \<Rightarrow> nf_fillPortRestrictionRules F ports n
                                          | None \<Rightarrow> (Ok (), n)) of
                                      (Crash m, n) \<Rightarrow> Crash m
                                    | (_, n) \<Rightarrow>
                                        Ok \<lparr>defaultPol = policy_Int (DefaultPolicy cfg),
                                            nf = Some (F, n), tc = Some (T, t),
                                            ipp = Some ipPool\<rparr>)))))))"

text \<open>Giving the address back: the error of \<open>Unset\<close> is ignored.\<close>

definition giveBack :: "IP \<Rightarrow> go_error \<Rightarrow> IPv4pool \<Rightarrow> ('n, 't) IPAM
    \<Rightarrow> (go_error, unit) outcome \<times> ('n, 't) IPAM" where
  "giveBack addr err pool m =
     (case Unset pool addr of
        (Crash msg, pool) \<Rightarrow> (Crash msg, m\<lparr>ipp := Some pool\<rparr>)
      | (_, pool) \<Rightarrow> (Err err, m\<lparr>ipp := Some pool\<rparr>))"

definition applyPolicy :: "IP \<Rightarrow> Policy \<Rightarrow> ('n, 't) IPAM
    \<Rightarrow> (go_error, unit) outcome \<times> ('n, 't) IPAM" where
  "applyPolicy addr pol m =
     (case (nf m, tc m, ipp m) of
        (Some (F, n), Some (T, t), Some pool) \<Rightarrow>
          (case (if Access pol = AccessPolicyInternetOnly \<and> defaultPol m = AccessPolicyAllowAll
                 then nf_newIsolatePeerRule F addr n else (Ok (), n)) of
             (Err e, n) \<Rightarrow> giveBack addr e pool (m\<lparr>nf := Some (F, n)\<rparr>)
           | (Crash msg, n) \<Rightarrow> (Crash msg, m\<lparr>nf := Some (F, n)\<rparr>)
           | (Ok _, n) \<Rightarrow>
               (case tr_setLimit T addr (RateLimit pol) t of
                  (Err e, t) \<Rightarrow> giveBack addr e pool (m\<lparr>nf := Some (F, n), tc := Some (T, t)\<rparr>)
                | (Crash msg, t) \<Rightarrow> (Crash msg, m\<lparr>nf := Some (F, n), tc := Some (T, t)\<rparr>)
                | (Ok _, t) \<Rightarrow> (Ok (), m\<lparr>nf := Some (F, n), tc := Some (T, t)\<rparr>)))
      | _ \<Rightarrow> (Crash ''nil pointer dereference'', m))"

definition allocate :: "Policy \<Rightarrow> uint32 \<Rightarrow> ('n, 't) IPAM
    \<Rightarrow> ((go_error, IP) outcome \<times> ('n, 't) IPAM) option" where
  "allocate pol rnd m =
     (let pol = (if Access pol = AccessPolicyDefault then pol\<lparr>Access := defaultPol m\<rparr> else pol);
          pol = (if defaultPol m = AccessPolicyInternetOnly \<and> Access pol = AccessPolicyAllowAll
                 then pol\<lparr>Access := AccessPolicyInternetOnly\<rparr> else pol) in
      case ipp m of
        None \<Rightarrow> Some (Crash ''nil pointer dereference'', m)
      | Some pool \<Rightarrow>
          (case Ippool.Alloc pool rnd of
             None \<Rightarrow> None
           | Some (Err e, pool) \<Rightarrow> Some (Err e, m\<lparr>ipp := Some pool\<rparr>)
           | Some (Crash msg, pool) \<Rightarrow> Some (Crash msg, m\<lparr>ipp := Some pool\<rparr>)
           | Some (Ok addr, pool) \<Rightarrow>
               (case applyPolicy addr pol (m\<lparr>ipp := Some pool\<rparr>) of
                  (Err e, m) \<Rightarrow> Some (Err e, m)
                | (Crash msg, m) \<Rightarrow> Some (Crash msg, m)
                | (Ok _, m) \<Rightarrow> Some (Ok addr, m))))"

definition ipam_Alloc :: "Policy \<Rightarrow> uint32 \<Rightarrow> ('n, 't) IPAM
    \<Rightarrow> ((go_error, IP) outcome \<times> ('n, 't) IPAM) option" where
  "ipam_Alloc pol rnd m = allocate pol rnd m"

definition ipam_Set :: "IP \<Rightarrow> Policy \<Rightarrow> ('n, 't) IPAM
    \<Rightarrow> (go_error, unit) outcome \<times> ('n, 't) IPAM" where
  "ipam_Set addr pol m =
     (let pol = (if Access pol = AccessPolicyDefault then pol\<lparr>Access := defaultPol m\<rparr> else pol) in
      case ipp m of
        None \<Rightarrow> (Crash ''nil pointer dereference'', m)
      | Some pool \<Rightarrow>
          (case Ippool.Set pool addr of
             (Err e, pool) \<Rightarrow> (Err e, m\<lparr>ipp := Some pool\<rparr>)
           | (Crash msg, pool) \<Rightarrow> (Crash msg, m\<lparr>ipp := Some pool\<rparr>)
           | (Ok _, pool) \<Rightarrow> applyPolicy addr pol (m\<lparr>ipp := Some pool\<rparr>)))"

text \<open>The errors of the drivers are ignored; a nil address passed on as a rule identifier is empty.\<close>

definition ipam_free :: "IP \<Rightarrow> ('n, 't) IPAM \<Rightarrow> (go_error, unit) outcome \<times> ('n, 't) IPAM" where
  "ipam_free addr m =
     (case (nf m, tc m, ipp m) of
        (Some (F, n), Some (T, t), Some pool) \<Rightarrow>
          (case Unset pool addr of
             (Err e, pool) \<Rightarrow> (Err e, m\<lparr>ipp := Some pool\<rparr>)
           | (Crash msg, pool) \<Rightarrow> (Crash msg, m\<lparr>ipp := Some pool\<rparr>)
           | (Ok _, pool) \<Rightarrow>
               (case tr_removeLimit T addr t of
                  (Crash msg, t) \<Rightarrow> (Crash msg, m\<lparr>tc := Some (T, t), ipp := Some pool\<rparr>)
                | (_, t) \<Rightarrow>
                    (case nf_findAndRemoveRule F
                            (case To4 (IP_bytes addr) of None \<Rightarrow> [] | Some b4 \<Rightarrow> b4) n of
                       (Crash msg, n) \<Rightarrow>
                         (Crash msg, m\<lparr>nf := Some (F, n), tc := Some (T, t), ipp := Some pool\<rparr>)
                     | (_, n) \<Rightarrow> (Ok (), m\<lparr>nf := Some (F, n), tc := Some (T, t), ipp := Some pool\<rparr>))))
      | _ \<Rightarrow> (Crash ''nil pointer dereference'', m))"

definition ipam_Unset :: "IP \<Rightarrow> ('n, 't) IPAM \<Rightarrow> (go_error, unit) outcome \<times> ('n, 't) IPAM" where
  "ipam_Unset addr m = ipam_free addr m"

definition ipam_IsAvailable :: "IP \<Rightarrow> ('n, 't) IPAM \<Rightarrow> (go_error, bool) outcome" where
  "ipam_IsAvailable addr m =
     (case ipp m of None \<Rightarrow> Crash ''nil pointer dereference'' | Some pool \<Rightarrow> Ippool.IsAvailable pool addr)"

definition ipam_Available :: "uint32 \<Rightarrow> ('n, 't) IPAM \<Rightarrow> (go_error, IP) outcome option" where
  "ipam_Available rnd m =
     (case ipp m of None \<Rightarrow> Some (Crash ''nil pointer dereference'') | Some pool \<Rightarrow> Ippool.Available pool rnd)"

definition ipam_Running :: "('n, 't) IPAM \<Rightarrow> bool" where
  "ipam_Running m \<longleftrightarrow> ipp m \<noteq> None"

text \<open>A second shutdown dereferences the nil pool.  The states the drivers are left in, which the
  manager no longer points to, are returned beside the manager.\<close>

definition ipam_Shutdown :: "('n, 't) IPAM
    \<Rightarrow> (go_error, unit) outcome \<times> ('n, 't) IPAM \<times> ('n \<times> 't) option" where
  "ipam_Shutdown m =
     (case (nf m, tc m, ipp m) of
        (Some (F, n), Some (T, t), Some pool) \<Rightarrow>
          (case Ippool.Shutdown pool of
             (Crash msg, pool) \<Rightarrow> (Crash msg, m\<lparr>ipp := Some pool\<rparr>, Some (n, t))
           | (_, pool) \<Rightarrow>
               (case nf_init F n of
                  (Crash msg, n) \<Rightarrow> (Crash msg, m\<lparr>ipp := None\<rparr>, Some (n, t))
                | (_, n) \<Rightarrow>
                    (case tr_cleanup T t of
                       (Crash msg, t) \<Rightarrow> (Crash msg, m\<lparr>ipp := None, nf := None\<rparr>, Some (n, t))
                     | (_, t) \<Rightarrow>
                         (Ok (), m\<lparr>ipp := None, nf := None, tc := None, defaultPol := - 1\<rparr>,
                          Some (n, t)))))
      | _ \<Rightarrow> (Crash ''nil pointer dereference'', m, None))"

section \<open>The invariant\<close>

definition drivers_ok :: "('n, 't) IPAM \<Rightarrow> bool" where
  "drivers_ok m \<longleftrightarrow>
     (\<exists>F n T t. nf m = Some (F, n) \<and> tc m = Some (T, t)
        \<and> (\<forall>ip n. Isv4 ip \<longrightarrow> \<not> is_crash (fst (nf_newIsolatePeerRule F ip n)))
        \<and> (\<forall>ident n. \<not> is_crash (fst (nf_findAndRemoveRule F ident n)))
        \<and> (\<forall>ip r t. Isv4 ip \<longrightarrow> \<not> is_crash (fst (tr_setLimit T ip r t)))
        \<and> (\<forall>ip t. Isv4 ip \<longrightarrow> \<not> is_crash (fst (tr_removeLimit T ip t))))"

text \<open>The package's own drivers never panic on IPv4 addresses.\<close>

lemma flush_or_no_crash: "\<not> is_crash (fst (flush_or api msg nft))"
  by (auto simp: flush_or_def split: prod.splits option.splits)

lemma remove_in_chains_no_crash: "\<not> is_crash (fst (remove_in_chains api ident cns nft))"
  by (induction cns arbitrary: nft)
    (auto simp: delete_rule_def Let_def flush_or_no_crash split: prod.splits sum.splits option.splits)

lemma real_drivers_ok:
  assumes "nf m = Some (netfilter_methods api srt, n)" and "tc m = Some (tc_methods api', t)"
  shows "drivers_ok m"
  unfolding drivers_ok_def
proof (intro exI conjI allI impI)
  show "nf m = Some (netfilter_methods api srt, n)" "tc m = Some (tc_methods api', t)" by fact+
  fix ip n assume "Isv4 ip"
  then show "\<not> is_crash (fst (nf_newIsolatePeerRule (netfilter_methods api srt) ip n))"
    by (auto simp: netfilter_methods_def newIsolatePeerRule_def Isv4_def flush_or_no_crash)
next
  fix ident n
  show "\<not> is_crash (fst (nf_findAndRemoveRule (netfilter_methods api srt) ident n))"
    by (auto simp: netfilter_methods_def findAndRemoveRule_def remove_in_chains_no_crash
        split: prod.splits sum.splits)
next
  fix ip r t assume "Isv4 ip"
  then show "\<not> is_crash (fst (tr_setLimit (tc_methods api') ip r t))"
    by (auto simp: tc_methods_def setLimit_def Isv4_ToUint32
        split: prod.splits sum.splits option.splits)
next
  fix ip t assume "Isv4 ip"
  then show "\<not> is_crash (fst (tr_removeLimit (tc_methods api') ip t))"
    by (auto simp: tc_methods_def removeLimit_def Isv4_ToUint32
        split: prod.splits sum.splits option.splits)
qed

definition ipam_inv :: "IPv4pool \<Rightarrow> ('n, 't) IPAM \<Rightarrow> bool" where
  "ipam_inv pool m \<longleftrightarrow> ipp m = Some pool \<and> pool_wf pool \<and> drivers_ok m"

text \<open>Applying a policy to an address just taken from \<open>pool\<close>: it succeeds and keeps the address, or
  it fails and the pool is as it was.\<close>

lemma giveBack_restores:
  "Unset pool' addr = (Ok (), pool) \<Longrightarrow> giveBack addr e pool' m = (Err e, m\<lparr>ipp := Some pool\<rparr>)"
  by (simp add: giveBack_def)

lemma drivers_ok_cong:
  assumes "drivers_ok m" and "nf m = Some (F, n)" and "tc m = Some (T, t)"
    and "nf m' = Some (F, n')" and "tc m' = Some (T, t')"
  shows "drivers_ok m'"
  using assms by (auto simp: drivers_ok_def)

lemma drivers_okE:
  assumes "drivers_ok m"
  obtains F n T t where "nf m = Some (F, n)" "tc m = Some (T, t)"
    "\<And>ip n. Isv4 ip \<Longrightarrow> \<not> is_crash (fst (nf_newIsolatePeerRule F ip n))"
    "\<And>ident n. \<not> is_crash (fst (nf_findAndRemoveRule F ident n))"
    "\<And>ip r t. Isv4 ip \<Longrightarrow> \<not> is_crash (fst (tr_setLimit T ip r t))"
    "\<And>ip t. Isv4 ip \<Longrightarrow> \<not> is_crash (fst (tr_removeLimit T ip t))"
  using assms unfolding drivers_ok_def by (elim exE conjE) (rule that, assumption+, simp_all)

lemma applyPolicy_cases:
  assumes dr: "drivers_ok m" and ipp: "ipp m = Some pool'" and un: "Unset pool' addr = (Ok (), pool)"
    and v4: "Isv4 addr"
  obtains (ok) m' where "applyPolicy addr pol m = (Ok (), m')" "ipp m' = Some pool'" "drivers_ok m'"
  | (err) e m' where "applyPolicy addr pol m = (Err e, m')" "ipp m' = Some pool" "drivers_ok m'"
proof -
  obtain F n T t where ft: "nf m = Some (F, n)" "tc m = Some (T, t)"
    and nc: "\<And>n. \<not> is_crash (fst (nf_newIsolatePeerRule F addr n))"
      "\<And>r t. \<not> is_crash (fst (tr_setLimit T addr r t))"
    by (rule drivers_okE [OF dr]) (simp add: v4)
  note dr' = drivers_ok_cong [OF dr ft]
  obtain r1 n1 where iso: "(if Access pol = AccessPolicyInternetOnly \<and> defaultPol m = AccessPolicyAllowAll
      then nf_newIsolatePeerRule F addr n else (Ok (), n)) = (r1, n1)" by fastforce
  have r1: "\<not> is_crash r1" using nc(1) [of n] iso by (auto split: if_splits)
  obtain r2 t2 where lim: "tr_setLimit T addr (RateLimit pol) t = (r2, t2)" by fastforce
  have r2: "\<not> is_crash r2" using nc(2) [of "RateLimit pol" t] lim by simp
  have ap: "applyPolicy addr pol m =
     (case r1 of
        Err e \<Rightarrow> (Err e, m\<lparr>nf := Some (F, n1), ipp := Some pool\<rparr>)
      | Ok _ \<Rightarrow>
          (case r2 of
             Err e \<Rightarrow> (Err e, m\<lparr>nf := Some (F, n1), tc := Some (T, t2), ipp := Some pool\<rparr>)
           | Ok _ \<Rightarrow> (Ok (), m\<lparr>nf := Some (F, n1), tc := Some (T, t2)\<rparr>)
           | Crash msg \<Rightarrow> (Crash msg, m\<lparr>nf := Some (F, n1), tc := Some (T, t2)\<rparr>))
      | Crash msg \<Rightarrow> (Crash msg, m\<lparr>nf := Some (F, n1)\<rparr>))"
    unfolding applyPolicy_def ft ipp option.case prod.case iso lim
    by (simp add: giveBack_restores [OF un] split: outcome.splits)
  show thesis
  proof (cases r1)
    case (Err e)
    show thesis by (rule err [of e "m\<lparr>nf := Some (F, n1), ipp := Some pool\<rparr>"])
        (simp_all add: ap Err dr' ft)
  next
    case ok1: (Ok x)
    show thesis
    proof (cases r2)
      case (Err e)
      show thesis by (rule err [of e "m\<lparr>nf := Some (F, n1), tc := Some (T, t2), ipp := Some pool\<rparr>"])
          (simp_all add: ap Err ok1 dr')
    next
      case (Ok y)
      show thesis by (rule ok [of "m\<lparr>nf := Some (F, n1), tc := Some (T, t2)\<rparr>"])
          (simp_all add: ap Ok ok1 dr' ipp)
    qed (use r2 in simp)
  qed (use r1 in simp)
qed


lemma ipam_invI: "ipp m = Some pool \<Longrightarrow> pool_wf pool \<Longrightarrow> drivers_ok m \<Longrightarrow> ipam_inv pool m"
  by (simp add: ipam_inv_def)

lemma drivers_ok_ipp [simp]: "drivers_ok (m\<lparr>ipp := p\<rparr>) = drivers_ok m"
  by (simp add: drivers_ok_def)

lemma ipam_Alloc_cases:
  assumes inv: "ipam_inv pool m"
  obtains (refused) e m' where "ipam_Alloc pol rnd m = Some (Err e, m')" "ipam_inv pool m'"
  | (fresh) u pool' m' where "ipam_Alloc pol rnd m = Some (Ok (Uint32ToIP u), m')"
      "u \<in> pool_range pool - taken pool" "ipam_inv pool' m'" "taken pool' = insert u (taken pool)"
      "pool_range pool' = pool_range pool"
proof -
  have ipp: "ipp m = Some pool" and wf: "pool_wf pool" and dr: "drivers_ok m"
    using inv by (simp_all add: ipam_inv_def)
  consider (full) e where "Ippool.Alloc pool rnd = Some (Err e, pool)"
    | (got) u pool' where "Ippool.Alloc pool rnd = Some (Ok (Uint32ToIP u), pool')"
        "u \<in> pool_range pool - taken pool" "pool_wf pool'" "taken pool' = insert u (taken pool)"
        "pool_range pool' = pool_range pool" "Unset pool' (Uint32ToIP u) = (Ok (), pool)"
    using v4pool.alloc_law [OF wf, of rnd] by blast
  then show thesis
  proof cases
    case full
    show thesis
      by (rule refused [of e "m\<lparr>ipp := Some pool\<rparr>"])
        (simp_all add: ipam_Alloc_def allocate_def Let_def ipp full ipam_inv_def wf dr)
  next
    case got
    let ?m = "m\<lparr>ipp := Some pool'\<rparr>"
    define pol1 where "pol1 = (if Access pol = AccessPolicyDefault then pol\<lparr>Access := defaultPol m\<rparr> else pol)"
    define pol2 where "pol2 = (if defaultPol m = AccessPolicyInternetOnly \<and> Access pol1 = AccessPolicyAllowAll
      then pol1\<lparr>Access := AccessPolicyInternetOnly\<rparr> else pol1)"
    have al: "ipam_Alloc pol rnd m = (case applyPolicy (Uint32ToIP u) pol2 ?m of
        (Err e, m) \<Rightarrow> Some (Err e, m) | (Crash msg, m) \<Rightarrow> Some (Crash msg, m)
      | (Ok _, m) \<Rightarrow> Some (Ok (Uint32ToIP u), m))"
      unfolding ipam_Alloc_def allocate_def Let_def pol1_def [symmetric] pol2_def [symmetric]
      by (simp add: ipp got(1))
    have m: "drivers_ok ?m" "ipp ?m = Some pool'" "Isv4 (Uint32ToIP u)"
      using dr by (simp_all add: Isv4_Uint32ToIP)
    show thesis
    proof (cases rule: applyPolicy_cases [OF m(1,2) got(6) m(3), of pol2])
      case (1 m')
      then show thesis using got al by (intro fresh [of u m' pool']) (simp_all add: ipam_inv_def)
    next
      case (2 e m')
      then show thesis using al wf by (intro refused [of e m']) (simp_all add: ipam_inv_def)
    qed
  qed
qed

lemma ipam_Set_cases:
  assumes inv: "ipam_inv pool m"
  obtains (refused) e m' where "ipam_Set ip pol m = (Err e, m')" "ipam_inv pool m'"
  | (fresh) u pool' m' where "ipam_Set ip pol m = (Ok (), m')" "ToUint32 ip = Some u"
      "u \<in> pool_range pool - taken pool" "ipam_inv pool' m'" "taken pool' = insert u (taken pool)"
      "pool_range pool' = pool_range pool"
proof -
  have ipp: "ipp m = Some pool" and wf: "pool_wf pool" and dr: "drivers_ok m"
    using inv by (simp_all add: ipam_inv_def)
  consider (no) e where "Ippool.Set pool ip = (Err e, pool)"
    | (got) u pool' where "Ippool.Set pool ip = (Ok (), pool')" "ToUint32 ip = Some u"
        "u \<in> pool_range pool - taken pool" "pool_wf pool'" "taken pool' = insert u (taken pool)"
        "pool_range pool' = pool_range pool" "Unset pool' ip = (Ok (), pool)"
    using v4pool.set_law [OF wf, of ip] by blast
  then show thesis
  proof cases
    case no
    show thesis
      by (rule refused [of e "m\<lparr>ipp := Some pool\<rparr>"])
        (simp_all add: ipam_Set_def Let_def ipp no ipam_inv_def wf dr)
  next
    case got
    let ?m = "m\<lparr>ipp := Some pool'\<rparr>"
    define pol1 where "pol1 = (if Access pol = AccessPolicyDefault then pol\<lparr>Access := defaultPol m\<rparr> else pol)"
    have al: "ipam_Set ip pol m = applyPolicy ip pol1 ?m"
      unfolding ipam_Set_def Let_def pol1_def [symmetric] by (simp add: ipp got(1))
    have m: "drivers_ok ?m" "ipp ?m = Some pool'" "Isv4 ip" using dr got(2) Isv4_ToUint32 by auto
    show thesis
    proof (cases rule: applyPolicy_cases [OF m(1,2) got(7) m(3), of pol1])
      case (1 m')
      then show thesis using got al by (intro fresh [of m' u pool']) (simp_all add: ipam_inv_def)
    next
      case (2 e m')
      then show thesis using al wf by (intro refused [of e m']) (simp_all add: ipam_inv_def)
    qed
  qed
qed

lemma ipam_Unset_cases:
  assumes inv: "ipam_inv pool m"
  obtains (refused) e m' where "ipam_Unset ip m = (Err e, m')" "ipam_inv pool m'"
      "\<And>u. ToUint32 ip = Some u \<Longrightarrow> u \<notin> taken pool"
  | (released) u pool' m' where "ipam_Unset ip m = (Ok (), m')" "ToUint32 ip = Some u"
      "u \<in> taken pool" "ipam_inv pool' m'" "taken pool' = taken pool - {u}"
      "pool_range pool' = pool_range pool"
proof -
  have ipp: "ipp m = Some pool" and wf: "pool_wf pool" and dr: "drivers_ok m"
    using inv by (simp_all add: ipam_inv_def)
  obtain F n T t where ft: "nf m = Some (F, n)" "tc m = Some (T, t)"
    and nc: "\<And>ident n. \<not> is_crash (fst (nf_findAndRemoveRule F ident n))"
      "\<And>ip t. Isv4 ip \<Longrightarrow> \<not> is_crash (fst (tr_removeLimit T ip t))"
    by (rule drivers_okE [OF dr]) simp
  note dr' = drivers_ok_cong [OF dr ft]
  consider (no) e where "Unset pool ip = (Err e, pool)" "\<And>u. ToUint32 ip = Some u \<Longrightarrow> u \<notin> taken pool"
    | (got) u pool' where "Unset pool ip = (Ok (), pool')" "ToUint32 ip = Some u"
        "u \<in> taken pool" "pool_wf pool'" "taken pool' = taken pool - {u}"
        "pool_range pool' = pool_range pool"
    using v4pool.unset_law [OF wf, of ip] by blast
  then show thesis
  proof cases
    case no
    show thesis
      by (rule refused [of e "m\<lparr>ipp := Some pool\<rparr>"])
        (simp_all add: ipam_Unset_def ipam_free_def ipp ft no ipam_inv_def wf dr)
  next
    case got
    obtain r1 t1 where r1: "tr_removeLimit T ip t = (r1, t1)" by fastforce
    obtain r2 n2 where r2: "nf_findAndRemoveRule F
        (case To4 (IP_bytes ip) of None \<Rightarrow> [] | Some b4 \<Rightarrow> b4) n = (r2, n2)" by fastforce
    have "Isv4 ip" using got(2) Isv4_ToUint32 by blast
    then have "\<not> is_crash r1" "\<not> is_crash r2" using nc(2) [of ip t] nc(1) r1 r2 by (auto, metis fst_conv)
    then have "ipam_Unset ip m = (Ok (), m\<lparr>nf := Some (F, n2), tc := Some (T, t1), ipp := Some pool'\<rparr>)"
      unfolding ipam_Unset_def ipam_free_def ipp ft option.case prod.case got(1) r1 r2
      by (cases r1; cases r2) simp_all
    then show thesis
      using got
      by (intro released [of "m\<lparr>nf := Some (F, n2), tc := Some (T, t1), ipp := Some pool'\<rparr>" u pool'])
        (simp_all add: ipam_inv_def dr')
  qed
qed


section \<open>Runs of the manager\<close>

inductive ipam_step :: "('n, 't) IPAM \<Rightarrow> pool_event \<Rightarrow> ('n, 't) IPAM \<Rightarrow> bool" where
  ipam_alloc: "ipam_Alloc pol rnd m = Some (Ok ip, m') \<Longrightarrow> ToUint32 ip = Some u
    \<Longrightarrow> ipam_step m (Acquired u) m'"
| ipam_alloc_refused: "ipam_Alloc pol rnd m = Some (Err e, m') \<Longrightarrow> ipam_step m Refused m'"
| ipam_set: "ipam_Set ip pol m = (Ok (), m') \<Longrightarrow> ToUint32 ip = Some u \<Longrightarrow> ipam_step m (Acquired u) m'"
| ipam_set_refused: "ipam_Set ip pol m = (Err e, m') \<Longrightarrow> ipam_step m Refused m'"
| ipam_unset: "ipam_Unset ip m = (Ok (), m') \<Longrightarrow> ToUint32 ip = Some u \<Longrightarrow> ipam_step m (Released u) m'"
| ipam_unset_refused: "ipam_Unset ip m = (Err e, m') \<Longrightarrow> ipam_step m Refused m'"

inductive ipam_run :: "('n, 't) IPAM \<Rightarrow> pool_event list \<Rightarrow> ('n, 't) IPAM \<Rightarrow> bool" where
  ipam_run_nil: "ipam_run m [] m"
| ipam_run_cons: "ipam_step m e m' \<Longrightarrow> ipam_run m' es m'' \<Longrightarrow> ipam_run m (e # es) m''"

lemma ipam_step_simulates:
  assumes "ipam_step m e m'" and inv: "ipam_inv pool m"
  shows "\<exists>pool'. ipam_inv pool' m' \<and> pool_range pool' = pool_range pool
    \<and> exclusive (pool_range pool) (taken pool) [e] = Some (taken pool')"
  using assms(1)
proof cases
  case (ipam_alloc pol rnd ip u)
  then show ?thesis by (cases rule: ipam_Alloc_cases [OF inv, of pol rnd]) auto
next
  case (ipam_alloc_refused pol rnd err)
  then show ?thesis by (cases rule: ipam_Alloc_cases [OF inv, of pol rnd]) auto
next
  case (ipam_set ip pol u)
  then show ?thesis by (cases rule: ipam_Set_cases [OF inv, of ip pol]) auto
next
  case (ipam_set_refused ip pol err)
  then show ?thesis by (cases rule: ipam_Set_cases [OF inv, of ip pol]) auto
next
  case (ipam_unset ip u)
  then show ?thesis by (cases rule: ipam_Unset_cases [OF inv, of ip]) auto
next
  case (ipam_unset_refused ip err)
  then show ?thesis by (cases rule: ipam_Unset_cases [OF inv, of ip]) auto
qed

lemma ipam_run_simulates:
  assumes "ipam_run m es m'" and "ipam_inv pool m"
  shows "\<exists>pool'. ipam_inv pool' m' \<and> pool_range pool' = pool_range pool
    \<and> exclusive (pool_range pool) (taken pool) es = Some (taken pool')"
  using assms
proof (induction arbitrary: pool rule: ipam_run.induct)
  case (ipam_run_cons m e m' es m'')
  obtain pool' where p: "ipam_inv pool' m'" "pool_range pool' = pool_range pool"
    "exclusive (pool_range pool) (taken pool) [e] = Some (taken pool')"
    using ipam_step_simulates [OF ipam_run_cons.hyps(1) ipam_run_cons.prems] by blast
  show ?case using ipam_run_cons.IH [OF p(1)] p(2) exclusive_cons [OF p(3)] by simp
qed auto

section \<open>Two concrete managers\<close>

text \<open>An nftables connection that keeps the rules sent to it.\<close>

definition rule_log_api :: "(nft_rule list) nft_api" where
  "rule_log_api =
     \<lparr>CtStateBitESTABLISHED = 2, CtStateBitRELATED = 4, AddTable = (\<lambda>t k. k), FlushTable = (\<lambda>t k. k),
      AddChain = (\<lambda>c k. k), AddRule = (\<lambda>r k. k @ [r]), AddSet = (\<lambda>s es k. (None, k)),
      DelRule = (\<lambda>r k. (None, filter (\<lambda>x. x \<noteq> r) k)), Flush = (\<lambda>k. (None, k)),
      ListChains = (\<lambda>k. (Inr [nfIsolationChain], k)),
      GetRule = (\<lambda>t c k. (Inr (filter (\<lambda>r. rule_chain r = c) k), k))\<rparr>"

definition tiny_ipam :: "(nft_rule list netfilterWrapper, uint32 set tcWrapper) IPAM" where
  "tiny_ipam =
     \<lparr>defaultPol = AccessPolicyAllowAll,
      nf = Some (netfilter_methods rule_log_api (sort_key low), newNetfilter [] 0 office_net),
      tc = Some (tc_methods no_filter_api, newTrafficControl {} 100), ipp = Some tiny_pool\<rparr>"

lemma tiny_ipam_inv: "ipam_inv tiny_pool tiny_ipam"
  using real_drivers_ok [of tiny_ipam] by (simp add: ipam_inv_def tiny_ipam_def tiny_pool_wf)

section \<open>Properties\<close>

text \<open>C3: allocating an address through the manager is atomic for the pool: it always returns; on
  success the address was free, lies in the range and is the only change; on any error, also when the
  netfilter or traffic control driver fails after the address was taken, the pool is exactly as
  before.\<close>

theorem ipam_Alloc_atomic:
  assumes "ipam_inv pool m"
  shows "(\<exists>e m'. ipam_Alloc pol rnd m = Some (Err e, m') \<and> ipam_inv pool m')
    \<or> (\<exists>u pool' m'. ipam_Alloc pol rnd m = Some (Ok (Uint32ToIP u), m')
          \<and> u \<in> pool_range pool \<and> u \<notin> taken pool
          \<and> ipam_inv pool' m' \<and> taken pool' = insert u (taken pool) \<and> pool_range pool' = pool_range pool)"
  by (cases rule: ipam_Alloc_cases [OF assms, of pol rnd]) auto

theorem ipam_Alloc_atomic_witness:
  "\<exists>res m' pool'. ipam_Alloc \<lparr>Access = AccessPolicyDefault, RateLimit = 9\<rparr> 4 tiny_ipam = Some (res, m')
     \<and> \<not> is_crash res \<and> ipam_inv pool' m'"
  using ipam_Alloc_atomic [OF tiny_ipam_inv, of "\<lparr>Access = AccessPolicyDefault, RateLimit = 9\<rparr>" 4] by auto

text \<open>C4: every sequence of \<open>Alloc\<close>, \<open>Set\<close> and \<open>Unset\<close> calls on the manager, whatever the drivers
  answer, refines the abstract pool: addresses are held exclusively, an operation that reports an
  error changes nobody's address, and the pool invariant survives.\<close>

theorem ipam_runs_exclusive:
  assumes "ipam_inv pool m" and "ipam_run m es m'"
  shows "\<exists>pool'. ipam_inv pool' m' \<and> exclusive (pool_range pool) (taken pool) es = Some (taken pool')"
  using ipam_run_simulates [OF assms(2,1)] by blast

theorem ipam_runs_exclusive_witness:
  "\<exists>m' pool'. ipam_run tiny_ipam [Released 6] m' \<and> ipam_inv pool' m' \<and> taken pool' = taken tiny_pool - {6}"
proof -
  have six: "6 \<in> taken tiny_pool" by (simp add: tiny_pool_def taken_def)
  obtain m' where "ipam_Unset (Uint32ToIP 6) tiny_ipam = (Ok (), m')"
    using six by (cases rule: ipam_Unset_cases [OF tiny_ipam_inv, of "Uint32ToIP 6"]) auto
  then have run: "ipam_run tiny_ipam [Released 6] m'"
    by (intro ipam_run_cons [OF _ ipam_run_nil] ipam_unset [where ip = "Uint32ToIP 6"]) simp_all
  from ipam_runs_exclusive [OF tiny_ipam_inv this] run six show ?thesis by auto
qed

text \<open>C11: when the bandwidth limit cannot be set after the peer's isolation rule was installed, the
  manager returns the address to the pool but leaves the isolation rule in the packet filter.\<close>

theorem failed_limit_leaves_isolation_rule:
  assumes "ipam_inv pool m" and "nf m = Some (F, n)" and "tc m = Some (T, t)"
    and "ToUint32 addr = Some u" and "u \<in> pool_range pool" and "u \<notin> taken pool"
    and "defaultPol m = AccessPolicyAllowAll" and "Access pol = AccessPolicyInternetOnly"
    and "nf_newIsolatePeerRule F addr n = (Ok (), n1)"
    and "tr_setLimit T addr (RateLimit pol) t = (Err e, t1)"
  shows "\<exists>m'. ipam_Set addr pol m = (Err e, m') \<and> ipp m' = Some pool \<and> nf m' = Some (F, n1)"
proof -
  have ipp: "ipp m = Some pool" and wf: "pool_wf pool" using assms(1) by (simp_all add: ipam_inv_def)
  obtain pool' where p: "Ippool.Set pool addr = (Ok (), pool')" "Unset pool' addr = (Ok (), pool)"
    using v4pool.set_law [OF wf, of addr] assms(4-6) by auto
  show ?thesis
    using assms by (simp add: ipam_Set_def ipp p(1) applyPolicy_def giveBack_restores [OF p(2)])
qed

theorem failed_limit_leaves_isolation_rule_witness:
  "\<exists>e m' F n1. ipam_Set (Uint32ToIP 7) \<lparr>Access = AccessPolicyInternetOnly, RateLimit = 9\<rparr> tiny_ipam = (Err e, m')
     \<and> ipp m' = Some tiny_pool \<and> nf m' = Some (F, n1)
     \<and> map UserData (conn n1) = [[0, 0, 0, 7]]"
proof -
  let ?F = "netfilter_methods rule_log_api (sort_key low)" and ?n = "newNetfilter [] 0 office_net"
  let ?T = "tc_methods no_filter_api" and ?t = "newTrafficControl {} 100"
  obtain n1 where n1: "nf_newIsolatePeerRule ?F (Uint32ToIP 7) ?n = (Ok (), n1)"
    and "map UserData (conn n1) = [IP_bytes (Uint32ToIP 7)]"
    by (simp add: netfilter_methods_def newIsolatePeerRule_def flush_or_def rule_log_api_def
        newNetfilter_def isolate_peer_rule_def)
  then have k: "map UserData (conn n1) = [[0, 0, 0, 7]]" by (simp add: Uint32ToIP_bytes)
  obtain e t1 where t1: "tr_setLimit ?T (Uint32ToIP 7) 9 ?t = (Err e, t1)"
    by (simp add: tc_methods_def setLimit_def newTrafficControl_def no_filter_api_def)
  have "7 \<in> pool_range tiny_pool" "7 \<notin> taken tiny_pool"
    by (simp_all add: tiny_pool_def pool_range_def taken_def)
  with failed_limit_leaves_isolation_rule [OF tiny_ipam_inv, of ?F ?n ?T ?t "Uint32ToIP 7" 7
      "\<lparr>Access = AccessPolicyInternetOnly, RateLimit = 9\<rparr>" n1 e t1] n1 t1 k
  show ?thesis by (auto simp: tiny_ipam_def)
qed

end
