(* ===== verification/Xcache_Bucket.thy ===== *)
theory Xcache_Bucket
  imports Xerror
begin

text \<open>
  The in-memory byte cache (\<open>src/xcache/cache.go\<close>).  A bucket is a ring buffer of 64 KB chunks with
  encoded pairs and a map from key hashes to positions; a position packs the generation of the ring
  (24 bits) and the offset (40 bits) into one 64-bit word.

  A chunk slice is its memory and its length; reading past the length but inside the memory is
  allowed in Go, and the code does it.  Memory handed out by \<open>getChunk\<close> holds arbitrary bytes, the
  argument \<open>fresh\<close>.  Go iterates over a map in no fixed order, so the loops over the map take the
  order of the hashes as an argument.  The hash function \<open>xxhash.Sum64\<close> is a parameter of the cache
  operations.  Offsets are natural numbers: they stay below \<open>2 ^ 40\<close>, so the 64-bit sums of the code
  do not wrap.
\<close>

section \<open>State\<close>

definition bucketsCount :: nat where "bucketsCount = 512"
definition chunkSize :: nat where "chunkSize = 64 * 1024"
definition maxGen :: uint64 where "maxGen = 0xFFFFFF"
definition maxBucketSize :: nat where "maxBucketSize = 2 ^ 40"
definition maxKeyLen :: nat where "maxKeyLen = 65536"

abbreviation ErrNoData :: go_error where
  "ErrNoData \<equiv> Plain ''xcache.ErrNoData'' ''no data'' None"
abbreviation ErrCorruptedData :: go_error where
  "ErrCorruptedData \<equiv> Plain ''xcache.ErrCorruptedData'' ''corrupted data'' None"
abbreviation errKeyLenTooBig :: go_error where
  "errKeyLenTooBig \<equiv> Plain ''xcache.errKeyLenTooBig'' ''key len too big > 65536'' None"
abbreviation errValLenTooBig :: go_error where
  "errValLenTooBig \<equiv> Plain ''xcache.errValLenTooBig'' ''val len too big > 65536'' None"
abbreviation errKeyValLenExceedsChunkSize :: go_error where
  "errKeyValLenExceedsChunkSize \<equiv>
     Plain ''xcache.errKeyValLenExceedsChunkSize'' ''key + val len exceeds chunk size'' None"

record Items =
  Keys :: "byte list list"
  Values :: "byte list list"

definition newItems :: Items where
  "newItems = \<lparr>Keys = [], Values = []\<rparr>"

definition Add :: "Items \<Rightarrow> byte list \<Rightarrow> byte list \<Rightarrow> Items" where
  "Add i key val = i\<lparr>Keys := Keys i @ [key], Values := Values i @ [val]\<rparr>"

definition Count :: "Items \<Rightarrow> nat" where
  "Count i = length (Keys i)"

record chunk =
  c_mem :: "byte list"
  c_len :: nat

record bucket =
  chunk_list :: "chunk option list"
  kv_map :: "uint64 \<rightharpoonup> uint64"
  b_idx :: nat
  b_gen :: uint64

section \<open>Reading\<close>

definition pos_gen :: "uint64 \<Rightarrow> uint64" where
  "pos_gen v = drop_bit 40 v"

definition pos_idx :: "uint64 \<Rightarrow> nat" where
  "pos_idx v = unat (v AND mask 40)"

definition bGen :: "bucket \<Rightarrow> uint64" where
  "bGen b = b_gen b AND maxGen"

text \<open>The test shared by \<open>readItem\<close> and \<open>getLocked\<close>, and the one of \<open>cleanLocked\<close>.\<close>

definition readable :: "bucket \<Rightarrow> uint64 \<Rightarrow> bool" where
  "readable b v \<longleftrightarrow>
     (let g = pos_gen v; i = pos_idx v in
      g = bGen b \<and> i < b_idx b \<or> g + 1 = bGen b \<and> i \<ge> b_idx b
      \<or> g = maxGen \<and> bGen b = 1 \<and> i \<ge> b_idx b)"

definition kept_by_clean :: "bucket \<Rightarrow> uint64 \<Rightarrow> bool" where
  "kept_by_clean b v \<longleftrightarrow>
     (let g = pos_gen v; i = pos_idx v in
      (g + 1 = bGen b \<or> g = maxGen \<and> bGen b = 1) \<and> i \<ge> b_idx b \<or> g = bGen b \<and> i < b_idx b)"

definition be16 :: "byte \<Rightarrow> byte \<Rightarrow> nat" where
  "be16 hi lo = unat hi * 256 + unat lo"

text \<open>The part \<open>readItem\<close> and \<open>getLocked\<close> have in common: the chunk, the offset of the key in it and
  the lengths of key and value.\<close>

definition locate :: "bucket \<Rightarrow> uint64 \<Rightarrow> (go_error, nat \<times> byte list \<times> nat \<times> nat \<times> nat) outcome" where
  "locate b v =
     (if \<not> readable b v then Err ErrNoData
      else
        (let chunkIdx = pos_idx v div chunkSize; i = pos_idx v mod chunkSize in
         if chunkIdx \<ge> length (chunk_list b) then Err ErrCorruptedData
         else if i + 4 \<ge> chunkSize then Err ErrCorruptedData
         else
           (case chunk_list b ! chunkIdx of
              None \<Rightarrow> Crash ''slice bounds out of range''
            | Some c \<Rightarrow>
                if i + 4 > length (c_mem c) then Crash ''slice bounds out of range''
                else
                  (let kvLenBuf = slice i (i + 4) (c_mem c);
                       keyLen = be16 (kvLenBuf ! 0) (kvLenBuf ! 1);
                       valLen = be16 (kvLenBuf ! 2) (kvLenBuf ! 3) in
                   if i + 4 + keyLen + valLen \<ge> chunkSize then Err ErrCorruptedData
                   else if i + 4 + keyLen + valLen > length (c_mem c)
                   then Crash ''slice bounds out of range''
                   else Ok (chunkIdx, c_mem c, i + 4, keyLen, valLen)))))"

definition readItem :: "bucket \<Rightarrow> uint64 \<Rightarrow> (go_error, byte list \<times> byte list) outcome" where
  "readItem b v =
     (case locate b v of
        Ok (ci, bytes, i, keyLen, valLen) \<Rightarrow>
          Ok (slice i (i + keyLen) bytes, slice (i + keyLen) (i + keyLen + valLen) bytes)
      | Err e \<Rightarrow> Err e
      | Crash msg \<Rightarrow> Crash msg)"

text \<open>\<open>getLocked\<close> also returns where the value is: the slice it returns without copying.\<close>

definition getLocked :: "bucket \<Rightarrow> byte list \<Rightarrow> uint64
    \<Rightarrow> (go_error, byte list \<times> nat \<times> nat) outcome" where
  "getLocked b k h =
     (case kv_map b h of
        None \<Rightarrow> Err ErrNoData
      | Some v \<Rightarrow>
          if v = 0 then Err ErrNoData
          else
            (case locate b v of
               Ok (ci, bytes, i, keyLen, valLen) \<Rightarrow>
                 if k = slice i (i + keyLen) bytes
                 then Ok (slice (i + keyLen) (i + keyLen + valLen) bytes, ci, i + keyLen)
                 else Err ErrNoData
             | Err e \<Rightarrow> Err e
             | Crash msg \<Rightarrow> Crash msg))"

definition bucket_Get :: "bucket \<Rightarrow> byte list \<Rightarrow> uint64 \<Rightarrow> (go_error, byte list) outcome" where
  "bucket_Get b k h =
     (case getLocked b k h of Ok (val, _) \<Rightarrow> Ok val | Err e \<Rightarrow> Err e | Crash msg \<Rightarrow> Crash msg)"

section \<open>Writing\<close>

text \<open>The items read from the positions of a loop; unreadable ones are skipped.  A panic in the
  loop is a panic of the caller.\<close>

fun add_items :: "bucket \<Rightarrow> uint64 list \<Rightarrow> Items \<Rightarrow> (go_error, Items) outcome" where
  "add_items b [] out = Ok out"
| "add_items b (v # vs) out =
     (case readItem b v of
        Ok (key, val) \<Rightarrow> add_items b vs (Add out key val)
      | Err e \<Rightarrow> add_items b vs out
      | Crash msg \<Rightarrow> Crash msg)"

definition map_values :: "(uint64 \<rightharpoonup> uint64) \<Rightarrow> uint64 list \<Rightarrow> uint64 list" where
  "map_values mp order = List.map_filter mp order"

definition bucket_Reset :: "bucket \<Rightarrow> uint64 list \<Rightarrow> Items option
    \<Rightarrow> (go_error, Items option) outcome \<times> bucket" where
  "bucket_Reset b order out =
     (let b' = \<lparr>chunk_list = map (\<lambda>_. None) (chunk_list b), kv_map = Map.empty, b_idx = 0, b_gen = 1\<rparr> in
      case out of
        None \<Rightarrow> (Ok None, b')
      | Some out \<Rightarrow>
          (case add_items b (map_values (kv_map b) order) out of
             Ok items \<Rightarrow> (Ok (Some items), b')
           | Err e \<Rightarrow> (Err e, b)
           | Crash msg \<Rightarrow> (Crash msg, b)))"

definition bucket_Init :: "nat \<Rightarrow> (go_error, bucket) outcome" where
  "bucket_Init maxBytes =
     (if maxBytes = 0 then Err (Plain ''fmt.Errorf'' ''maxBytes cannot be zero'' None)
      else if maxBytes \<ge> maxBucketSize then Err (Plain ''fmt.Errorf'' ''too big maxBytes'' None)
      else
        (let maxChunks = (maxBytes + chunkSize - 1) div chunkSize in
         Ok (snd (bucket_Reset
                    \<lparr>chunk_list = replicate maxChunks None, kv_map = Map.empty, b_idx = 0, b_gen = 0\<rparr> [] None))))"

text \<open>\<open>cleanLocked\<close>: the map with the positions that are kept, and what the callback gets, if it is
  called.\<close>

definition cleanLocked :: "bucket \<Rightarrow> uint64 list \<Rightarrow> bool
    \<Rightarrow> (go_error, Items option) outcome \<times> bucket" where
  "cleanLocked b order hasEvict =
     (let bm = (\<lambda>k. case kv_map b k of Some v \<Rightarrow> if kept_by_clean b v then Some v else None | None \<Rightarrow> None);
          bme = remdups (filter (\<lambda>v. \<not> kept_by_clean b v) (map_values (kv_map b) order));
          b' = (if bm = Map.empty then b else b\<lparr>kv_map := bm\<rparr>) in
      if hasEvict \<and> bme \<noteq> []
      then (case add_items b bme newItems of
              Ok evicted \<Rightarrow> (Ok (Some evicted), b')
            | Err e \<Rightarrow> (Err e, b)
            | Crash msg \<Rightarrow> (Crash msg, b))
      else (Ok None, b'))"

definition kvLenBuf :: "nat \<Rightarrow> nat \<Rightarrow> byte list" where
  "kvLenBuf lk lv =
     [word_of_nat (lk mod 65536 div 256), word_of_nat lk,
      word_of_nat (lv mod 65536 div 256), word_of_nat lv]"

text \<open>\<open>append\<close>: in place while the memory has room, otherwise into new memory.\<close>

definition append_chunk :: "chunk \<Rightarrow> byte list \<Rightarrow> chunk" where
  "append_chunk c xs =
     \<lparr>c_mem = (if c_len c + length xs \<le> length (c_mem c) then blit (c_mem c) (c_len c) xs
             else take (c_len c) (c_mem c) @ xs),
      c_len = c_len c + length xs\<rparr>"

definition pack :: "nat \<Rightarrow> uint64 \<Rightarrow> uint64" where
  "pack i g = word_of_nat i OR push_bit 40 g"

definition next_gen :: "uint64 \<Rightarrow> uint64" where
  "next_gen g = (let g = g + 1 in if g AND maxGen = 0 then g + 1 else g)"

text \<open>Where the pair goes: the write offset, the generation, whether a new chunk is begun and
  whether the ring starts over.\<close>

definition write_pos :: "bucket \<Rightarrow> nat \<Rightarrow> nat \<times> uint64 \<times> bool \<times> bool" where
  "write_pos b kvLen =
     (let chunkIdx = b_idx b div chunkSize; chunkIdxNew = (b_idx b + kvLen) div chunkSize in
      if chunkIdxNew > chunkIdx
      then if chunkIdxNew \<ge> length (chunk_list b) then (0, next_gen (b_gen b), True, True)
           else (chunkIdxNew * chunkSize, b_gen b, True, False)
      else (b_idx b, b_gen b, False, False))"

definition setLocked :: "bucket \<Rightarrow> byte list \<Rightarrow> byte list \<Rightarrow> uint64 \<Rightarrow> bool \<Rightarrow> byte list \<Rightarrow> uint64 list
    \<Rightarrow> (go_error, Items option) outcome \<times> bucket" where
  "setLocked b k v h hasEvict fresh order =
     (if length k \<ge> maxKeyLen then (Err errKeyLenTooBig, b)
      else if length v \<ge> maxKeyLen then (Err errValLenTooBig, b)
      else
        (let kvLen = 4 + length k + length v in
         if kvLen \<ge> chunkSize then (Err errKeyValLenExceedsChunkSize, b)
         else
           (let (i, g, newChunk, needClean) = write_pos b kvLen;
                chunkIdx = i div chunkSize in
            if chunkIdx \<ge> length (chunk_list b) then (Crash ''index out of range'', b)
            else
              (let c = chunk_list b ! chunkIdx;
                   c = (if newChunk then map_option (\<lambda>c. c\<lparr>c_len := 0\<rparr>) c else c);
                   c = (case c of None \<Rightarrow> \<lparr>c_mem = fresh, c_len = 0\<rparr> | Some c \<Rightarrow> c);
                   c = append_chunk (append_chunk (append_chunk c (kvLenBuf (length k) (length v))) k) v;
                   b' = b\<lparr>chunk_list := (chunk_list b)[chunkIdx := Some c],
                          kv_map := (kv_map b)(h \<mapsto> pack i g), b_idx := i + kvLen, b_gen := g\<rparr> in
               if needClean then cleanLocked b' order hasEvict else (Ok None, b')))))"

definition bucket_Set :: "bucket \<Rightarrow> byte list \<Rightarrow> byte list \<Rightarrow> uint64 \<Rightarrow> bool \<Rightarrow> byte list \<Rightarrow> uint64 list
    \<Rightarrow> (go_error, Items option) outcome \<times> bucket" where
  "bucket_Set b k v h hasEvict fresh order = setLocked b k v h hasEvict fresh order"

definition getItemsLocked :: "bucket \<Rightarrow> uint64 list \<Rightarrow> Items option \<Rightarrow> (go_error, Items option) outcome" where
  "getItemsLocked b order out =
     (if kv_map b = Map.empty then Ok out
      else
        (case add_items b (map_values (kv_map b) order) (case out of None \<Rightarrow> newItems | Some i \<Rightarrow> i) of
           Ok items \<Rightarrow> Ok (Some items)
         | Err e \<Rightarrow> Err e
         | Crash msg \<Rightarrow> Crash msg))"

text \<open>A mutator gets the value in place (nothing when there is none); it leaves something there, and
  returns the new value and whether to store it, or an error, or panics.\<close>

type_synonym mutator = "byte list option \<Rightarrow> byte list \<times> (go_error, byte list \<times> bool) outcome"

definition write_back :: "bucket \<Rightarrow> nat \<Rightarrow> nat \<Rightarrow> byte list \<Rightarrow> bucket" where
  "write_back b ci off xs =
     b\<lparr>chunk_list := (chunk_list b)[ci := map_option (\<lambda>c. c\<lparr>c_mem := blit (c_mem c) off xs\<rparr>)
                                          (chunk_list b ! ci)]\<rparr>"

definition bucket_Update :: "bucket \<Rightarrow> byte list \<Rightarrow> uint64 \<Rightarrow> mutator \<Rightarrow> bool \<Rightarrow> byte list \<Rightarrow> uint64 list
    \<Rightarrow> (go_error, Items option) outcome \<times> bucket" where
  "bucket_Update b k h mutator hasEvict fresh order =
     (case getLocked b k h of
        Crash msg \<Rightarrow> (Crash msg, b)
      | Ok (cur, ci, off) \<Rightarrow>
          (let (left, res) = mutator (Some cur); b = write_back b ci off left in
           case res of
             Err e \<Rightarrow> (Err e, b)
           | Crash msg \<Rightarrow> (Crash msg, b)
           | Ok (v, update) \<Rightarrow> if update then setLocked b k v h hasEvict fresh order else (Ok None, b))
      | Err e \<Rightarrow>
          if errors_Is e ErrNoData
          then (case snd (mutator None) of
                  Err e' \<Rightarrow> (Err e', b)
                | Crash msg \<Rightarrow> (Crash msg, b)
                | Ok (v, update) \<Rightarrow> if update then setLocked b k v h hasEvict fresh order else (Err e, b))
          else (Err e, b))"

definition bucket_GetSet :: "bucket \<Rightarrow> byte list \<Rightarrow> uint64 \<Rightarrow> go_error + byte list \<Rightarrow> bool \<Rightarrow> byte list
    \<Rightarrow> uint64 list \<Rightarrow> (go_error, byte list \<times> Items option) outcome \<times> bucket" where
  "bucket_GetSet b k h provided hasEvict fresh order =
     (case getLocked b k h of
        Crash msg \<Rightarrow> (Crash msg, b)
      | Ok (v, _) \<Rightarrow> (Ok (v, None), b)
      | Err e \<Rightarrow>
          if errors_Is e ErrNoData
          then (case provided of
                  Inl err \<Rightarrow> (Err err, b)
                | Inr v \<Rightarrow>
                    (case setLocked b k v h hasEvict fresh order of
                       (Ok evicted, b) \<Rightarrow> (Ok (v, evicted), b)
                     | (Err err, b) \<Rightarrow> (Err err, b)
                     | (Crash msg, b) \<Rightarrow> (Crash msg, b)))
          else (Err e, b))"

definition bucket_Del :: "bucket \<Rightarrow> uint64 \<Rightarrow> bucket" where
  "bucket_Del b h = b\<lparr>kv_map := (kv_map b)(h := None)\<rparr>"


section \<open>Positions and generations\<close>

definition gnat :: "uint64 \<Rightarrow> nat" where
  "gnat v = unat (pos_gen v)"

definition Gnat :: "bucket \<Rightarrow> nat" where
  "Gnat b = unat (bGen b)"

definition prevn :: "nat \<Rightarrow> nat" where
  "prevn g = (if g = 1 then 2 ^ 24 - 1 else g - 1)"

definition nextn :: "nat \<Rightarrow> nat" where
  "nextn g = (if g = 2 ^ 24 - 1 then 1 else g + 1)"

lemma maxGen_mask: "maxGen = mask 24"
  by (simp add: maxGen_def mask_numeral)

lemma unat_and_maxGen: "unat (g AND maxGen) = unat g mod 2 ^ 24"
  by (simp only: maxGen_mask flip: take_bit_eq_mask) (simp add: take_bit_eq_mod unat_mod)

lemma pos_pack:
  assumes "i < 2 ^ 40"
  shows "pos_idx (pack i g) = i" and "pos_gen (pack i g) = g AND maxGen"
proof -
  have hi: "\<not> bit i n" if "40 \<le> n" for n
    using that assms by (metis bit_take_bit_iff linorder_not_le take_bit_nat_eq_self)
  show "pos_gen (pack i g) = g AND maxGen"
    unfolding pos_gen_def pack_def maxGen_mask
    by (rule bit_word_eqI) (auto simp: bit_simps hi)
  have "pack i g AND mask 40 = word_of_nat i"
    unfolding pack_def by (rule bit_word_eqI) (use hi linorder_not_le in \<open>auto simp: bit_simps\<close>)
  then show "pos_idx (pack i g) = i"
    using assms by (simp add: pos_idx_def unat_of_nat take_bit_nat_eq_self)
qed


lemma gnat_less: "gnat v < 2 ^ 24"
proof -
  have "unat v < 2 ^ 64" using unsigned_less [of v, where ?'a = nat] by simp
  then show ?thesis
    unfolding gnat_def pos_gen_def unat_drop_bit_eq by (simp add: drop_bit_eq_div less_mult_imp_div_less)
qed

lemma Gnat_less: "Gnat b < 2 ^ 24"
  by (simp add: Gnat_def bGen_def unat_and_maxGen)

lemma pos_gen_eq_iff: "pos_gen v = bGen b \<longleftrightarrow> gnat v = Gnat b"
  by (simp add: gnat_def Gnat_def word_unat_eq_iff)

lemma pos_gen_succ_iff: "pos_gen v + 1 = bGen b \<longleftrightarrow> gnat v + 1 = Gnat b"
proof -
  have "unat (pos_gen v + 1) = gnat v + 1"
    using gnat_less [of v] unat_add_lem [of "pos_gen v" 1] by (simp add: gnat_def)
  then show ?thesis by (simp add: Gnat_def word_unat_eq_iff)
qed

lemma pos_gen_max_iff: "pos_gen v = maxGen \<longleftrightarrow> gnat v = 2 ^ 24 - 1" "bGen b = 1 \<longleftrightarrow> Gnat b = 1"
  by (simp_all add: gnat_def Gnat_def word_unat_eq_iff maxGen_def)

text \<open>The two tests are the same test.\<close>

lemma kept_by_clean_readable: "kept_by_clean b v \<longleftrightarrow> readable b v"
  by (auto simp: kept_by_clean_def readable_def Let_def)

lemma readable_iff:
  assumes "Gnat b \<noteq> 0" and "gnat v \<noteq> 0"
  shows "readable b v \<longleftrightarrow> gnat v = Gnat b \<and> pos_idx v < b_idx b \<or> gnat v = prevn (Gnat b) \<and> b_idx b \<le> pos_idx v"
  using assms gnat_less [of v]
  by (auto simp: readable_def Let_def pos_gen_eq_iff pos_gen_succ_iff pos_gen_max_iff prevn_def)

lemma Gnat_next_gen:
  assumes "Gnat b \<noteq> 0" and "b_gen b' = next_gen (b_gen b)"
  shows "Gnat b' = nextn (Gnat b)"
proof -
  have succ: "unat (g + 1) mod 2 ^ 24 = (unat g mod 2 ^ 24 + 1) mod 2 ^ 24" for g :: uint64
  proof -
    have "unat (g + 1) = (unat g + 1) mod 2 ^ 64"
      by (simp add: unat_word_ariths)
    then have "unat (g + 1) mod 2 ^ 24 = (unat g + 1) mod 2 ^ 24"
      by (simp add: mod_mod_cancel)
    then show ?thesis by (simp add: mod_simps)
  qed
  define G where "G = unat (b_gen b) mod 2 ^ 24"
  have G: "Gnat b = G" "G < 2 ^ 24" by (simp_all add: G_def Gnat_def bGen_def unat_and_maxGen)
  have z: "b_gen b + 1 AND maxGen = 0 \<longleftrightarrow> G = 2 ^ 24 - 1"
  proof -
    have "b_gen b + 1 AND maxGen = 0 \<longleftrightarrow> (G + 1) mod 2 ^ 24 = 0"
      using succ [of "b_gen b"] by (simp add: word_unat_eq_iff unat_and_maxGen G_def)
    then show ?thesis using G(2) by (cases "G + 1 = 2 ^ 24") auto
  qed
  have "Gnat b' = unat (next_gen (b_gen b)) mod 2 ^ 24"
    by (simp add: Gnat_def bGen_def unat_and_maxGen assms(2))
  also have "\<dots> = nextn G"
  proof (cases "G = 2 ^ 24 - 1")
    case True
    then have "next_gen (b_gen b) = b_gen b + 1 + 1" using z by (simp add: next_gen_def Let_def)
    then show ?thesis using True succ [of "b_gen b + 1"] succ [of "b_gen b"]
      by (simp add: nextn_def G_def)
  next
    case False
    then have "next_gen (b_gen b) = b_gen b + 1" using z by (simp add: next_gen_def Let_def)
    then show ?thesis using False succ [of "b_gen b"] G(2) by (simp add: nextn_def G_def)
  qed
  finally show ?thesis using G by simp
qed

lemma nextn_range: "0 < g \<Longrightarrow> g < 2 ^ 24 \<Longrightarrow> 0 < nextn g \<and> nextn g < 2 ^ 24"
  by (auto simp: nextn_def)

lemma prevn_nextn: "0 < g \<Longrightarrow> g < 2 ^ 24 \<Longrightarrow> prevn (nextn g) = g"
  by (auto simp: nextn_def prevn_def)

lemma prevn_neq: "0 < g \<Longrightarrow> g < 2 ^ 24 \<Longrightarrow> prevn g \<noteq> g \<and> 0 < prevn g \<and> prevn g \<noteq> nextn g"
  by (auto simp: nextn_def prevn_def)


section \<open>Stored pairs\<close>

definition item_bytes :: "byte list \<Rightarrow> byte list \<Rightarrow> byte list" where
  "item_bytes k v = kvLenBuf (length k) (length v) @ k @ v"

abbreviation item_len :: "byte list \<Rightarrow> byte list \<Rightarrow> nat" where
  "item_len k v \<equiv> 4 + length k + length v"

lemma length_kvLenBuf [simp]: "length (kvLenBuf lk lv) = 4"
  by (simp add: kvLenBuf_def)

lemma length_item_bytes [simp]: "length (item_bytes k v) = item_len k v"
  by (simp add: item_bytes_def)

lemma slice_item_value: "slice (4 + length k) (item_len k v) (item_bytes k v) = v"
  by (simp add: slice_def item_bytes_def)

lemma be16_split:
  assumes "n < 65536"
  shows "be16 (word_of_nat (n mod 65536 div 256)) (word_of_nat n) = n"
proof -
  have "n div 256 < 256" using assms by (simp add: less_mult_imp_div_less)
  then have "unat (word_of_nat (n div 256) :: byte) = n div 256"
    by (simp add: unat_of_nat take_bit_nat_eq_self)
  moreover have "unat (word_of_nat n :: byte) = n mod 256"
    by (simp add: unat_of_nat)
  ultimately show ?thesis using assms by (simp add: be16_def)
qed

definition stored_at :: "bucket \<Rightarrow> nat \<Rightarrow> byte list \<Rightarrow> byte list \<Rightarrow> bool" where
  "stored_at b i k v \<longleftrightarrow>
     (\<exists>c. i div chunkSize < length (chunk_list b) \<and> chunk_list b ! (i div chunkSize) = Some c
        \<and> length (c_mem c) = chunkSize \<and> i mod chunkSize + item_len k v < chunkSize
        \<and> slice (i mod chunkSize) (i mod chunkSize + item_len k v) (c_mem c) = item_bytes k v)"

lemma locate_stored:
  assumes "readable b v" and "stored_at b (pos_idx v) k val"
  obtains ci bytes i where "locate b v = Ok (ci, bytes, i, length k, length val)"
    "slice i (i + length k) bytes = k" "slice (i + length k) (i + length k + length val) bytes = val"
    "ci = pos_idx v div chunkSize" "i = pos_idx v mod chunkSize + 4"
proof -
  let ?i = "pos_idx v mod chunkSize" and ?n = "item_len k val"
  obtain c where c: "pos_idx v div chunkSize < length (chunk_list b)"
    "chunk_list b ! (pos_idx v div chunkSize) = Some c" "length (c_mem c) = chunkSize"
    "?i + ?n < chunkSize" and s: "slice ?i (?i + ?n) (c_mem c) = item_bytes k val"
    using assms(2) by (auto simp: stored_at_def)
  have sub: "slice (?i + a) (?i + d) (c_mem c) = slice a d (item_bytes k val)" if "d \<le> ?n" for a d
    using slice_slice [of d "?i + ?n" ?i a "c_mem c"] that s by simp
  have hdr: "slice ?i (?i + 4) (c_mem c) = kvLenBuf (length k) (length val)"
    using sub [of 4 0] by (simp add: item_bytes_def kvLenBuf_def slice_def)
  have lens: "length k < 65536" "length val < 65536" using c(4) by (simp_all add: chunkSize_def)
  have "locate b v = Ok (pos_idx v div chunkSize, c_mem c, ?i + 4, length k, length val)"
    using assms(1) c hdr be16_split [OF lens(1)] be16_split [OF lens(2)]
    by (simp add: locate_def Let_def kvLenBuf_def)
  moreover have "slice (?i + 4) (?i + 4 + length k) (c_mem c) = k"
    using sub [of "4 + length k" 4] by (simp add: item_bytes_def kvLenBuf_def slice_def add.assoc)
  moreover have "slice (?i + 4 + length k) (?i + 4 + length k + length val) (c_mem c) = val"
    using sub [of "4 + length k + length val" "4 + length k"] slice_item_value [of k val]
    by (simp add: add.assoc)
  ultimately show thesis using that by blast
qed

section \<open>The invariant\<close>

text \<open>\<open>A\<close> is the abstract map: for a hash the pair set last.  A position of the current generation lies
  below the write offset and its pair is stored there; one of the generation before holds its pair as
  long as it lies at or above the write offset.\<close>

definition entry_ok :: "bucket \<Rightarrow> uint64 \<Rightarrow> byte list \<Rightarrow> byte list \<Rightarrow> bool" where
  "entry_ok b v k val \<longleftrightarrow>
     gnat v = Gnat b \<and> pos_idx v + item_len k val \<le> b_idx b \<and> stored_at b (pos_idx v) k val
     \<or> gnat v = prevn (Gnat b) \<and> (b_idx b \<le> pos_idx v \<longrightarrow> stored_at b (pos_idx v) k val)"

text \<open>Readable pairs do not overlap.\<close>

definition separated :: "(uint64 \<rightharpoonup> byte list \<times> byte list) \<Rightarrow> bucket \<Rightarrow> bool" where
  "separated A b \<longleftrightarrow>
     (\<forall>h1 h2 v1 v2 k1 w1 k2 w2. h1 \<noteq> h2 \<longrightarrow> kv_map b h1 = Some v1 \<longrightarrow> kv_map b h2 = Some v2
        \<longrightarrow> readable b v1 \<longrightarrow> readable b v2 \<longrightarrow> A h1 = Some (k1, w1) \<longrightarrow> A h2 = Some (k2, w2)
        \<longrightarrow> pos_idx v1 + item_len k1 w1 \<le> pos_idx v2 \<or> pos_idx v2 + item_len k2 w2 \<le> pos_idx v1)"

definition bucket_inv :: "(uint64 \<rightharpoonup> byte list \<times> byte list) \<Rightarrow> bucket \<Rightarrow> bool" where
  "bucket_inv A b \<longleftrightarrow>
     length (chunk_list b) * chunkSize \<le> 2 ^ 40
     \<and> b_idx b < length (chunk_list b) * chunkSize
     \<and> (\<forall>c. Some c \<in> set (chunk_list b) \<longrightarrow> length (c_mem c) = chunkSize)
     \<and> (case chunk_list b ! (b_idx b div chunkSize) of
          None \<Rightarrow> b_idx b mod chunkSize = 0 | Some c \<Rightarrow> c_len c = b_idx b mod chunkSize)
     \<and> Gnat b \<noteq> 0
     \<and> (\<forall>h v. kv_map b h = Some v \<longrightarrow> (\<exists>k val. A h = Some (k, val) \<and> entry_ok b v k val))
     \<and> separated A b"

lemma chunkSize_pos [simp]: "0 < chunkSize"
  by (simp add: chunkSize_def)

lemma entry_ok_gnat:
  assumes "entry_ok b v k val" and "Gnat b \<noteq> 0"
  shows "gnat v \<noteq> 0"
  using assms prevn_neq [of "Gnat b"] Gnat_less [of b] by (auto simp: entry_ok_def)

lemma entry_ok_readable:
  assumes "entry_ok b v k val" and "Gnat b \<noteq> 0" and "readable b v"
  shows "stored_at b (pos_idx v) k val"
  using assms readable_iff [OF assms(2) entry_ok_gnat [OF assms(1,2)]]
    prevn_neq [of "Gnat b"] Gnat_less [of b]
  by (auto simp: entry_ok_def)

text \<open>The pair a lookup of the hash finds.\<close>

definition live :: "(uint64 \<rightharpoonup> byte list \<times> byte list) \<Rightarrow> bucket \<Rightarrow> uint64 \<rightharpoonup> byte list \<times> byte list" where
  "live A b h = (case kv_map b h of Some v \<Rightarrow> if readable b v then A h else None | None \<Rightarrow> None)"

lemma bucket_inv_entry:
  "bucket_inv A b \<Longrightarrow> kv_map b h = Some v \<Longrightarrow> \<exists>k val. A h = Some (k, val) \<and> entry_ok b v k val"
  by (simp add: bucket_inv_def)

lemma bucket_inv_Gnat: "bucket_inv A b \<Longrightarrow> Gnat b \<noteq> 0"
  by (simp add: bucket_inv_def)

lemma live_stored:
  assumes "bucket_inv A b" and "live A b h = Some (k, val)"
  obtains v where "kv_map b h = Some v" "v \<noteq> 0" "readable b v" "stored_at b (pos_idx v) k val"
proof -
  obtain v where v: "kv_map b h = Some v" "readable b v" "A h = Some (k, val)"
    using assms(2) by (auto simp: live_def split: option.splits if_splits)
  have e: "entry_ok b v k val" and G: "Gnat b \<noteq> 0"
    using bucket_inv_entry [OF assms(1) v(1)] v(3) bucket_inv_Gnat [OF assms(1)] by auto
  have "v \<noteq> 0" using entry_ok_gnat [OF e G] by (auto simp: gnat_def pos_gen_def)
  then show thesis using that v entry_ok_readable [OF e G v(2)] by blast
qed

lemma live_none:
  assumes "bucket_inv A b" and "live A b h = None"
  obtains "kv_map b h = None" | v where "kv_map b h = Some v" "\<not> readable b v"
  using assms(2) bucket_inv_entry [OF assms(1), of h]
  by (auto simp: live_def split: option.splits if_splits)

lemma getLocked_live:
  assumes "bucket_inv A b" and "live A b h = Some (k, val)"
  obtains v where "getLocked b k h = Ok (val, pos_idx v div chunkSize, pos_idx v mod chunkSize + 4 + length k)"
    "kv_map b h = Some v" "readable b v" "stored_at b (pos_idx v) k val"
proof -
  obtain v where v: "kv_map b h = Some v" "v \<noteq> 0" "readable b v" "stored_at b (pos_idx v) k val"
    by (rule live_stored [OF assms])
  obtain ci bytes i where "locate b v = Ok (ci, bytes, i, length k, length val)"
    "slice i (i + length k) bytes = k" "slice (i + length k) (i + length k + length val) bytes = val"
    "ci = pos_idx v div chunkSize" "i = pos_idx v mod chunkSize + 4"
    by (rule locate_stored [OF v(3,4)])
  then show thesis using v that by (simp add: getLocked_def)
qed

lemma getLocked_other_key:
  assumes "bucket_inv A b" and "live A b h = Some (k', val)" and "k \<noteq> k'"
  shows "getLocked b k h = Err ErrNoData"
proof -
  obtain v where v: "kv_map b h = Some v" "v \<noteq> 0" "readable b v" "stored_at b (pos_idx v) k' val"
    by (rule live_stored [OF assms(1,2)])
  show ?thesis
    by (rule locate_stored [OF v(3,4)]) (use v assms(3) in \<open>auto simp: getLocked_def\<close>)
qed

lemma getLocked_none:
  assumes "bucket_inv A b" and "live A b h = None"
  shows "getLocked b k h = Err ErrNoData"
  by (rule live_none [OF assms]) (auto simp: getLocked_def locate_def)

section \<open>Writing keeps the invariant\<close>

lemma blit_blit:
  assumes "i + length ys + length zs \<le> length xs"
  shows "blit (blit xs i ys) (i + length ys) zs = blit xs i (ys @ zs)"
  using assms by (intro nth_equalityI) (auto simp: nth_blit nth_append)

lemma append_item:
  assumes "c_len c + item_len k v \<le> length (c_mem c)"
  shows "append_chunk (append_chunk (append_chunk c (kvLenBuf (length k) (length v))) k) v =
    \<lparr>c_mem = blit (c_mem c) (c_len c) (item_bytes k v), c_len = c_len c + item_len k v\<rparr>"
  using assms blit_blit [of "c_len c" "kvLenBuf (length k) (length v)" k "c_mem c"]
    blit_blit [of "c_len c" "kvLenBuf (length k) (length v) @ k" v "c_mem c"]
  by (simp add: append_chunk_def item_bytes_def add.assoc)

text \<open>\<open>wrote b b' i k v\<close>: \<open>b'\<close> is \<open>b\<close> with the pair written at offset \<open>i\<close>.\<close>

definition wrote :: "bucket \<Rightarrow> bucket \<Rightarrow> nat \<Rightarrow> byte list \<Rightarrow> byte list \<Rightarrow> bool" where
  "wrote b b' i k v \<longleftrightarrow>
     (\<exists>c0 :: chunk. i div chunkSize < length (chunk_list b) \<and> i mod chunkSize + item_len k v < chunkSize
        \<and> length (c_mem c0) = chunkSize
        \<and> (case chunk_list b ! (i div chunkSize) of None \<Rightarrow> True | Some c \<Rightarrow> c_mem c0 = c_mem c)
        \<and> chunk_list b' = (chunk_list b)[i div chunkSize :=
             Some \<lparr>c_mem = blit (c_mem c0) (i mod chunkSize) (item_bytes k v),
                   c_len = i mod chunkSize + item_len k v\<rparr>])"

lemma wrote_stored: "wrote b b' i k v \<Longrightarrow> stored_at b' i k v"
  unfolding wrote_def stored_at_def by (auto simp: slice_blit_same)

lemma same_chunk_order:
  fixes i j n :: nat
  assumes "i div C = j div C" and "0 < C"
  shows "j + n \<le> i \<longleftrightarrow> j mod C + n \<le> i mod C"
proof -
  have "i = C * (j div C) + i mod C" "j = C * (j div C) + j mod C"
    using assms(1) mult_div_mod_eq [of C i] mult_div_mod_eq [of C j] by simp_all
  then show ?thesis by (metis add.assoc add_le_cancel_left)
qed

lemma wrote_keeps:
  assumes w: "wrote b b' i k v" and s: "stored_at b j k' v'"
    and sep: "j + item_len k' v' \<le> i \<or> i + item_len k v \<le> j"
  shows "stored_at b' j k' v'"
proof (cases "j div chunkSize = i div chunkSize")
  case False
  then show ?thesis using w s unfolding wrote_def stored_at_def by auto
next
  case True
  obtain c0 :: chunk where c0: "i div chunkSize < length (chunk_list b)" "i mod chunkSize + item_len k v < chunkSize"
    "length (c_mem c0) = chunkSize"
    "case chunk_list b ! (i div chunkSize) of None \<Rightarrow> True | Some c \<Rightarrow> c_mem c0 = c_mem c"
    "chunk_list b' = (chunk_list b)[i div chunkSize :=
             Some \<lparr>c_mem = blit (c_mem c0) (i mod chunkSize) (item_bytes k v),
                   c_len = i mod chunkSize + item_len k v\<rparr>]"
    using w unfolding wrote_def by blast
  obtain c where c: "chunk_list b ! (j div chunkSize) = Some c" "j mod chunkSize + item_len k' v' < chunkSize"
    "slice (j mod chunkSize) (j mod chunkSize + item_len k' v') (c_mem c) = item_bytes k' v'"
    using s unfolding stored_at_def by blast
  have eq: "c_mem c0 = c_mem c" using c0(4) c(1) True by simp
  have "j mod chunkSize + item_len k' v' \<le> i mod chunkSize \<or> i mod chunkSize + item_len k v \<le> j mod chunkSize"
    using sep same_chunk_order [of i chunkSize j] same_chunk_order [of j chunkSize i] True by simp
  then have "slice (j mod chunkSize) (j mod chunkSize + item_len k' v')
      (blit (c_mem c0) (i mod chunkSize) (item_bytes k v)) = item_bytes k' v'"
    using c0(2,3) c(2,3) eq by (auto simp: slice_blit_before slice_blit_after)
  then show ?thesis
    unfolding stored_at_def c0(5) using True c0(1-3) c(2) by simp
qed

lemma write_pos_cases:
  assumes inv: "bucket_inv A b" and n: "0 < n" "n < chunkSize"
  obtains (same) "write_pos b n = (b_idx b, b_gen b, False, False)" "b_idx b mod chunkSize + n < chunkSize"
  | (fwd) i where "write_pos b n = (i, b_gen b, True, False)" "b_idx b < i" "i mod chunkSize = 0"
      "i + n < length (chunk_list b) * chunkSize"
  | (wrap) "write_pos b n = (0, next_gen (b_gen b), True, True)"
proof -
  let ?ci = "b_idx b div chunkSize" and ?cn = "(b_idx b + n) div chunkSize"
  show thesis
  proof (cases "?cn > ?ci")
    case False
    have "b_idx b mod chunkSize + n < chunkSize"
    proof (rule ccontr)
      assume "\<not> b_idx b mod chunkSize + n < chunkSize"
      then have "?ci * chunkSize + chunkSize \<le> b_idx b + n"
        using div_mult_mod_eq [of "b_idx b" chunkSize] by linarith
      then have "?ci + 1 \<le> ?cn" by (simp add: less_eq_div_iff_mult_less_eq)
      then show False using False by simp
    qed
    then show thesis using False by (intro same) (simp_all add: write_pos_def Let_def)
  next
    case True
    show thesis
    proof (cases "?cn \<ge> length (chunk_list b)")
      case True
      with \<open>?cn > ?ci\<close> show thesis by (intro wrap) (simp add: write_pos_def Let_def)
    next
      case False
      have "b_idx b < ?cn * chunkSize"
        using True by (metis div_less_iff_less_mult chunkSize_pos)
      moreover have "?cn * chunkSize + n < (?cn + 1) * chunkSize" using n by simp
      moreover have "(?cn + 1) * chunkSize \<le> length (chunk_list b) * chunkSize"
        using False by (intro mult_le_mono1) simp
      ultimately show thesis
        using True False by (intro fwd [of "?cn * chunkSize"]) (simp_all add: write_pos_def Let_def)
    qed
  qed
qed


lemma add_items_unreadable:
  "(\<And>v. v \<in> set vs \<Longrightarrow> \<not> readable b v) \<Longrightarrow> add_items b vs out = Ok out"
  by (induction vs) (simp_all add: readItem_def locate_def)

definition readable_map :: "bucket \<Rightarrow> uint64 \<rightharpoonup> uint64" where
  "readable_map b = (\<lambda>k. case kv_map b k of Some v \<Rightarrow> if readable b v then Some v else None | None \<Rightarrow> None)"

lemma cleanLocked_result:
  "\<exists>ev b'. cleanLocked b order e = (Ok ev, b') \<and> (ev = None \<or> ev = Some newItems)
     \<and> (b' = b\<lparr>kv_map := readable_map b\<rparr> \<or> readable_map b = Map.empty \<and> b' = b)"
proof -
  have "add_items b (remdups (filter (\<lambda>v. \<not> readable b v) vs)) newItems = Ok newItems" for vs
    by (rule add_items_unreadable) auto
  then show ?thesis
    unfolding cleanLocked_def Let_def kept_by_clean_readable readable_map_def by auto
qed

lemma setLocked_write:
  assumes inv: "bucket_inv A b" and fresh: "length fresh = chunkSize" and n: "item_len k v < chunkSize"
  obtains i g moved clean b1 where
    "write_pos b (item_len k v) = (i, g, moved, clean)" "wrote b b1 i k v"
    "kv_map b1 = (kv_map b)(h \<mapsto> pack i g)" "b_idx b1 = i + item_len k v" "b_gen b1 = g"
    "setLocked b k v h e fresh order = (if clean then cleanLocked b1 order e else (Ok None, b1))"
proof -
  obtain i g moved clean where wp: "write_pos b (item_len k v) = (i, g, moved, clean)"
    by (metis surj_pair)
  have b: "b_idx b < length (chunk_list b) * chunkSize"
    "\<And>c. Some c \<in> set (chunk_list b) \<Longrightarrow> length (c_mem c) = chunkSize"
    using inv by (auto simp: bucket_inv_def)
  have len: "0 < length (chunk_list b)" using b(1) by (cases "chunk_list b") auto
  have "i div chunkSize < length (chunk_list b) \<and> i mod chunkSize + item_len k v < chunkSize
    \<and> (moved \<longrightarrow> i mod chunkSize = 0) \<and> (\<not> moved \<longrightarrow> i = b_idx b)"
  proof (rule write_pos_cases [OF inv _ n])
    assume "write_pos b (item_len k v) = (b_idx b, b_gen b, False, False)"
      "b_idx b mod chunkSize + item_len k v < chunkSize"
    then show ?thesis using wp b(1) by (simp add: div_less_iff_less_mult)
  next
    fix j assume "write_pos b (item_len k v) = (j, b_gen b, True, False)" "j mod chunkSize = 0"
      "j + item_len k v < length (chunk_list b) * chunkSize"
    then show ?thesis using wp n by (auto simp: div_less_iff_less_mult)
  next
    assume "write_pos b (item_len k v) = (0, next_gen (b_gen b), True, True)"
    then show ?thesis using wp n len by simp
  qed simp
  then have i: "i div chunkSize < length (chunk_list b)" "i mod chunkSize + item_len k v < chunkSize"
    and pos: "moved \<Longrightarrow> i mod chunkSize = 0" "\<not> moved \<Longrightarrow> i = b_idx b" by auto
  define c1 where "c1 = (if moved then map_option (\<lambda>c. c\<lparr>c_len := 0\<rparr>) (chunk_list b ! (i div chunkSize))
      else chunk_list b ! (i div chunkSize))"
  define c0 where "c0 = (case c1 of None \<Rightarrow> \<lparr>c_mem = fresh, c_len = 0\<rparr> | Some c \<Rightarrow> c)"
  have cur: "case chunk_list b ! (b_idx b div chunkSize) of
      None \<Rightarrow> b_idx b mod chunkSize = 0 | Some c \<Rightarrow> c_len c = b_idx b mod chunkSize"
    using inv by (simp add: bucket_inv_def)
  have mem: "length (c_mem c0) = chunkSize"
    using b(2) nth_mem [OF i(1)] fresh unfolding c0_def c1_def
    by (cases "chunk_list b ! (i div chunkSize)") auto
  have at: "c_len c0 = i mod chunkSize"
    using pos cur unfolding c0_def c1_def
    by (cases "chunk_list b ! (i div chunkSize)"; cases moved) auto
  have same: "case chunk_list b ! (i div chunkSize) of None \<Rightarrow> True | Some c \<Rightarrow> c_mem c0 = c_mem c"
    unfolding c0_def c1_def by (cases "chunk_list b ! (i div chunkSize)") auto
  let ?c = "\<lparr>c_mem = blit (c_mem c0) (i mod chunkSize) (item_bytes k v),
             c_len = i mod chunkSize + item_len k v\<rparr>"
  let ?b1 = "b\<lparr>chunk_list := (chunk_list b)[i div chunkSize := Some ?c],
       kv_map := (kv_map b)(h \<mapsto> pack i g), b_idx := i + item_len k v, b_gen := g\<rparr>"
  have app: "append_chunk (append_chunk (append_chunk c0 (kvLenBuf (length k) (length v))) k) v = ?c"
    using append_item [of c0 k v] at mem i(2) by simp
  have lens: "\<not> maxKeyLen \<le> length k" "\<not> maxKeyLen \<le> length v" "\<not> chunkSize \<le> item_len k v"
    using n by (simp_all add: chunkSize_def maxKeyLen_def)
  have "setLocked b k v h e fresh order = (if clean then cleanLocked ?b1 order e else (Ok None, ?b1))"
    unfolding setLocked_def Let_def wp prod.case c1_def [symmetric] c0_def [symmetric] app
    using lens i(1) by simp
  moreover have "wrote b ?b1 i k v"
    unfolding wrote_def using i mem same by (intro exI [of _ c0]) simp
  ultimately show thesis using wp by (intro that [of i g moved clean ?b1]) simp_all
qed


lemma div_mod_within:
  fixes i n C :: nat
  assumes "i mod C + n < C"
  shows "(i + n) div C = i div C \<and> (i + n) mod C = i mod C + n"
proof -
  have "(r + d * C) div C = d \<and> (r + d * C) mod C = r" if "r < C" for r d :: nat
    using that by simp
  from this [OF assms, of "i div C"] show ?thesis
    by (metis add.commute add.left_commute mod_div_mult_eq)
qed

lemma wrote_shape:
  assumes w: "wrote b b1 i k v" and inv: "bucket_inv A b" and idx: "b_idx b1 = i + item_len k v"
  shows "length (chunk_list b1) = length (chunk_list b)"
    and "b_idx b1 < length (chunk_list b1) * chunkSize"
    and "\<And>c. Some c \<in> set (chunk_list b1) \<Longrightarrow> length (c_mem c) = chunkSize"
    and "case chunk_list b1 ! (b_idx b1 div chunkSize) of
          None \<Rightarrow> b_idx b1 mod chunkSize = 0 | Some c \<Rightarrow> c_len c = b_idx b1 mod chunkSize"
    and "i < 2 ^ 40"
proof -
  obtain c0 :: chunk where c0: "i div chunkSize < length (chunk_list b)"
    "i mod chunkSize + item_len k v < chunkSize" "length (c_mem c0) = chunkSize"
    "chunk_list b1 = (chunk_list b)[i div chunkSize :=
             Some \<lparr>c_mem = blit (c_mem c0) (i mod chunkSize) (item_bytes k v),
                   c_len = i mod chunkSize + item_len k v\<rparr>]"
    using w unfolding wrote_def by blast
  show len: "length (chunk_list b1) = length (chunk_list b)" by (simp add: c0(4))
  have "i + item_len k v < i div chunkSize * chunkSize + chunkSize"
    using c0(2) div_mult_mod_eq [of i chunkSize] by linarith
  also have "\<dots> = (i div chunkSize + 1) * chunkSize" by simp
  also have "\<dots> \<le> length (chunk_list b1) * chunkSize" using c0(1) len by (intro mult_le_mono1) simp
  finally show lt: "b_idx b1 < length (chunk_list b1) * chunkSize" using idx by simp
  show "i < 2 ^ 40" using lt idx inv len by (simp add: bucket_inv_def)
  show "length (c_mem c) = chunkSize" if "Some c \<in> set (chunk_list b1)" for c
  proof -
    have "c = \<lparr>c_mem = blit (c_mem c0) (i mod chunkSize) (item_bytes k v),
               c_len = i mod chunkSize + item_len k v\<rparr> \<or> Some c \<in> set (chunk_list b)"
      using that set_update_subset_insert unfolding c0(4) by fastforce
    then show ?thesis using c0(2,3) inv by (auto simp: bucket_inv_def)
  qed
  have "(i + item_len k v) div chunkSize = i div chunkSize"
    "(i + item_len k v) mod chunkSize = i mod chunkSize + item_len k v"
    using div_mod_within [OF c0(2)] by auto
  then show "case chunk_list b1 ! (b_idx b1 div chunkSize) of
          None \<Rightarrow> b_idx b1 mod chunkSize = 0 | Some c \<Rightarrow> c_len c = b_idx b1 mod chunkSize"
    using c0 by (simp add: idx)
qed

lemma entry_ok_same_gen:
  assumes e: "entry_ok b v' k' val'" and w: "wrote b b1 i k v" and g: "Gnat b1 = Gnat b"
    and i: "b_idx b \<le> i" "b_idx b1 = i + item_len k v"
  shows "entry_ok b1 v' k' val'"
  using e wrote_keeps [OF w] i unfolding entry_ok_def g by auto

lemma entry_ok_next_gen:
  assumes e: "entry_ok b v' k' val'" and w: "wrote b b1 i k v" and G: "Gnat b \<noteq> 0"
    and g: "Gnat b1 = nextn (Gnat b)" and i: "b_idx b1 = i + item_len k v" and r: "readable b1 v'"
  shows "entry_ok b1 v' k' val'"
proof -
  have G1: "Gnat b1 \<noteq> 0" "prevn (Gnat b1) = Gnat b" "prevn (Gnat b) \<noteq> Gnat b" "prevn (Gnat b) \<noteq> Gnat b1"
    using nextn_range [of "Gnat b"] prevn_nextn [of "Gnat b"] prevn_neq [of "Gnat b"] G g Gnat_less [of b]
    by auto
  have "gnat v' = Gnat b"
    using e r readable_iff [OF G1(1) entry_ok_gnat [OF e G]] G1 by (auto simp: entry_ok_def)
  then have "stored_at b (pos_idx v') k' val'" using e G1 by (auto simp: entry_ok_def)
  then show ?thesis
    using \<open>gnat v' = Gnat b\<close> G1(2) wrote_keeps [OF w] i unfolding entry_ok_def by auto
qed

text \<open>What stays readable after a write was readable before it, and lies clear of the new pair.\<close>

lemma readable_same_gen:
  assumes e: "entry_ok b v' k' val'" and G: "Gnat b \<noteq> 0" and g: "Gnat b1 = Gnat b"
    and i: "b_idx b \<le> i" "b_idx b1 = i + item_len k v" and r: "readable b1 v'"
  shows "readable b v' \<and> (pos_idx v' + item_len k' val' \<le> i \<or> i + item_len k v \<le> pos_idx v')"
  using e r readable_iff [OF G entry_ok_gnat [OF e G]] readable_iff [of b1 v'] entry_ok_gnat [OF e G] G g i
    prevn_neq [of "Gnat b"] Gnat_less [of b]
  by (auto simp: entry_ok_def)

lemma readable_next_gen:
  assumes e: "entry_ok b v' k' val'" and G: "Gnat b \<noteq> 0" and g: "Gnat b1 = nextn (Gnat b)"
    and i: "b_idx b1 = i + item_len k v" and r: "readable b1 v'"
  shows "readable b v' \<and> (pos_idx v' + item_len k' val' \<le> i \<or> i + item_len k v \<le> pos_idx v')"
proof -
  have G1: "Gnat b1 \<noteq> 0" "prevn (Gnat b1) = Gnat b" "prevn (Gnat b) \<noteq> Gnat b" "prevn (Gnat b) \<noteq> Gnat b1"
    "Gnat b1 \<noteq> Gnat b"
    using nextn_range [of "Gnat b"] prevn_nextn [of "Gnat b"] prevn_neq [of "Gnat b"] G g Gnat_less [of b]
      prevn_neq [of "Gnat b1"] Gnat_less [of b1]
    by auto
  then show ?thesis
    using e r i readable_iff [OF G1(1) entry_ok_gnat [OF e G]] readable_iff [OF G entry_ok_gnat [OF e G]]
    by (auto simp: entry_ok_def)
qed

lemma separated_insert:
  assumes sep: "separated A b" and m: "\<And>h' v'. h' \<noteq> h \<Longrightarrow> kv_map b' h' = Some v' \<Longrightarrow> kv_map b h' = Some v'"
    and new: "kv_map b' h = Some p" "pos_idx p = i"
    and clear: "\<And>h' v' k' val'. h' \<noteq> h \<Longrightarrow> kv_map b' h' = Some v' \<Longrightarrow> A h' = Some (k', val') \<Longrightarrow> readable b' v'
      \<Longrightarrow> readable b v' \<and> (pos_idx v' + item_len k' val' \<le> i \<or> i + item_len k v \<le> pos_idx v')"
  shows "separated (A(h \<mapsto> (k, v))) b'"
  unfolding separated_def
proof (intro allI impI)
  fix h1 h2 v1 v2 k1 w1 k2 w2
  assume a: "h1 \<noteq> h2" "kv_map b' h1 = Some v1" "kv_map b' h2 = Some v2" "readable b' v1" "readable b' v2"
    "(A(h \<mapsto> (k, v))) h1 = Some (k1, w1)" "(A(h \<mapsto> (k, v))) h2 = Some (k2, w2)"
  consider "h1 = h" "h2 \<noteq> h" | "h2 = h" "h1 \<noteq> h" | "h1 \<noteq> h" "h2 \<noteq> h" using a(1) by auto
  then show "pos_idx v1 + item_len k1 w1 \<le> pos_idx v2 \<or> pos_idx v2 + item_len k2 w2 \<le> pos_idx v1"
  proof cases
    case 1
    then show ?thesis using a new clear [of h2 v2 k2 w2] by auto
  next
    case 2
    then show ?thesis using a new clear [of h1 v1 k1 w1] by auto
  next
    case 3
    then show ?thesis
      using a m [of h1 v1] m [of h2 v2] clear [of h1 v1 k1 w1] clear [of h2 v2 k2 w2] sep
      unfolding separated_def by simp
  qed
qed

lemma entry_ok_kv_map [simp]: "entry_ok (b\<lparr>kv_map := f\<rparr>) v k val = entry_ok b v k val"
  by (simp add: entry_ok_def stored_at_def Gnat_def bGen_def)

lemma readable_kv_map [simp]: "readable (b\<lparr>kv_map := f\<rparr>) v = readable b v"
  by (simp add: readable_def bGen_def)

lemma stored_at_kv_map [simp]: "stored_at (b\<lparr>kv_map := f\<rparr>) i k v = stored_at b i k v"
  by (simp add: stored_at_def)

lemma new_entry:
  assumes w: "wrote b b1 i k v" and inv: "bucket_inv A b" and G: "Gnat b1 \<noteq> 0"
    and b1: "b_idx b1 = i + item_len k v" "b_gen b1 = g"
  shows "entry_ok b1 (pack i g) k v" and "readable b1 (pack i g)" and "gnat (pack i g) = Gnat b1"
    and "pos_idx (pack i g) = i"
proof -
  have p: "pos_idx (pack i g) = i" "pos_gen (pack i g) = g AND maxGen"
    using pos_pack wrote_shape(5) [OF w inv b1(1)] by auto
  show "pos_idx (pack i g) = i" by (rule p(1))
  show g: "gnat (pack i g) = Gnat b1" using p by (simp add: gnat_def Gnat_def bGen_def b1)
  show "entry_ok b1 (pack i g) k v" using g p b1 wrote_stored [OF w] by (simp add: entry_ok_def)
  show "readable b1 (pack i g)" using readable_iff [of b1 "pack i g"] G g p b1 by simp
qed


text \<open>What a write promises: the new pair is found, every other pair is found as before or lost.\<close>

definition set_result :: "(uint64 \<rightharpoonup> byte list \<times> byte list) \<Rightarrow> bucket \<Rightarrow> uint64 \<Rightarrow> byte list \<Rightarrow> byte list
    \<Rightarrow> bucket \<Rightarrow> bool" where
  "set_result A b h k v b' \<longleftrightarrow>
     bucket_inv (A(h \<mapsto> (k, v))) b' \<and> live (A(h \<mapsto> (k, v))) b' h = Some (k, v)
     \<and> dom (kv_map b') \<subseteq> insert h (dom (kv_map b))
     \<and> (\<forall>h'. h' \<noteq> h \<longrightarrow> live (A(h \<mapsto> (k, v))) b' h' = live A b h' \<or> live (A(h \<mapsto> (k, v))) b' h' = None)"

text \<open>Both cases of a write: \<open>m\<close> is the map after it.\<close>

lemma write_result:
  assumes inv: "bucket_inv A b" and w: "wrote b b1 i k v" and G1: "Gnat b1 \<noteq> 0"
    and b1: "kv_map b1 = (kv_map b)(h \<mapsto> pack i g)" "b_idx b1 = i + item_len k v" "b_gen b1 = g"
    and m: "m h = Some (pack i g)" "\<And>h' v'. h' \<noteq> h \<Longrightarrow> m h' = Some v' \<Longrightarrow> kv_map b h' = Some v'"
    and keep: "\<And>h' v' k' val'. m h' = Some v' \<Longrightarrow> entry_ok b v' k' val' \<Longrightarrow> entry_ok b1 v' k' val'"
    and clear: "\<And>v' k' val'. entry_ok b v' k' val' \<Longrightarrow> readable b1 v' \<Longrightarrow>
      readable b v' \<and> (pos_idx v' + item_len k' val' \<le> i \<or> i + item_len k v \<le> pos_idx v')"
  shows "set_result A b h k v (b1\<lparr>kv_map := m\<rparr>)"
proof -
  let ?A = "A(h \<mapsto> (k, v))" and ?b = "b1\<lparr>kv_map := m\<rparr>"
  note new = new_entry [OF w inv G1 b1(2,3)]
  note old = bucket_inv_entry [OF inv]
  have entries: "\<exists>k' val'. ?A h' = Some (k', val') \<and> entry_ok b1 v' k' val'" if hv: "m h' = Some v'" for h' v'
  proof (cases "h' = h")
    case False
    then obtain k' val' where "A h' = Some (k', val')" "entry_ok b v' k' val'"
      using old [OF m(2)] hv by blast
    then show ?thesis using False keep hv by simp
  qed (use hv m(1) new(1) in simp)
  have sep: "separated ?A ?b"
  proof (rule separated_insert [where b = b and p = "pack i g" and i = i])
    show "separated A b" using inv by (simp add: bucket_inv_def)
  next
    fix h' v' k' val'
    assume a: "h' \<noteq> h" "kv_map ?b h' = Some v'" "A h' = Some (k', val')" "readable ?b v'"
    then have "entry_ok b v' k' val'" using old [OF m(2)] by fastforce
    then show "readable b v' \<and> (pos_idx v' + item_len k' val' \<le> i \<or> i + item_len k v \<le> pos_idx v')"
      using clear a(4) by simp
  qed (use m new(4) in simp_all)
  have cap: "length (chunk_list b1) * chunkSize \<le> 2 ^ 40"
    using inv wrote_shape(1) [OF w inv b1(2)] by (simp add: bucket_inv_def)
  have inv': "bucket_inv ?A ?b"
    unfolding bucket_inv_def using cap wrote_shape(2-4) [OF w inv b1(2)] G1 entries sep
    by (simp add: Gnat_def bGen_def cong: option.case_cong)
  have others: "live ?A ?b h' = live A b h' \<or> live ?A ?b h' = None" if h': "h' \<noteq> h" for h'
  proof (cases "m h'")
    case (Some v')
    then obtain k' val' where "entry_ok b v' k' val'" using old [OF m(2)] h' by blast
    then show ?thesis using clear m(2) [OF h' Some] Some h' by (auto simp: live_def)
  qed (simp add: live_def)
  have dom: "dom m \<subseteq> insert h (dom (kv_map b))" using m(2) by (auto simp: dom_def)
  show ?thesis unfolding set_result_def using inv' others dom m(1) new(2) by (auto simp: live_def)
qed

lemma readable_map_cases:
  "readable_map b h = Some v \<longleftrightarrow> kv_map b h = Some v \<and> readable b v"
  by (auto simp: readable_map_def split: option.splits)

lemma setLocked_inv:
  assumes inv: "bucket_inv A b" and fresh: "length fresh = chunkSize" and n: "item_len k v < chunkSize"
  obtains ev b' where "setLocked b k v h e fresh order = (Ok ev, b')"
    "ev = None \<or> ev = Some newItems" "set_result A b h k v b'"
proof -
  obtain i g moved clean b1 where wp: "write_pos b (item_len k v) = (i, g, moved, clean)"
    and w: "wrote b b1 i k v"
    and b1: "kv_map b1 = (kv_map b)(h \<mapsto> pack i g)" "b_idx b1 = i + item_len k v" "b_gen b1 = g"
    and s: "setLocked b k v h e fresh order = (if clean then cleanLocked b1 order e else (Ok None, b1))"
    by (rule setLocked_write [OF inv fresh n])
  note G = bucket_inv_Gnat [OF inv]
  have pos: "clean \<and> g = next_gen (b_gen b) \<or> \<not> clean \<and> g = b_gen b \<and> b_idx b \<le> i"
    by (rule write_pos_cases [OF inv _ n]) (use wp in auto)
  show thesis
  proof (cases clean)
    case False
    then have g: "Gnat b1 = Gnat b" and i: "b_idx b \<le> i"
      using pos b1(3) by (simp_all add: Gnat_def bGen_def)
    have "set_result A b h k v (b1\<lparr>kv_map := kv_map b1\<rparr>)"
    proof (rule write_result [OF inv w _ b1])
      show "entry_ok b v' k' val' \<Longrightarrow> entry_ok b1 v' k' val'" for v' k' val'
        by (rule entry_ok_same_gen [OF _ w g i b1(2)])
      show "entry_ok b v' k' val' \<Longrightarrow> readable b1 v' \<Longrightarrow>
        readable b v' \<and> (pos_idx v' + item_len k' val' \<le> i \<or> i + item_len k v \<le> pos_idx v')" for v' k' val'
        by (rule readable_same_gen [OF _ G g i b1(2)])
    qed (simp_all add: b1(1) g G)
    then show thesis using False s by (intro that [of None b1]) simp_all
  next
    case True
    then have g: "Gnat b1 = nextn (Gnat b)" using pos Gnat_next_gen [OF G] b1(3) by auto
    have G1: "Gnat b1 \<noteq> 0" using nextn_range [of "Gnat b"] G g Gnat_less [of b] by simp
    have rm: "readable_map b1 h = Some (pack i g)"
      using new_entry(2) [OF w inv G1 b1(2,3)] by (simp add: readable_map_def b1(1))
    obtain ev where cl: "cleanLocked b1 order e = (Ok ev, b1\<lparr>kv_map := readable_map b1\<rparr>)"
      "ev = None \<or> ev = Some newItems"
      using cleanLocked_result [of b1 order e] rm by auto
    have "set_result A b h k v (b1\<lparr>kv_map := readable_map b1\<rparr>)"
    proof (rule write_result [OF inv w G1 b1])
      show "readable_map b1 h' = Some v' \<Longrightarrow> entry_ok b v' k' val' \<Longrightarrow> entry_ok b1 v' k' val'" for h' v' k' val'
        by (rule entry_ok_next_gen [OF _ w G g b1(2)]) (simp_all add: readable_map_cases)
      show "entry_ok b v' k' val' \<Longrightarrow> readable b1 v' \<Longrightarrow>
        readable b v' \<and> (pos_idx v' + item_len k' val' \<le> i \<or> i + item_len k v \<le> pos_idx v')" for v' k' val'
        by (rule readable_next_gen [OF _ G g b1(2)])
    qed (use rm in \<open>auto simp: readable_map_cases b1(1)\<close>)
    then show thesis using True s cl by (intro that [of ev "b1\<lparr>kv_map := readable_map b1\<rparr>"]) simp_all
  qed
qed

end
