(* ===== verification/Xcache.thy ===== *)
theory Xcache
  imports Xcache_Bucket
begin

text \<open>
  The in-memory byte cache (\<open>src/xcache/cache.go\<close>) above its buckets.  The remaining bucket
  operations keep the invariant of \<open>Xcache_Bucket\<close>; a cache is 512 buckets chosen by the hash of the
  key.  The locale \<open>lossy_store\<close> is the contract a user of \<open>Update\<close> and \<open>Reset\<close> relies on; it is
  interpreted by the cache for every hash function.  The theorems relate every sequence of calls to
  a map that loses nothing, bound the capacity, and show that the eviction callback of \<open>Set\<close> never
  gets a pair.
\<close>

section \<open>The other operations\<close>

lemma live_kv_map [simp]: "live A (b\<lparr>kv_map := m\<rparr>) h = (case m h of Some v \<Rightarrow> if readable b v then A h else None | None \<Rightarrow> None)"
  by (simp add: live_def cong: option.case_cong)

lemma separated_sub:
  assumes "bucket_inv A b" and "\<And>h v. m h = Some v \<Longrightarrow> kv_map b h = Some v"
  shows "separated A (b\<lparr>kv_map := m\<rparr>)"
proof -
  have "separated A b" using assms(1) by (simp add: bucket_inv_def)
  then show ?thesis unfolding separated_def by (intro allI impI) (simp, meson assms(2))
qed

lemma bucket_Del_inv:
  assumes "bucket_inv A b"
  shows "bucket_inv A (bucket_Del b h)" and "live A (bucket_Del b h) = (live A b)(h := None)"
proof -
  have "separated A (bucket_Del b h)"
    unfolding bucket_Del_def by (rule separated_sub [OF assms]) (simp split: if_splits)
  then show "bucket_inv A (bucket_Del b h)"
    using assms by (auto simp: bucket_inv_def bucket_Del_def Gnat_def bGen_def cong: option.case_cong)
  show "live A (bucket_Del b h) = (live A b)(h := None)"
    by (rule ext) (simp add: bucket_Del_def live_def cong: option.case_cong)
qed

text \<open>The pairs a loop over the map reads.\<close>

definition add_all :: "Items \<Rightarrow> (byte list \<times> byte list) list \<Rightarrow> Items" where
  "add_all out ps = \<lparr>Keys = Keys out @ map fst ps, Values = Values out @ map snd ps\<rparr>"

lemma readItem_entry:
  assumes inv: "bucket_inv A b" and v: "kv_map b h = Some v"
  shows "readItem b v = (case live A b h of Some p \<Rightarrow> Ok p | None \<Rightarrow> Err ErrNoData)"
proof (cases "live A b h")
  case None
  then have "\<not> readable b v" using v by (auto elim!: live_none [OF inv])
  then show ?thesis using None by (simp add: readItem_def locate_def)
next
  case (Some p)
  obtain k val where p: "p = (k, val)" by fastforce
  have r: "readable b v" "stored_at b (pos_idx v) k val"
    using live_stored [OF inv Some [unfolded p]] v by auto
  show ?thesis by (rule locate_stored [OF r]) (simp add: readItem_def Some p)
qed

lemma add_items_live:
  assumes inv: "bucket_inv A b"
  shows "add_items b (map_values (kv_map b) order) out = Ok (add_all out (List.map_filter (live A b) order))"
proof (induction order arbitrary: out)
  case (Cons h order)
  show ?case
  proof (cases "kv_map b h")
    case None
    then have "live A b h = None" by (simp add: live_def)
    then show ?thesis using Cons None by (simp add: map_values_def map_filter_simps)
  next
    case (Some v)
    then show ?thesis using Cons
      by (cases "live A b h")
        (auto simp: map_values_def map_filter_simps readItem_entry [OF inv Some] Add_def add_all_def)
  qed
qed (simp add: map_values_def map_filter_simps add_all_def)

definition empty_bucket :: "nat \<Rightarrow> bucket" where
  "empty_bucket n = \<lparr>chunk_list = replicate n None, kv_map = Map.empty, b_idx = 0, b_gen = 1\<rparr>"

lemma empty_bucket_inv:
  assumes "0 < n" and "n * chunkSize \<le> 2 ^ 40"
  shows "bucket_inv A (empty_bucket n)" and "live A (empty_bucket n) = Map.empty"
  using assms
  by (auto simp: bucket_inv_def empty_bucket_def separated_def Gnat_def bGen_def maxGen_def live_def)

lemma bucket_Reset_result:
  assumes inv: "bucket_inv A b"
  shows "bucket_Reset b order out =
    (Ok (map_option (\<lambda>out. add_all out (List.map_filter (live A b) order)) out), empty_bucket (length (chunk_list b)))"
  by (cases out)
    (simp_all add: bucket_Reset_def add_items_live [OF inv] empty_bucket_def map_replicate_const Let_def)

lemma bucket_Init_result:
  "bucket_Init n = (if n = 0 then Err (Plain ''fmt.Errorf'' ''maxBytes cannot be zero'' None)
     else if maxBucketSize \<le> n then Err (Plain ''fmt.Errorf'' ''too big maxBytes'' None)
     else Ok (empty_bucket ((n + chunkSize - 1) div chunkSize)))"
  by (simp add: bucket_Init_def bucket_Reset_def Let_def empty_bucket_def)

lemma chunks_bound:
  assumes "0 < n" and "n < 2 ^ 40"
  shows "0 < (n + chunkSize - 1) div chunkSize" and "(n + chunkSize - 1) div chunkSize * chunkSize \<le> 2 ^ 40"
proof -
  show "0 < (n + chunkSize - 1) div chunkSize" using assms(1) by (simp add: div_greater_zero_iff)
  have "(n + chunkSize - 1) div chunkSize \<le> (2 ^ 40 + chunkSize - 1) div chunkSize"
    using assms(2) by (intro div_le_mono) simp
  also have "\<dots> = 2 ^ 24" by (simp add: chunkSize_def)
  finally show "(n + chunkSize - 1) div chunkSize * chunkSize \<le> 2 ^ 40" by (simp add: chunkSize_def)
qed

text \<open>A mutator that changes the value in place and keeps its length.\<close>

lemma stored_at_write_back:
  assumes "stored_at b j k' v'" and "ci < length (chunk_list b)"
    and "chunk_list b ! ci = Some c" and "off + length xs \<le> length (c_mem c)"
    and "j div chunkSize = ci \<Longrightarrow> j mod chunkSize + item_len k' v' \<le> off \<or> off + length xs \<le> j mod chunkSize"
  shows "stored_at (write_back b ci off xs) j k' v'"
proof (cases "j div chunkSize = ci")
  case True
  then show ?thesis
    using assms slice_blit_before [of off xs "c_mem c" "j mod chunkSize + item_len k' v'"]
      slice_blit_after [of off xs "c_mem c" "j mod chunkSize" "j mod chunkSize + item_len k' v'"]
    by (auto simp: stored_at_def write_back_def)
qed (use assms in \<open>auto simp: stored_at_def write_back_def\<close>)

lemma stored_at_new_value:
  assumes s: "stored_at b i k cur" and len: "length new = length cur"
  shows "stored_at (write_back b (i div chunkSize) (i mod chunkSize + 4 + length k) new) i k new"
proof -
  let ?o = "i mod chunkSize"
  obtain c where c: "i div chunkSize < length (chunk_list b)" "chunk_list b ! (i div chunkSize) = Some c"
    "length (c_mem c) = chunkSize" "?o + item_len k cur < chunkSize"
    and sl: "slice ?o (?o + item_len k cur) (c_mem c) = item_bytes k cur"
    using s by (auto simp: stored_at_def)
  let ?m = "blit (c_mem c) (?o + 4 + length k) new"
  have fits: "?o + 4 + length k + length new \<le> length (c_mem c)" using c len by simp
  have "slice ?o (?o + 4 + length k) ?m = slice ?o (?o + (4 + length k)) (c_mem c)"
    using slice_blit_before [OF fits] by (simp add: add.assoc)
  also have "\<dots> = slice 0 (4 + length k) (slice ?o (?o + item_len k cur) (c_mem c))"
    by (simp add: slice_slice)
  also have "\<dots> = kvLenBuf (length k) (length cur) @ k"
    unfolding sl by (simp add: slice_def item_bytes_def)
  finally have "slice ?o (?o + 4 + length k) ?m @ slice (?o + 4 + length k) (?o + item_len k new) ?m
      = item_bytes k new"
    using slice_blit_same [OF fits] len by (simp add: item_bytes_def add.assoc)
  then have "slice ?o (?o + item_len k new) ?m = item_bytes k new"
    using slice_concat [of ?o "?o + 4 + length k" "?o + item_len k new" ?m] by simp
  then show ?thesis using c len fits by (auto simp: stored_at_def write_back_def)
qed

lemma write_back_simps [simp]:
  "kv_map (write_back b ci off xs) = kv_map b" "b_idx (write_back b ci off xs) = b_idx b"
  "b_gen (write_back b ci off xs) = b_gen b"
  "length (chunk_list (write_back b ci off xs)) = length (chunk_list b)"
  "Gnat (write_back b ci off xs) = Gnat b" "readable (write_back b ci off xs) v = readable b v"
  by (simp_all add: write_back_def Gnat_def bGen_def readable_def)

lemma live_write_back [simp]: "live A (write_back b ci off xs) = live A b"
  by (rule ext) (simp add: live_def cong: option.case_cong)

lemma write_back_chunk:
  assumes "ci < length (chunk_list b)" and "chunk_list b ! ci = Some c" and "off + length xs \<le> length (c_mem c)"
    and "\<And>c. Some c \<in> set (chunk_list b) \<Longrightarrow> length (c_mem c) = chunkSize"
  shows "Some c' \<in> set (chunk_list (write_back b ci off xs)) \<Longrightarrow> length (c_mem c') = chunkSize"
    and "j < length (chunk_list b) \<Longrightarrow>
      map_option c_len (chunk_list (write_back b ci off xs) ! j) = map_option c_len (chunk_list b ! j)"
proof -
  have "length (c_mem c) = chunkSize" using assms by (metis nth_mem)
  then show "Some c' \<in> set (chunk_list (write_back b ci off xs)) \<Longrightarrow> length (c_mem c') = chunkSize"
    using assms by (auto simp: write_back_def dest!: subsetD [OF set_update_subset_insert])
  show "j < length (chunk_list b) \<Longrightarrow>
      map_option c_len (chunk_list (write_back b ci off xs) ! j) = map_option c_len (chunk_list b ! j)"
    using assms(1,2) by (cases "ci = j") (simp_all add: write_back_def)
qed

lemma entry_ok_write_back:
  assumes e: "entry_ok b v' k' val'" and G: "Gnat b \<noteq> 0" and s: "stored_at b i k cur"
    and len: "length new = length cur"
    and sep: "readable b v' \<Longrightarrow> pos_idx v' + item_len k' val' \<le> i \<or> i + item_len k cur \<le> pos_idx v'"
  shows "entry_ok (write_back b (i div chunkSize) (i mod chunkSize + 4 + length k) new) v' k' val'"
proof -
  let ?b = "write_back b (i div chunkSize) (i mod chunkSize + 4 + length k) new" and ?j = "pos_idx v'"
  obtain c where c: "i div chunkSize < length (chunk_list b)" "chunk_list b ! (i div chunkSize) = Some c"
    "length (c_mem c) = chunkSize" "i mod chunkSize + item_len k cur < chunkSize"
    using s by (auto simp: stored_at_def)
  have keep: "stored_at ?b ?j k' val'" if st: "stored_at b ?j k' val'" and r: "readable b v'"
  proof (rule stored_at_write_back [OF st c(1,2)])
    assume "?j div chunkSize = i div chunkSize"
    then show "?j mod chunkSize + item_len k' val' \<le> i mod chunkSize + 4 + length k
        \<or> i mod chunkSize + 4 + length k + length new \<le> ?j mod chunkSize"
      using sep [OF r] same_chunk_order [of i chunkSize ?j "item_len k' val'"]
        same_chunk_order [of ?j chunkSize i "item_len k cur"] len by auto
  qed (use c len in simp)
  show ?thesis
    using e keep readable_iff [OF G entry_ok_gnat [OF e G]] by (auto simp: entry_ok_def)
qed

lemma write_back_inv:
  assumes inv: "bucket_inv A b" and v: "kv_map b h = Some v" "readable b v" "A h = Some (k, cur)"
    and len: "length new = length cur"
  shows "bucket_inv (A(h \<mapsto> (k, new)))
    (write_back b (pos_idx v div chunkSize) (pos_idx v mod chunkSize + 4 + length k) new)"
    (is "bucket_inv ?A ?b")
proof -
  note G = bucket_inv_Gnat [OF inv]
  have e: "entry_ok b v k cur" using bucket_inv_entry [OF inv v(1)] v(3) by auto
  have s: "stored_at b (pos_idx v) k cur" by (rule entry_ok_readable [OF e G v(2)])
  have sep: "separated A b" and mem: "\<And>c. Some c \<in> set (chunk_list b) \<Longrightarrow> length (c_mem c) = chunkSize"
    and idx: "b_idx b < length (chunk_list b) * chunkSize"
    and last: "case chunk_list b ! (b_idx b div chunkSize) of
          None \<Rightarrow> b_idx b mod chunkSize = 0 | Some c \<Rightarrow> c_len c = b_idx b mod chunkSize"
    using inv by (simp_all add: bucket_inv_def)
  obtain c where c: "pos_idx v div chunkSize < length (chunk_list b)"
    "chunk_list b ! (pos_idx v div chunkSize) = Some c"
    "pos_idx v mod chunkSize + 4 + length k + length new \<le> length (c_mem c)"
    using s len by (auto simp: stored_at_def)
  have new: "entry_ok ?b v k new"
    using e len stored_at_new_value [OF s len] by (auto simp: entry_ok_def)
  have entries: "\<exists>k' val'. ?A h' = Some (k', val') \<and> entry_ok ?b v' k' val'" if hv: "kv_map ?b h' = Some v'" for h' v'
  proof (cases "h' = h")
    case False
    obtain k' val' where a: "A h' = Some (k', val')" "entry_ok b v' k' val'"
      using bucket_inv_entry [OF inv, of h' v'] hv by auto
    have "entry_ok ?b v' k' val'"
      using entry_ok_write_back [OF a(2) G s len] sep v False hv a(1) by (auto simp: separated_def)
    then show ?thesis using a(1) False by simp
  qed (use hv v(1) new in simp)
  have sep': "separated ?A ?b"
    using sep len v(3) unfolding separated_def by (intro allI impI) (auto split: if_splits)
  have "b_idx b div chunkSize < length (chunk_list b)" using idx by (simp add: less_mult_imp_div_less)
  then have last': "case chunk_list ?b ! (b_idx b div chunkSize) of
          None \<Rightarrow> b_idx b mod chunkSize = 0 | Some c \<Rightarrow> c_len c = b_idx b mod chunkSize"
    using last write_back_chunk(2) [OF c mem, of "b_idx b div chunkSize"] by (auto split: option.splits)
  show ?thesis
    unfolding bucket_inv_def using inv G entries sep' last' write_back_chunk(1) [OF c mem]
    by (simp add: bucket_inv_def cong: option.case_cong)
qed

section \<open>Update and GetSet\<close>

abbreviation fits :: "byte list \<Rightarrow> byte list \<Rightarrow> bool" where
  "fits k v \<equiv> item_len k v < chunkSize"

definition bucket_find :: "(uint64 \<rightharpoonup> byte list \<times> byte list) \<Rightarrow> bucket \<Rightarrow> byte list \<Rightarrow> uint64 \<Rightarrow> byte list option" where
  "bucket_find A b k h = (case live A b h of Some (k', v) \<Rightarrow> if k' = k then Some v else None | None \<Rightarrow> None)"

lemma getLocked_miss:
  assumes "bucket_inv A b" and "bucket_find A b k h = None"
  shows "getLocked b k h = Err ErrNoData"
  using assms(2) getLocked_none [OF assms(1)] getLocked_other_key [OF assms(1)]
  by (auto simp: bucket_find_def split: option.splits if_splits)

lemma bucket_find_Some: "bucket_find A b k h = Some v \<longleftrightarrow> live A b h = Some (k, v)"
  by (auto simp: bucket_find_def split: option.splits if_splits)

lemma bucket_Get_find:
  assumes "bucket_inv A b"
  shows "bucket_Get b k h = (case bucket_find A b k h of Some v \<Rightarrow> Ok v | None \<Rightarrow> Err ErrNoData)"
proof (cases "bucket_find A b k h")
  case (Some v)
  then have "live A b h = Some (k, v)" by (simp add: bucket_find_Some)
  then show ?thesis by (rule getLocked_live [OF assms]) (simp add: bucket_Get_def Some)
qed (simp add: bucket_Get_def getLocked_miss [OF assms])

text \<open>A pair that does not fit is refused and nothing changes.\<close>

lemma setLocked_too_big:
  assumes "\<not> fits k v"
  shows "setLocked b k v h hasEvict fresh order =
    (Err (if length k \<ge> maxKeyLen then errKeyLenTooBig else if length v \<ge> maxKeyLen then errValLenTooBig
          else errKeyValLenExceedsChunkSize), b)"
  using assms by (simp add: setLocked_def Let_def)

lemma bucket_Update_hit:
  assumes inv: "bucket_inv A b" and hit: "bucket_find A b k h = Some cur"
    and m: "mutator (Some cur) = (left, Ok (v, False))" "length left = length cur"
  obtains b' where "bucket_Update b k h mutator e fresh order = (Ok None, b')"
    "bucket_inv (A(h \<mapsto> (k, left))) b'" "live (A(h \<mapsto> (k, left))) b' = (live A b)(h \<mapsto> (k, left))"
    "kv_map b' = kv_map b"
proof -
  have live: "live A b h = Some (k, cur)" using hit by (simp add: bucket_find_Some)
  obtain p where p: "getLocked b k h = Ok (cur, pos_idx p div chunkSize, pos_idx p mod chunkSize + 4 + length k)"
    "kv_map b h = Some p" "readable b p"
    by (rule getLocked_live [OF inv live])
  let ?b = "write_back b (pos_idx p div chunkSize) (pos_idx p mod chunkSize + 4 + length k) left"
  have A: "A h = Some (k, cur)" using live p(2,3) by (simp add: live_def)
  have "live (A(h \<mapsto> (k, left))) ?b = (live A b)(h \<mapsto> (k, left))"
    using p(2,3) by (auto simp: live_def fun_eq_iff split: option.split)
  then show thesis
    using write_back_inv [OF inv p(2,3) A m(2)] p(1) m(1)
    by (intro that [of ?b]) (simp_all add: bucket_Update_def)
qed

lemma bucket_Update_miss:
  assumes inv: "bucket_inv A b" and miss: "bucket_find A b k h = None" and fresh: "length fresh = chunkSize"
    and m: "mutator None = (left, Ok (v, True))" "fits k v"
  obtains ev b' where "bucket_Update b k h mutator e fresh order = (Ok ev, b')"
    "ev = None \<or> ev = Some newItems" "set_result A b h k v b'"
proof -
  obtain ev b' where s: "setLocked b k v h e fresh order = (Ok ev, b')" "ev = None \<or> ev = Some newItems"
    "set_result A b h k v b'"
    by (rule setLocked_inv [OF inv fresh m(2)])
  show thesis using s m(1) getLocked_miss [OF inv miss]
    by (intro that [of ev b']) (simp_all add: bucket_Update_def)
qed

lemma bucket_GetSet_result:
  assumes inv: "bucket_inv A b" and fresh: "length fresh = chunkSize"
    and p: "provided = Inr v" "fits k v"
  obtains (hit) cur where "bucket_find A b k h = Some cur"
      "bucket_GetSet b k h provided e fresh order = (Ok (cur, None), b)"
  | (miss) ev b' where "bucket_find A b k h = None" "bucket_GetSet b k h provided e fresh order = (Ok (v, ev), b')"
      "ev = None \<or> ev = Some newItems" "set_result A b h k v b'"
proof (cases "bucket_find A b k h")
  case None
  obtain ev b' where s: "setLocked b k v h e fresh order = (Ok ev, b')" "ev = None \<or> ev = Some newItems"
    "set_result A b h k v b'"
    by (rule setLocked_inv [OF inv fresh p(2)])
  show thesis using s p(1) getLocked_miss [OF inv None] None
    by (intro miss [of ev b']) (simp_all add: bucket_GetSet_def)
next
  case (Some cur)
  then have "live A b h = Some (k, cur)" by (simp add: bucket_find_Some)
  then show thesis by (rule getLocked_live [OF inv]) (use Some hit in \<open>simp add: bucket_GetSet_def\<close>)
qed

section \<open>The cache\<close>

text \<open>The hash function \<open>xxhash.Sum64\<close> is the argument \<open>Sum64\<close>.\<close>

record Cache =
  buckets :: "bucket list"
  onEvict_set :: bool

fun init_buckets :: "nat \<Rightarrow> nat \<Rightarrow> (go_error, bucket list) outcome" where
  "init_buckets 0 maxBucketBytes = Ok []"
| "init_buckets (Suc n) maxBucketBytes =
     (case bucket_Init maxBucketBytes of
        Ok b \<Rightarrow>
          (case init_buckets n maxBucketBytes of
             Ok bs \<Rightarrow> Ok (b # bs) | Err e \<Rightarrow> Err e | Crash msg \<Rightarrow> Crash msg)
      | Err e \<Rightarrow> Err e
      | Crash msg \<Rightarrow> Crash msg)"

definition Cache_New :: "int \<Rightarrow> bool \<Rightarrow> (go_error, Cache) outcome" where
  "Cache_New maxBytes onEvict =
     (if maxBytes \<le> 0 then Err (Plain ''fmt.Errorf'' ''maxBytes must be greater than 0'' None)
      else
        (let maxBucketBytes =
               nat (go_div (int64 (maxBytes + int bucketsCount - 1)) (int bucketsCount) mod 2 ^ 64) in
         case init_buckets bucketsCount maxBucketBytes of
           Ok bs \<Rightarrow> Ok \<lparr>buckets = bs, onEvict_set = onEvict\<rparr>
         | Err e \<Rightarrow> Err e
         | Crash msg \<Rightarrow> Crash msg))"

definition bucket_of :: "uint64 \<Rightarrow> nat" where
  "bucket_of h = unat (h mod 512)"

definition put_bucket :: "Cache \<Rightarrow> uint64 \<Rightarrow> 'r \<times> bucket \<Rightarrow> 'r \<times> Cache" where
  "put_bucket c h rb = (fst rb, c\<lparr>buckets := (buckets c)[bucket_of h := snd rb]\<rparr>)"

definition Cache_Update :: "(byte list \<Rightarrow> uint64) \<Rightarrow> Cache \<Rightarrow> byte list \<Rightarrow> mutator \<Rightarrow> byte list \<Rightarrow> uint64 list
    \<Rightarrow> (go_error, Items option) outcome \<times> Cache" where
  "Cache_Update Sum64 c k mutator fresh order =
     (let h = Sum64 k in
      put_bucket c h (bucket_Update (buckets c ! bucket_of h) k h mutator (onEvict_set c) fresh order))"

definition Cache_GetSet :: "(byte list \<Rightarrow> uint64) \<Rightarrow> Cache \<Rightarrow> byte list \<Rightarrow> go_error + byte list \<Rightarrow> byte list
    \<Rightarrow> uint64 list \<Rightarrow> (go_error, byte list \<times> Items option) outcome \<times> Cache" where
  "Cache_GetSet Sum64 c k provided fresh order =
     (let h = Sum64 k in
      put_bucket c h (bucket_GetSet (buckets c ! bucket_of h) k h provided (onEvict_set c) fresh order))"

definition Cache_Set :: "(byte list \<Rightarrow> uint64) \<Rightarrow> Cache \<Rightarrow> byte list \<Rightarrow> byte list \<Rightarrow> byte list \<Rightarrow> uint64 list
    \<Rightarrow> (go_error, Items option) outcome \<times> Cache" where
  "Cache_Set Sum64 c k v fresh order =
     (let h = Sum64 k in
      put_bucket c h (bucket_Set (buckets c ! bucket_of h) k v h (onEvict_set c) fresh order))"

definition Cache_Get :: "(byte list \<Rightarrow> uint64) \<Rightarrow> Cache \<Rightarrow> byte list \<Rightarrow> (go_error, byte list) outcome" where
  "Cache_Get Sum64 c k = (let h = Sum64 k in bucket_Get (buckets c ! bucket_of h) k h)"

definition Cache_Del :: "(byte list \<Rightarrow> uint64) \<Rightarrow> Cache \<Rightarrow> byte list \<Rightarrow> Cache" where
  "Cache_Del Sum64 c k =
     (let h = Sum64 k in c\<lparr>buckets := (buckets c)[bucket_of h := bucket_Del (buckets c ! bucket_of h) h]\<rparr>)"

fun reset_buckets :: "bucket list \<Rightarrow> nat \<Rightarrow> (nat \<Rightarrow> uint64 list) \<Rightarrow> Items option
    \<Rightarrow> (go_error, Items option) outcome \<times> bucket list" where
  "reset_buckets [] i order evicted = (Ok evicted, [])"
| "reset_buckets (b # bs) i order evicted =
     (case bucket_Reset b (order i) evicted of
        (Ok evicted, b) \<Rightarrow> (case reset_buckets bs (Suc i) order evicted of (r, bs) \<Rightarrow> (r, b # bs))
      | (Err e, b) \<Rightarrow> (Err e, b # bs)
      | (Crash msg, b) \<Rightarrow> (Crash msg, b # bs))"

text \<open>The value is what the eviction callback is called with, if it is called.\<close>

definition Cache_Reset :: "Cache \<Rightarrow> (nat \<Rightarrow> uint64 list) \<Rightarrow> (go_error, Items option) outcome \<times> Cache" where
  "Cache_Reset c order =
     (case reset_buckets (buckets c) 0 order (if onEvict_set c then Some newItems else None) of
        (Ok evicted, bs) \<Rightarrow>
          (Ok (case evicted of Some items \<Rightarrow> if Count items > 0 then Some items else None | None \<Rightarrow> None),
           c\<lparr>buckets := bs\<rparr>)
      | (Err e, bs) \<Rightarrow> (Err e, c\<lparr>buckets := bs\<rparr>)
      | (Crash msg, bs) \<Rightarrow> (Crash msg, c\<lparr>buckets := bs\<rparr>))"

section \<open>The invariant of the cache\<close>

definition cache_inv :: "(byte list \<Rightarrow> uint64) \<Rightarrow> (uint64 \<rightharpoonup> byte list \<times> byte list) \<Rightarrow> Cache \<Rightarrow> bool" where
  "cache_inv Sum64 A c \<longleftrightarrow>
     length (buckets c) = bucketsCount
     \<and> (\<forall>i<bucketsCount. bucket_inv A (buckets c ! i) \<and> (\<forall>h\<in>dom (kv_map (buckets c ! i)). bucket_of h = i))
     \<and> (\<forall>h k v. A h = Some (k, v) \<longrightarrow> Sum64 k = h)"

definition cache_live :: "(uint64 \<rightharpoonup> byte list \<times> byte list) \<Rightarrow> Cache \<Rightarrow> uint64 \<rightharpoonup> byte list \<times> byte list" where
  "cache_live A c h = live A (buckets c ! bucket_of h) h"

definition cache_find :: "(byte list \<Rightarrow> uint64) \<Rightarrow> (uint64 \<rightharpoonup> byte list \<times> byte list) \<Rightarrow> Cache
    \<Rightarrow> byte list \<Rightarrow> byte list option" where
  "cache_find Sum64 A c k = bucket_find A (buckets c ! bucket_of (Sum64 k)) k (Sum64 k)"

lemma bucket_of_less [simp]: "bucket_of h < bucketsCount"
proof -
  have "unat (h mod 512) = unat h mod 512" by (simp add: unat_mod)
  then show ?thesis by (simp add: bucket_of_def bucketsCount_def)
qed

lemma bucket_inv_cong:
  assumes inv: "bucket_inv A b" and eq: "\<And>h. h \<in> dom (kv_map b) \<Longrightarrow> A' h = A h"
  shows "bucket_inv A' b" and "live A' b = live A b"
proof -
  have "separated A' b"
    unfolding separated_def
  proof (intro allI impI)
    fix h1 h2 v1 v2 k1 w1 k2 w2
    assume a: "h1 \<noteq> h2" "kv_map b h1 = Some v1" "kv_map b h2 = Some v2" "readable b v1" "readable b v2"
      "A' h1 = Some (k1, w1)" "A' h2 = Some (k2, w2)"
    then have "A h1 = Some (k1, w1)" "A h2 = Some (k2, w2)" using eq [OF domI] by metis+
    then show "pos_idx v1 + item_len k1 w1 \<le> pos_idx v2 \<or> pos_idx v2 + item_len k2 w2 \<le> pos_idx v1"
      using inv a unfolding bucket_inv_def separated_def by blast
  qed
  moreover have "\<exists>k val. A' h = Some (k, val) \<and> entry_ok b v k val" if "kv_map b h = Some v" for h v
    using bucket_inv_entry [OF inv that] eq [of h] that by (simp add: domI)
  ultimately show "bucket_inv A' b" using inv by (simp add: bucket_inv_def)
  show "live A' b = live A b"
    using eq by (auto simp: live_def fun_eq_iff dom_def split: option.split)
qed

lemma cache_inv_bucket:
  assumes "cache_inv Sum64 A c"
  shows "bucket_inv A (buckets c ! bucket_of h)"
    and "h' \<in> dom (kv_map (buckets c ! bucket_of h)) \<Longrightarrow> bucket_of h' = bucket_of h"
    and "A h = Some (k, v) \<Longrightarrow> Sum64 k = h" and "length (buckets c) = bucketsCount"
  using assms bucket_of_less [of h] unfolding cache_inv_def by blast+

lemma cache_Get_find:
  assumes "cache_inv Sum64 A c"
  shows "Cache_Get Sum64 c k = (case cache_find Sum64 A c k of Some v \<Rightarrow> Ok v | None \<Rightarrow> Err ErrNoData)"
  using cache_inv_bucket(1) [OF assms] bucket_Get_find [of A "buckets c ! bucket_of (Sum64 k)"]
  by (simp add: Cache_Get_def cache_find_def Let_def)

text \<open>Replacing the bucket of the hash.\<close>

lemma put_bucket_inv:
  assumes inv: "cache_inv Sum64 A c" and h: "h = Sum64 k"
    and b': "bucket_inv (A(h \<mapsto> (k, v))) b'"
    "dom (kv_map b') \<subseteq> insert h (dom (kv_map (buckets c ! bucket_of h)))"
  shows "cache_inv Sum64 (A(h \<mapsto> (k, v))) (c\<lparr>buckets := (buckets c)[bucket_of h := b']\<rparr>)"
    and "cache_live (A(h \<mapsto> (k, v))) (c\<lparr>buckets := (buckets c)[bucket_of h := b']\<rparr>) h' =
      (if bucket_of h' = bucket_of h then live (A(h \<mapsto> (k, v))) b' h' else cache_live A c h')"
proof -
  let ?A = "A(h \<mapsto> (k, v))" and ?bs = "(buckets c)[bucket_of h := b']"
  note len = cache_inv_bucket(4) [OF inv]
  have same: "bucket_inv ?A (buckets c ! i) \<and> live ?A (buckets c ! i) = live A (buckets c ! i)"
    if i: "i < bucketsCount" "i \<noteq> bucket_of h" for i
  proof -
    have "bucket_inv A (buckets c ! i)" "\<forall>h\<in>dom (kv_map (buckets c ! i)). bucket_of h = i"
      using inv i(1) by (auto simp: cache_inv_def)
    moreover from this(2) have "h \<notin> dom (kv_map (buckets c ! i))" using i(2) by auto
    ultimately show ?thesis using bucket_inv_cong [of A "buckets c ! i" ?A] by (metis fun_upd_other)
  qed
  have each: "bucket_inv ?A (?bs ! i) \<and> (\<forall>h\<in>dom (kv_map (?bs ! i)). bucket_of h = i)" if i: "i < bucketsCount" for i
  proof (cases "i = bucket_of h")
    case True
    then show ?thesis
      using b' cache_inv_bucket(2) [OF inv, of _ h] len i by (auto simp: nth_list_update)
  next
    case False
    then show ?thesis using same [OF i] inv i by (simp add: cache_inv_def)
  qed
  have hash: "Sum64 k' = h'" if "?A h' = Some (k', v')" for h' k' v'
    using that h cache_inv_bucket(3) [OF inv, of h'] by (auto split: if_splits)
  have "buckets (c\<lparr>buckets := ?bs\<rparr>) = ?bs" "length ?bs = bucketsCount" using len by simp_all
  then show "cache_inv Sum64 ?A (c\<lparr>buckets := ?bs\<rparr>)"
    unfolding cache_inv_def using each hash by metis
  show "cache_live ?A (c\<lparr>buckets := ?bs\<rparr>) h' =
      (if bucket_of h' = bucket_of h then live ?A b' h' else cache_live A c h')"
    using same [of "bucket_of h'"] len by (simp add: cache_live_def nth_list_update)
qed

lemma cache_find_Some: "cache_find Sum64 A c k = Some v \<longleftrightarrow> cache_live A c (Sum64 k) = Some (k, v)"
  by (simp add: cache_find_def cache_live_def bucket_find_Some)

lemma cache_find_live:
  "cache_find Sum64 A c k = (case cache_live A c (Sum64 k) of Some (k', v) \<Rightarrow> if k' = k then Some v else None | None \<Rightarrow> None)"
  by (simp add: cache_find_def cache_live_def bucket_find_def)

definition cache_valid :: "(byte list \<Rightarrow> uint64) \<Rightarrow> Cache \<Rightarrow> bool" where
  "cache_valid Sum64 c \<longleftrightarrow> (\<exists>A. cache_inv Sum64 A c)"

definition contents :: "(byte list \<Rightarrow> uint64) \<Rightarrow> Cache \<Rightarrow> byte list \<rightharpoonup> byte list" where
  "contents Sum64 c k = (case Cache_Get Sum64 c k of Ok v \<Rightarrow> Some v | Err e \<Rightarrow> None | Crash msg \<Rightarrow> None)"

lemma contents_find: "cache_inv Sum64 A c \<Longrightarrow> contents Sum64 c = cache_find Sum64 A c"
  by (rule ext) (simp add: contents_def cache_Get_find split: option.split)

text \<open>What a write promises to the user of the cache.\<close>

definition stored :: "(byte list \<Rightarrow> uint64) \<Rightarrow> Cache \<Rightarrow> byte list \<Rightarrow> byte list \<Rightarrow> Cache \<Rightarrow> bool" where
  "stored Sum64 c k v c' \<longleftrightarrow>
     cache_valid Sum64 c' \<and> contents Sum64 c' k = Some v
     \<and> (\<forall>k'. k' \<noteq> k \<longrightarrow> contents Sum64 c' k' = contents Sum64 c k' \<or> contents Sum64 c' k' = None)"

lemma set_result_stored:
  assumes inv: "cache_inv Sum64 A c"
    and res: "set_result A (buckets c ! bucket_of (Sum64 k)) (Sum64 k) k v b'"
  shows "stored Sum64 c k v (c\<lparr>buckets := (buckets c)[bucket_of (Sum64 k) := b']\<rparr>)"
proof -
  let ?h = "Sum64 k" and ?A = "A(Sum64 k \<mapsto> (k, v))" and ?c = "c\<lparr>buckets := (buckets c)[bucket_of (Sum64 k) := b']\<rparr>"
  have r: "bucket_inv ?A b'" "live ?A b' ?h = Some (k, v)"
    "dom (kv_map b') \<subseteq> insert ?h (dom (kv_map (buckets c ! bucket_of ?h)))"
    "\<And>h'. h' \<noteq> ?h \<Longrightarrow> live ?A b' h' = live A (buckets c ! bucket_of ?h) h' \<or> live ?A b' h' = None"
    using res by (auto simp: set_result_def)
  note inv' = put_bucket_inv(1) [OF inv refl r(1,3)] and live' = put_bucket_inv(2) [OF inv refl r(1,3)]
  have hit: "cache_find Sum64 ?A ?c k = Some v" using r(2) live' by (simp add: cache_find_Some)
  have "cache_find Sum64 ?A ?c k' = cache_find Sum64 A c k' \<or> cache_find Sum64 ?A ?c k' = None"
    if k': "k' \<noteq> k" for k'
  proof (cases "Sum64 k' = ?h")
    case True
    then show ?thesis using r(2) live' [of ?h] k' by (simp add: cache_find_live)
  next
    case False
    then show ?thesis using r(4) [OF False] live' [of "Sum64 k'"]
      by (auto simp: cache_find_live cache_live_def)
  qed
  then show ?thesis unfolding stored_def
    using hit inv' contents_find [OF inv'] contents_find [OF inv] by (auto simp: cache_valid_def)
qed

lemma Cache_Set_stored:
  assumes "cache_valid Sum64 c" and "length fresh = chunkSize" and "fits k v"
  obtains ev c' where "Cache_Set Sum64 c k v fresh order = (Ok ev, c')"
    "ev = None \<or> ev = Some newItems" "stored Sum64 c k v c'"
proof -
  obtain A where inv: "cache_inv Sum64 A c" using assms(1) by (auto simp: cache_valid_def)
  obtain ev b' where s: "setLocked (buckets c ! bucket_of (Sum64 k)) k v (Sum64 k) (onEvict_set c) fresh order = (Ok ev, b')"
    "ev = None \<or> ev = Some newItems" and r: "set_result A (buckets c ! bucket_of (Sum64 k)) (Sum64 k) k v b'"
    by (rule setLocked_inv [OF cache_inv_bucket(1) [OF inv] assms(2,3)])
  show thesis
    using s set_result_stored [OF inv r] by (intro that) (simp_all add: Cache_Set_def put_bucket_def bucket_Set_def Let_def)
qed

lemma Cache_GetSet_result:
  assumes "cache_valid Sum64 c" and "length fresh = chunkSize" and "fits k v"
  obtains (hit) cur where "contents Sum64 c k = Some cur" "Cache_GetSet Sum64 c k (Inr v) fresh order = (Ok (cur, None), c)"
  | (miss) ev c' where "contents Sum64 c k = None" "Cache_GetSet Sum64 c k (Inr v) fresh order = (Ok (v, ev), c')"
      "ev = None \<or> ev = Some newItems" "stored Sum64 c k v c'"
proof -
  obtain A where inv: "cache_inv Sum64 A c" using assms(1) by (auto simp: cache_valid_def)
  note find = contents_find [OF inv] cache_find_def
  show thesis
  proof (rule bucket_GetSet_result [OF cache_inv_bucket(1) [OF inv] assms(2) refl assms(3)])
    fix cur
    assume "bucket_find A (buckets c ! bucket_of (Sum64 k)) k (Sum64 k) = Some cur"
      "bucket_GetSet (buckets c ! bucket_of (Sum64 k)) k (Sum64 k) (Inr v) (onEvict_set c) fresh order =
        (Ok (cur, None), buckets c ! bucket_of (Sum64 k))"
    then show thesis by (intro hit [of cur]) (simp_all add: find Cache_GetSet_def put_bucket_def Let_def)
  next
    fix ev b'
    assume "bucket_find A (buckets c ! bucket_of (Sum64 k)) k (Sum64 k) = None"
      "bucket_GetSet (buckets c ! bucket_of (Sum64 k)) k (Sum64 k) (Inr v) (onEvict_set c) fresh order = (Ok (v, ev), b')"
      "ev = None \<or> ev = Some newItems" "set_result A (buckets c ! bucket_of (Sum64 k)) (Sum64 k) k v b'"
    then show thesis using set_result_stored [OF inv]
      by (intro miss) (simp_all add: find Cache_GetSet_def put_bucket_def Let_def)
  qed
qed

lemma Cache_Update_miss:
  assumes "cache_valid Sum64 c" and "length fresh = chunkSize" and "contents Sum64 c k = None"
    and "mutator None = (left, Ok (v, True))" and "fits k v"
  obtains ev c' where "Cache_Update Sum64 c k mutator fresh order = (Ok ev, c')"
    "ev = None \<or> ev = Some newItems" "stored Sum64 c k v c'"
proof -
  obtain A where inv: "cache_inv Sum64 A c" using assms(1) by (auto simp: cache_valid_def)
  have miss: "bucket_find A (buckets c ! bucket_of (Sum64 k)) k (Sum64 k) = None"
    using assms(3) by (simp add: contents_find [OF inv] cache_find_def)
  obtain ev b' where s: "bucket_Update (buckets c ! bucket_of (Sum64 k)) k (Sum64 k) mutator (onEvict_set c) fresh order = (Ok ev, b')"
    "ev = None \<or> ev = Some newItems" and r: "set_result A (buckets c ! bucket_of (Sum64 k)) (Sum64 k) k v b'"
    by (rule bucket_Update_miss [where mutator = mutator, OF cache_inv_bucket(1) [OF inv] miss assms(2,4,5)])
  show thesis
    using s set_result_stored [OF inv r] by (intro that) (simp_all add: Cache_Update_def put_bucket_def Let_def)
qed

lemma Cache_Update_hit:
  assumes "cache_valid Sum64 c" and "contents Sum64 c k = Some cur"
    and "mutator (Some cur) = (left, Ok (v, False))" and "length left = length cur"
  obtains c' where "Cache_Update Sum64 c k mutator fresh order = (Ok None, c')" "cache_valid Sum64 c'"
    "contents Sum64 c' = (contents Sum64 c)(k \<mapsto> left)"
proof -
  obtain A where inv: "cache_inv Sum64 A c" using assms(1) by (auto simp: cache_valid_def)
  let ?h = "Sum64 k" and ?A = "A(Sum64 k \<mapsto> (k, left))"
  have hit: "bucket_find A (buckets c ! bucket_of ?h) k ?h = Some cur"
    using assms(2) by (simp add: contents_find [OF inv] cache_find_def)
  then have live: "cache_live A c ?h = Some (k, cur)" by (simp add: bucket_find_Some cache_live_def)
  obtain b' where s: "bucket_Update (buckets c ! bucket_of ?h) k ?h mutator (onEvict_set c) fresh order = (Ok None, b')"
    and b': "bucket_inv ?A b'" "live ?A b' = (live A (buckets c ! bucket_of ?h))(?h \<mapsto> (k, left))"
    and m: "kv_map b' = kv_map (buckets c ! bucket_of ?h)"
    by (rule bucket_Update_hit [where mutator = mutator, OF cache_inv_bucket(1) [OF inv] hit assms(3,4)])
  have sub: "dom (kv_map b') \<subseteq> insert ?h (dom (kv_map (buckets c ! bucket_of ?h)))" using m by auto
  let ?c = "c\<lparr>buckets := (buckets c)[bucket_of ?h := b']\<rparr>"
  note inv' = put_bucket_inv(1) [OF inv refl b'(1) sub]
  have "cache_live ?A ?c = (cache_live A c)(?h \<mapsto> (k, left))"
    using put_bucket_inv(2) [OF inv refl b'(1) sub] b'(2) by (auto simp: fun_eq_iff cache_live_def)
  then have "cache_find Sum64 ?A ?c = (cache_find Sum64 A c)(k \<mapsto> left)"
    using live by (auto simp: fun_eq_iff cache_find_live)
  then show thesis
    using s inv' contents_find [OF inv'] contents_find [OF inv]
    by (intro that [of ?c]) (auto simp: Cache_Update_def put_bucket_def Let_def cache_valid_def)
qed

lemma Cache_Del_result:
  assumes "cache_valid Sum64 c"
  shows "cache_valid Sum64 (Cache_Del Sum64 c k)"
    and "contents Sum64 (Cache_Del Sum64 c k) k' =
      (if Sum64 k' = Sum64 k then None else contents Sum64 c k')"
proof -
  obtain A where inv: "cache_inv Sum64 A c" using assms(1) by (auto simp: cache_valid_def)
  let ?i = "bucket_of (Sum64 k)"
  let ?c = "c\<lparr>buckets := (buckets c)[?i := bucket_Del (buckets c ! ?i) (Sum64 k)]\<rparr>"
  note d = bucket_Del_inv [OF cache_inv_bucket(1) [OF inv], of "Sum64 k" "Sum64 k"]
  note len = cache_inv_bucket(4) [OF inv]
  have "bucket_inv A (buckets ?c ! i) \<and> (\<forall>h\<in>dom (kv_map (buckets ?c ! i)). bucket_of h = i)"
    if i: "i < bucketsCount" for i
    using inv d(1) i len by (cases "i = ?i") (auto simp: cache_inv_def bucket_Del_def split: if_splits)
  moreover have "length (buckets ?c) = bucketsCount" using len by simp
  ultimately have inv': "cache_inv Sum64 A ?c"
    using inv unfolding cache_inv_def by metis
  have "cache_live A ?c h = (if h = Sum64 k then None else cache_live A c h)" for h
    using d(2) len by (auto simp: cache_live_def nth_list_update)
  then have "cache_find Sum64 A ?c k' = (if Sum64 k' = Sum64 k then None else cache_find Sum64 A c k')"
    by (simp add: cache_find_live)
  then show "contents Sum64 (Cache_Del Sum64 c k) k' = (if Sum64 k' = Sum64 k then None else contents Sum64 c k')"
    using contents_find [OF inv'] contents_find [OF inv] by (simp add: Cache_Del_def Let_def)
  show "cache_valid Sum64 (Cache_Del Sum64 c k)" using inv' by (auto simp: cache_valid_def Cache_Del_def Let_def)
qed

section \<open>Construction and reset\<close>

lemma init_buckets_Ok:
  "bucket_Init m = Ok b \<Longrightarrow> init_buckets n m = Ok (replicate n b)"
  by (induction n) simp_all

definition empty_cache :: "nat list \<Rightarrow> bool \<Rightarrow> Cache" where
  "empty_cache ns e = \<lparr>buckets = map empty_bucket ns, onEvict_set = e\<rparr>"

lemma empty_cache_valid:
  assumes "length ns = bucketsCount" and "\<And>n. n \<in> set ns \<Longrightarrow> 0 < n \<and> n * chunkSize \<le> 2 ^ 40"
  shows "cache_valid Sum64 (empty_cache ns e)" and "contents Sum64 (empty_cache ns e) = Map.empty"
proof -
  have b: "bucket_inv Map.empty (map empty_bucket ns ! i)" "dom (kv_map (map empty_bucket ns ! i)) = {}"
    "live Map.empty (map empty_bucket ns ! i) = Map.empty" if "i < bucketsCount" for i
    using assms that empty_bucket_inv [of "ns ! i" Map.empty] by (simp_all add: empty_bucket_def)
  then have inv: "cache_inv Sum64 Map.empty (empty_cache ns e)"
    using assms(1) by (simp add: cache_inv_def empty_cache_def)
  then show "cache_valid Sum64 (empty_cache ns e)" by (auto simp: cache_valid_def)
  have "cache_live Map.empty (empty_cache ns e) h = None" for h
    using b(3) [OF bucket_of_less, of h] by (simp add: cache_live_def empty_cache_def)
  then show "contents Sum64 (empty_cache ns e) = Map.empty"
    using contents_find [OF inv] by (simp add: fun_eq_iff cache_find_live)
qed

lemma reset_buckets_result:
  assumes "\<And>b. b \<in> set bs \<Longrightarrow> bucket_inv A b"
  shows "reset_buckets bs i order out =
    (Ok (map_option (\<lambda>out. add_all out (concat (map (\<lambda>(b, j). List.map_filter (live A b) (order j)) (zip bs [i..<i + length bs])))) out),
     map (\<lambda>b. empty_bucket (length (chunk_list b))) bs)"
  using assms
proof (induction bs arbitrary: i out)
  case Nil
  then show ?case by (cases out) (simp_all add: add_all_def)
next
  case (Cons b bs)
  have "[i..<i + length (b # bs)] = i # [Suc i..<Suc i + length bs]"
    by (simp add: upt_conv_Cons del: upt_Suc)
  then show ?case
    using Cons.IH [of "Suc i"] Cons.prems
    by (cases out) (simp_all add: bucket_Reset_result [of A] add_all_def)
qed

text \<open>The hashes of the whole cache, in the order in which the loops meet them.\<close>

definition order_ok :: "Cache \<Rightarrow> (nat \<Rightarrow> uint64 list) \<Rightarrow> bool" where
  "order_ok c order \<longleftrightarrow>
     (\<forall>i<bucketsCount. distinct (order i) \<and> set (order i) = dom (kv_map (buckets c ! i)))"

definition all_pairs :: "(uint64 \<rightharpoonup> byte list \<times> byte list) \<Rightarrow> Cache \<Rightarrow> (nat \<Rightarrow> uint64 list) \<Rightarrow> (byte list \<times> byte list) list" where
  "all_pairs A c order = List.map_filter (cache_live A c) (concat (map order [0..<bucketsCount]))"

lemma all_pairs_contents:
  assumes inv: "cache_inv Sum64 A c" and ord: "order_ok c order"
  shows "distinct (all_pairs A c order)" and "set (all_pairs A c order) = {(k, v). contents Sum64 c k = Some v}"
proof -
  have live: "Sum64 k = h \<and> h \<in> dom (kv_map (buckets c ! bucket_of h))" if "cache_live A c h = Some (k, v)" for h k v
    using that cache_inv_bucket(3) [OF inv, of h k v] by (auto simp: cache_live_def live_def split: option.splits if_splits)
  have "distinct (concat (map order [0..<bucketsCount]))"
    by (rule distinct_concat_map [where g = bucket_of])
      (use ord inv in \<open>auto simp: order_ok_def cache_inv_def\<close>)
  then show "distinct (all_pairs A c order)" unfolding all_pairs_def
    by (rule distinct_map_filter) (metis live surj_pair)
  have "(k, v) \<in> set (all_pairs A c order) \<longleftrightarrow> contents Sum64 c k = Some v" for k v
  proof -
    have "(k, v) \<in> set (all_pairs A c order) \<longleftrightarrow>
        (\<exists>i<bucketsCount. \<exists>h \<in> set (order i). cache_live A c h = Some (k, v))"
      by (force simp: all_pairs_def set_map_filter)
    also have "\<dots> \<longleftrightarrow> cache_live A c (Sum64 k) = Some (k, v)"
      using live [of _ k v] bucket_of_less ord unfolding order_ok_def by metis
    finally show ?thesis by (simp add: contents_find [OF inv] cache_find_Some)
  qed
  then show "set (all_pairs A c order) = {(k, v). contents Sum64 c k = Some v}" by auto
qed

lemma bucket_inv_chunks:
  "bucket_inv A b \<Longrightarrow> 0 < length (chunk_list b) \<and> length (chunk_list b) * chunkSize \<le> 2 ^ 40"
  by (cases "chunk_list b") (simp_all add: bucket_inv_def)

lemma cleared_cache:
  assumes inv: "cache_inv Sum64 A c"
  defines "ns \<equiv> map (\<lambda>b. length (chunk_list b)) (buckets c)"
  shows "\<And>b. b \<in> set (buckets c) \<Longrightarrow> bucket_inv A b" and "cache_valid Sum64 (empty_cache ns e)"
    and "contents Sum64 (empty_cache ns e) = Map.empty"
proof -
  note len = cache_inv_bucket(4) [OF inv]
  show b: "bucket_inv A b" if "b \<in> set (buckets c)" for b
    using that inv len by (auto simp: cache_inv_def in_set_conv_nth)
  have "0 < n \<and> n * chunkSize \<le> 2 ^ 40" if "n \<in> set ns" for n
    using that bucket_inv_chunks [OF b] by (auto simp: ns_def)
  then show "cache_valid Sum64 (empty_cache ns e)" "contents Sum64 (empty_cache ns e) = Map.empty"
    using empty_cache_valid [of ns] len by (simp_all add: ns_def)
qed

text \<open>What a reset promises: every pair is handed to the callback once, and nothing stays.\<close>

lemma Cache_Reset_result:
  assumes "cache_valid Sum64 c" and ord: "order_ok c order" and e: "onEvict_set c"
  obtains ps ns where "Cache_Reset c order = (Ok (if ps = [] then None else Some (add_all newItems ps)), empty_cache ns True)"
    "distinct ps" "set ps = {(k, v). contents Sum64 c k = Some v}"
    "cache_valid Sum64 (empty_cache ns True)" "contents Sum64 (empty_cache ns True) = Map.empty"
proof -
  obtain A where inv: "cache_inv Sum64 A c" using assms(1) by (auto simp: cache_valid_def)
  note len = cache_inv_bucket(4) [OF inv]
  let ?ns = "map (\<lambda>b. length (chunk_list b)) (buckets c)"
  have "concat (map (\<lambda>(b, j). List.map_filter (live A b) (order j)) (zip (buckets c) [0..<length (buckets c)]))
      = concat (map (\<lambda>i. List.map_filter (cache_live A c) (order i)) [0..<bucketsCount])"
    unfolding zip_nth_upt [OF len] len map_map
  proof (rule arg_cong [where f = concat], rule map_cong [OF refl])
    fix i assume "i \<in> set [0..<bucketsCount]"
    then have "bucket_of h = i" if "h \<in> set (order i)" for h
      using that ord inv by (auto simp: order_ok_def cache_inv_def)
    then show "((\<lambda>(b, j). List.map_filter (live A b) (order j)) \<circ> (\<lambda>i. (buckets c ! i, i))) i
        = List.map_filter (cache_live A c) (order i)"
      by (auto simp: cache_live_def intro!: map_filter_cong)
  qed
  then have pairs: "concat (map (\<lambda>(b, j). List.map_filter (live A b) (order j)) (zip (buckets c) [0..<length (buckets c)]))
      = all_pairs A c order"
    by (simp add: all_pairs_def map_filter_concat comp_def)
  have "Cache_Reset c order =
      (Ok (if all_pairs A c order = [] then None else Some (add_all newItems (all_pairs A c order))), empty_cache ?ns True)"
    using e pairs by (simp add: Cache_Reset_def reset_buckets_result [OF cleared_cache(1) [OF inv]] Count_def add_all_def newItems_def
        empty_cache_def comp_def)
  then show thesis
    using that [of "all_pairs A c order" ?ns] all_pairs_contents [OF inv ord] cleared_cache(2,3) [OF inv] by simp
qed

lemma Cache_New_result:
  assumes "0 < maxBytes" and "maxBytes < 2 ^ 49 - 511"
  obtains ns where "Cache_New maxBytes e = Ok (empty_cache ns e)" "length ns = bucketsCount"
    "\<And>n. n \<in> set ns \<Longrightarrow> n = (nat ((maxBytes + 511) div 512) + chunkSize - 1) div chunkSize"
    "cache_valid Sum64 (empty_cache ns e)" "contents Sum64 (empty_cache ns e) = Map.empty"
proof -
  let ?m = "nat ((maxBytes + 511) div 512)"
  let ?n = "(?m + chunkSize - 1) div chunkSize"
  have m: "0 < ?m" "?m < 2 ^ 40" using assms by auto
  have "is_int64 (maxBytes + 511)" using assms by (simp add: is_int64_def)
  then have "nat (go_div (int64 (maxBytes + int bucketsCount - 1)) (int bucketsCount) mod 2 ^ 64) = ?m"
    using assms by (simp add: bucketsCount_def go_div_nonneg add.commute)
  moreover have "bucket_Init ?m = Ok (empty_bucket ?n)"
    using m by (simp add: bucket_Init_result maxBucketSize_def)
  ultimately have "Cache_New maxBytes e = Ok (empty_cache (replicate bucketsCount ?n) e)"
    using assms by (simp add: Cache_New_def init_buckets_Ok empty_cache_def)
  then show thesis
    using that [of "replicate bucketsCount ?n"] empty_cache_valid [of "replicate bucketsCount ?n"] chunks_bound [OF m] by simp
qed

section \<open>The contract of the cache\<close>

text \<open>What a user of \<open>Update\<close> and \<open>Reset\<close> relies on: a value that is there is changed in place, a new
  value is found afterwards, other values may get lost but never change, and a reset hands out what
  is there.\<close>

locale lossy_store =
  fixes valid :: "'c \<Rightarrow> bool"
    and lookup :: "'c \<Rightarrow> byte list \<rightharpoonup> byte list"
    and update :: "'c \<Rightarrow> byte list \<Rightarrow> mutator \<Rightarrow> byte list \<Rightarrow> uint64 list \<Rightarrow> (go_error, Items option) outcome \<times> 'c"
    and reset :: "'c \<Rightarrow> 'o \<Rightarrow> (go_error, Items option) outcome \<times> 'c"
    and callback :: "'c \<Rightarrow> bool"
    and ordered :: "'c \<Rightarrow> 'o \<Rightarrow> bool"
  assumes update_hit: "\<lbrakk>valid c; lookup c k = Some cur; m (Some cur) = (left, Ok (v, False)); length left = length cur\<rbrakk>
      \<Longrightarrow> \<exists>c'. update c k m fresh order = (Ok None, c') \<and> valid c' \<and> lookup c' = (lookup c)(k \<mapsto> left)
            \<and> callback c' = callback c"
    and update_miss: "\<lbrakk>valid c; length fresh = chunkSize; lookup c k = None; m None = (left, Ok (v, True)); fits k v\<rbrakk>
      \<Longrightarrow> \<exists>ev c'. update c k m fresh order = (Ok ev, c') \<and> (ev = None \<or> ev = Some newItems) \<and> valid c'
            \<and> lookup c' k = Some v \<and> callback c' = callback c
            \<and> (\<forall>k'. k' \<noteq> k \<longrightarrow> lookup c' k' = lookup c k' \<or> lookup c' k' = None)"
    and reset_all: "\<lbrakk>valid c; callback c; ordered c ord\<rbrakk>
      \<Longrightarrow> \<exists>ps c'. reset c ord = (Ok (if ps = [] then None else Some (add_all newItems ps)), c') \<and> distinct ps
            \<and> set ps = {(k, v). lookup c k = Some v} \<and> valid c' \<and> callback c' \<and> lookup c' = Map.empty"
begin

lemma start_or_bump:
  assumes "valid c" and "length fresh = chunkSize"
    and miss: "lookup c k = None \<Longrightarrow> m None = (left, Ok (start, True)) \<and> fits k start"
    and hit: "\<And>cur. lookup c k = Some cur \<Longrightarrow> m (Some cur) = (bump cur, Ok (bump cur, False)) \<and> length (bump cur) = length cur"
  obtains ev c' where "update c k m fresh order = (Ok ev, c')" "valid c'"
    "ev = None \<or> ev = Some newItems" "callback c' = callback c"
    "lookup c' k = Some (case lookup c k of None \<Rightarrow> start | Some cur \<Rightarrow> bump cur)"
    "\<And>k'. k' \<noteq> k \<Longrightarrow> lookup c' k' = lookup c k' \<or> lookup c' k' = None"
proof (cases "lookup c k")
  case None
  then show thesis using update_miss [OF assms(1,2) None, of m left start order] miss that by auto
next
  case (Some cur)
  then show thesis
    using update_hit [OF assms(1) Some, of m "bump cur" "bump cur" fresh order] hit that by auto
qed

end

interpretation xc: lossy_store "cache_valid Sum64" "contents Sum64" "Cache_Update Sum64" Cache_Reset
  onEvict_set order_ok for Sum64
proof unfold_locales
  fix c k cur left v fresh order and m :: mutator
  assume a: "cache_valid Sum64 c" "contents Sum64 c k = Some cur" "m (Some cur) = (left, Ok (v, False))" "length left = length cur"
  show "\<exists>c'. Cache_Update Sum64 c k m fresh order = (Ok None, c') \<and> cache_valid Sum64 c'
      \<and> contents Sum64 c' = (contents Sum64 c)(k \<mapsto> left) \<and> onEvict_set c' = onEvict_set c"
    by (rule Cache_Update_hit [where mutator = m, OF a]) (auto simp: Cache_Update_def put_bucket_def Let_def)
next
  fix c k left v order and m :: mutator and fresh :: "byte list"
  assume a: "cache_valid Sum64 c" "length fresh = chunkSize" "contents Sum64 c k = None" "m None = (left, Ok (v, True))" "fits k v"
  show "\<exists>ev c'. Cache_Update Sum64 c k m fresh order = (Ok ev, c') \<and> (ev = None \<or> ev = Some newItems)
      \<and> cache_valid Sum64 c' \<and> contents Sum64 c' k = Some v \<and> onEvict_set c' = onEvict_set c
      \<and> (\<forall>k'. k' \<noteq> k \<longrightarrow> contents Sum64 c' k' = contents Sum64 c k' \<or> contents Sum64 c' k' = None)"
    by (rule Cache_Update_miss [where mutator = m, OF a]) (auto simp: Cache_Update_def put_bucket_def Let_def stored_def)
next
  fix c order
  assume a: "cache_valid Sum64 c" "onEvict_set c" "order_ok c order"
  show "\<exists>ps c'. Cache_Reset c order = (Ok (if ps = [] then None else Some (add_all newItems ps)), c') \<and> distinct ps
      \<and> set ps = {(k, v). contents Sum64 c k = Some v} \<and> cache_valid Sum64 c' \<and> onEvict_set c' \<and> contents Sum64 c' = Map.empty"
    by (rule Cache_Reset_result [OF a(1,3,2)]) (force simp: empty_cache_def)
qed

section \<open>Runs\<close>

datatype cache_op =
    CSet "byte list" "byte list" "byte list" "uint64 list"
  | CGet "byte list"
  | CGetSet "byte list" "go_error + byte list" "byte list" "uint64 list"
  | CDel "byte list"
  | CReset "nat \<Rightarrow> uint64 list"

definition answer :: "('a \<Rightarrow> byte list option) \<Rightarrow> (go_error, 'a) outcome \<Rightarrow> (go_error, byte list option) outcome" where
  "answer f r = (case r of Ok x \<Rightarrow> Ok (f x) | Err e \<Rightarrow> Err e | Crash msg \<Rightarrow> Crash msg)"

fun cache_step :: "(byte list \<Rightarrow> uint64) \<Rightarrow> Cache \<Rightarrow> cache_op \<Rightarrow> (go_error, byte list option) outcome \<times> Cache" where
  "cache_step Sum64 c (CSet k v fresh order) = map_prod (answer (\<lambda>_. None)) id (Cache_Set Sum64 c k v fresh order)"
| "cache_step Sum64 c (CGet k) = (answer Some (Cache_Get Sum64 c k), c)"
| "cache_step Sum64 c (CGetSet k p fresh order) =
     map_prod (answer (\<lambda>x. Some (fst x))) id (Cache_GetSet Sum64 c k p fresh order)"
| "cache_step Sum64 c (CDel k) = (Ok None, Cache_Del Sum64 c k)"
| "cache_step Sum64 c (CReset order) = map_prod (answer (\<lambda>_. None)) id (Cache_Reset c order)"

text \<open>The map that loses nothing, and the answers it allows: a lookup finds the value stored last
  or nothing, and no call panics or meets corrupted data.\<close>

fun reference :: "(byte list \<rightharpoonup> byte list) \<Rightarrow> cache_op \<Rightarrow> (go_error, byte list option) outcome \<Rightarrow> (byte list \<rightharpoonup> byte list)" where
  "reference M (CSet k v fresh order) r = (if is_ok r then M(k \<mapsto> v) else M)"
| "reference M (CGet k) r = M"
| "reference M (CGetSet k p fresh order) r = (case r of Ok (Some v) \<Rightarrow> M(k \<mapsto> v) | _ \<Rightarrow> M)"
| "reference M (CDel k) r = M(k := None)"
| "reference M (CReset order) r = Map.empty"

fun agrees :: "(byte list \<rightharpoonup> byte list) \<Rightarrow> cache_op \<Rightarrow> (go_error, byte list option) outcome \<Rightarrow> bool" where
  "agrees M (CSet k v fresh order) r \<longleftrightarrow> (if fits k v then r = Ok None else \<not> is_ok r \<and> \<not> is_crash r)"
| "agrees M (CGet k) r \<longleftrightarrow> r = Err ErrNoData \<or> (\<exists>v. M k = Some v \<and> r = Ok (Some v))"
| "agrees M (CGetSet k p fresh order) r \<longleftrightarrow>
     (\<exists>v. M k = Some v \<and> r = Ok (Some v))
     \<or> (case p of Inl e \<Rightarrow> r = Err e
        | Inr v \<Rightarrow> if fits k v then r = Ok (Some v) else \<not> is_ok r \<and> \<not> is_crash r)"
| "agrees M (CDel k) r \<longleftrightarrow> r = Ok None"
| "agrees M (CReset order) r \<longleftrightarrow> r = Ok None"

fun run_agrees :: "(byte list \<Rightarrow> uint64) \<Rightarrow> Cache \<Rightarrow> (byte list \<rightharpoonup> byte list) \<Rightarrow> cache_op list \<Rightarrow> bool" where
  "run_agrees Sum64 c M [] = True"
| "run_agrees Sum64 c M (op # ops) =
     (case cache_step Sum64 c op of (r, c') \<Rightarrow> agrees M op r \<and> run_agrees Sum64 c' (reference M op r) ops)"

text \<open>Memory handed out for a chunk has the size of a chunk.\<close>

fun memory_ok :: "cache_op \<Rightarrow> bool" where
  "memory_ok (CSet k v fresh order) \<longleftrightarrow> length fresh = chunkSize"
| "memory_ok (CGetSet k p fresh order) \<longleftrightarrow> length fresh = chunkSize"
| "memory_ok op \<longleftrightarrow> True"

lemma Cache_Get_contents:
  assumes "cache_valid Sum64 c"
  shows "Cache_Get Sum64 c k = (case contents Sum64 c k of Some v \<Rightarrow> Ok v | None \<Rightarrow> Err ErrNoData)"
proof -
  obtain A where "cache_inv Sum64 A c" using assms by (auto simp: cache_valid_def)
  then show ?thesis by (simp add: cache_Get_find contents_find)
qed

lemma Cache_Set_too_big:
  assumes "cache_valid Sum64 c" and "\<not> fits k v"
  obtains e where "Cache_Set Sum64 c k v fresh order = (Err e, c)"
  using setLocked_too_big [OF assms(2)] by (simp add: Cache_Set_def bucket_Set_def put_bucket_def Let_def)

lemma Cache_GetSet_fails:
  assumes "cache_valid Sum64 c"
  shows "contents Sum64 c k = Some cur \<Longrightarrow> Cache_GetSet Sum64 c k p fresh order = (Ok (cur, None), c)"
    and "contents Sum64 c k = None \<Longrightarrow> Cache_GetSet Sum64 c k (Inl e) fresh order = (Err e, c)"
    and "contents Sum64 c k = None \<Longrightarrow> \<not> fits k v \<Longrightarrow> \<exists>e. Cache_GetSet Sum64 c k (Inr v) fresh order = (Err e, c)"
proof -
  obtain A where inv: "cache_inv Sum64 A c" using assms by (auto simp: cache_valid_def)
  let ?b = "buckets c ! bucket_of (Sum64 k)"
  have hit: "bucket_Get ?b k (Sum64 k) = Cache_Get Sum64 c k" by (simp add: Cache_Get_def Let_def)
  have miss: "getLocked ?b k (Sum64 k) = Err ErrNoData" if "contents Sum64 c k = None"
    using that getLocked_miss [OF cache_inv_bucket(1) [OF inv]] by (simp add: contents_find [OF inv] cache_find_def)
  show "Cache_GetSet Sum64 c k p fresh order = (Ok (cur, None), c)" if "contents Sum64 c k = Some cur"
    using hit Cache_Get_contents [OF assms, of k] that
    by (auto simp: Cache_GetSet_def bucket_GetSet_def bucket_Get_def put_bucket_def Let_def split: outcome.splits)
  show "Cache_GetSet Sum64 c k (Inl e) fresh order = (Err e, c)" if "contents Sum64 c k = None"
    using miss [OF that] by (simp add: Cache_GetSet_def bucket_GetSet_def put_bucket_def Let_def)
  show "\<exists>e. Cache_GetSet Sum64 c k (Inr v) fresh order = (Err e, c)" if "contents Sum64 c k = None" "\<not> fits k v"
    using miss [OF that(1)] setLocked_too_big [OF that(2), of ?b "Sum64 k" "onEvict_set c" fresh order]
    by (simp add: Cache_GetSet_def bucket_GetSet_def put_bucket_def Let_def)
qed

lemma Cache_Reset_empty:
  assumes "cache_valid Sum64 c"
  obtains r c' where "Cache_Reset c order = (Ok r, c')" "cache_valid Sum64 c'" "contents Sum64 c' = Map.empty"
proof -
  obtain A where inv: "cache_inv Sum64 A c" using assms by (auto simp: cache_valid_def)
  have "\<exists>r. Cache_Reset c order = (Ok r, empty_cache (map (\<lambda>b. length (chunk_list b)) (buckets c)) (onEvict_set c))"
    by (simp add: Cache_Reset_def reset_buckets_result [OF cleared_cache(1) [OF inv]] empty_cache_def comp_def
        split: option.split)
  then show thesis using that cleared_cache(2,3) [OF inv] by blast
qed

lemma stored_below:
  assumes "stored Sum64 c k v c'" and "contents Sum64 c \<subseteq>\<^sub>m M"
  shows "contents Sum64 c' \<subseteq>\<^sub>m M(k \<mapsto> v)"
  unfolding map_le_def
proof
  fix k' assume d: "k' \<in> dom (contents Sum64 c')"
  show "contents Sum64 c' k' = (M(k \<mapsto> v)) k'"
  proof (cases "k' = k")
    case False
    then have same: "contents Sum64 c' k' = contents Sum64 c k'"
      using assms(1) d by (auto simp: stored_def)
    then have "k' \<in> dom (contents Sum64 c)" using d by (simp add: domIff)
    then have "contents Sum64 c k' = M k'" by (rule bspec [OF assms(2) [unfolded map_le_def]])
    then show ?thesis using False same by simp
  qed (use assms(1) in \<open>simp add: stored_def\<close>)
qed

lemma getset_agrees:
  assumes valid: "cache_valid Sum64 c" and below: "contents Sum64 c \<subseteq>\<^sub>m M" and fresh: "length fresh = chunkSize"
    and step: "cache_step Sum64 c (CGetSet k p fresh order) = (r, c')"
  shows "agrees M (CGetSet k p fresh order) r \<and> cache_valid Sum64 c'
    \<and> contents Sum64 c' \<subseteq>\<^sub>m reference M (CGetSet k p fresh order) r"
proof (cases "contents Sum64 c k")
  case (Some cur)
  then have "M k = Some cur" using below by (auto simp: map_le_def dom_def)
  then show ?thesis using step valid below Cache_GetSet_fails(1) [OF valid Some] by (auto simp: answer_def fun_upd_idem)
next
  case None
  show ?thesis
  proof (cases p)
    case (Inl e)
    then show ?thesis using step valid below Cache_GetSet_fails(2) [OF valid None] by (auto simp: answer_def)
  next
    case (Inr v)
    show ?thesis
    proof (cases "fits k v")
      case True
      show ?thesis
        by (rule Cache_GetSet_result [OF valid fresh True, of order])
          (use step None Inr True below stored_below in \<open>auto simp: answer_def stored_def\<close>)
    next
      case False
      then obtain e where "Cache_GetSet Sum64 c k (Inr v) fresh order = (Err e, c)"
        using Cache_GetSet_fails(3) [OF valid None False] by blast
      then show ?thesis using step valid below Inr False by (auto simp: answer_def)
    qed
  qed
qed

lemma set_agrees:
  assumes valid: "cache_valid Sum64 c" and below: "contents Sum64 c \<subseteq>\<^sub>m M" and fresh: "length fresh = chunkSize"
    and step: "cache_step Sum64 c (CSet k v fresh order) = (r, c')"
  shows "agrees M (CSet k v fresh order) r \<and> cache_valid Sum64 c'
    \<and> contents Sum64 c' \<subseteq>\<^sub>m reference M (CSet k v fresh order) r"
proof (cases "fits k v")
  case True
  show ?thesis
    by (rule Cache_Set_stored [OF valid fresh True, of order])
      (use step True below stored_below in \<open>auto simp: answer_def stored_def\<close>)
next
  case False
  show ?thesis
    by (rule Cache_Set_too_big [OF valid False, of fresh order])
      (use step valid below False in \<open>auto simp: answer_def\<close>)
qed

lemma cache_step_agrees:
  assumes valid: "cache_valid Sum64 c" and below: "contents Sum64 c \<subseteq>\<^sub>m M" and mem: "memory_ok op"
    and step: "cache_step Sum64 c op = (r, c')"
  shows "agrees M op r \<and> cache_valid Sum64 c' \<and> contents Sum64 c' \<subseteq>\<^sub>m reference M op r"
proof (cases op)
  case (CSet k v fresh order)
  then show ?thesis using set_agrees [OF valid below] mem step by simp
next
  case (CGetSet k p fresh order)
  then show ?thesis using getset_agrees [OF valid below] mem step by simp
next
  case (CGet k)
  have "M k = Some v" if "contents Sum64 c k = Some v" for v
    using below that by (auto simp: map_le_def dom_def)
  then show ?thesis using CGet step valid below Cache_Get_contents [OF valid, of k]
    by (auto simp: answer_def split: option.splits)
next
  case (CDel k)
  then show ?thesis using step below Cache_Del_result [OF valid, of k]
    by (auto simp: map_le_def dom_def split: if_splits)
next
  case (CReset order)
  show ?thesis
    by (rule Cache_Reset_empty [OF valid, of order]) (use CReset step in \<open>auto simp: answer_def\<close>)
qed

lemma run_agrees_valid:
  assumes "cache_valid Sum64 c" and "contents Sum64 c \<subseteq>\<^sub>m M" and "list_all memory_ok ops"
  shows "run_agrees Sum64 c M ops"
  using assms
proof (induction ops arbitrary: c M)
  case (Cons op ops)
  obtain r c' where step: "cache_step Sum64 c op = (r, c')" by fastforce
  have "agrees M op r \<and> cache_valid Sum64 c' \<and> contents Sum64 c' \<subseteq>\<^sub>m reference M op r"
    by (rule cache_step_agrees [OF Cons.prems(1,2) _ step]) (use Cons.prems in simp)
  then show ?case using Cons.IH Cons.prems(3) step by simp
qed simp

section \<open>Properties\<close>



text \<open>after \<open>Set\<close> of a pair that fits, \<open>Get\<close> finds the value, and for every other key it finds what
  it found before or nothing.\<close>

theorem set_then_get:
  assumes "cache_valid Sum64 c" and "length fresh = chunkSize" and "fits k v"
  shows "\<exists>ev c'. Cache_Set Sum64 c k v fresh order = (Ok ev, c') \<and> Cache_Get Sum64 c' k = Ok v
    \<and> (\<forall>k'. k' = k \<or> Cache_Get Sum64 c' k' = Cache_Get Sum64 c k' \<or> Cache_Get Sum64 c' k' = Err ErrNoData)"
proof -
  obtain ev c' where s: "Cache_Set Sum64 c k v fresh order = (Ok ev, c')" and st: "stored Sum64 c k v c'"
    by (rule Cache_Set_stored [OF assms])
  then have valid: "cache_valid Sum64 c'" by (simp add: stored_def)
  have "Cache_Get Sum64 c' k' = Cache_Get Sum64 c k' \<or> Cache_Get Sum64 c' k' = Err ErrNoData" if "k' \<noteq> k" for k'
    using st that Cache_Get_contents [OF assms(1)] Cache_Get_contents [OF valid] by (auto simp: stored_def)
  moreover have "Cache_Get Sum64 c' k = Ok v"
    using st Cache_Get_contents [OF valid] by (simp add: stored_def)
  ultimately show ?thesis using s by blast
qed

lemma small_cache:
  obtains ns where "Cache_New 1000 e = Ok (empty_cache ns e)" "cache_valid Sum64 (empty_cache ns e)"
  by (rule Cache_New_result [of 1000 e Sum64]) (use that in simp_all)

theorem set_then_get_witness:
  "\<exists>c ev c'. Cache_New 1000 False = Ok c \<and>
     Cache_Set (\<lambda>k. 7) c [1] [2, 3] (replicate chunkSize 0) [] = (Ok ev, c') \<and> Cache_Get (\<lambda>k. 7) c' [1] = Ok [2, 3]"
proof -
  obtain ns where c: "Cache_New 1000 False = Ok (empty_cache ns False)" and v: "cache_valid (\<lambda>k. 7) (empty_cache ns False)"
    by (rule small_cache)
  have "fits [1] [2, 3]" by (simp add: chunkSize_def)
  then show ?thesis using set_then_get [OF v, of "replicate chunkSize 0" "[1]" "[2, 3]" "[]"] c by auto
qed

text \<open>C13: the eviction callback of \<open>Set\<close> never gets a pair: when the ring starts over, the pairs it
  drops are read after they have become unreadable, so the callback is called with no items and
  what was dropped is lost.\<close>

theorem evicted_pairs_lost:
  assumes "cache_valid Sum64 c" and "length fresh = chunkSize"
    and "Cache_Set Sum64 c k v fresh order = (Ok (Some items), c')"
  shows "Count items = 0"
proof (cases "fits k v")
  case True
  show ?thesis
    by (rule Cache_Set_stored [OF assms(1,2) True, of order]) (use assms(3) in \<open>auto simp: Count_def newItems_def\<close>)
next
  case False
  show ?thesis by (rule Cache_Set_too_big [OF assms(1) False, of fresh order]) (use assms(3) in simp)
qed

text \<open>Two pairs of 40000 bytes in a bucket of one chunk: the second one starts the ring over.\<close>

abbreviation example_hash :: "byte list \<Rightarrow> uint64" where
  "example_hash k \<equiv> if k = [1] then 7 else 519"

abbreviation example_value :: "byte list" where
  "example_value \<equiv> replicate 40000 0"

lemma example_first:
  assumes "length fresh = chunkSize"
  obtains b1 where "setLocked (empty_bucket 1) [1] example_value 7 True fresh [] = (Ok None, b1)"
    "bucket_inv [7 \<mapsto> ([1], example_value)] b1" "kv_map b1 = [7 \<mapsto> pack 0 1]" "b_idx b1 = 40005" "b_gen b1 = 1"
    "length (chunk_list b1) = 1"
proof -
  have inv: "bucket_inv Map.empty (empty_bucket 1)" by (rule empty_bucket_inv) (simp_all add: chunkSize_def)
  have fits: "fits [1] example_value" by (simp add: chunkSize_def)
  obtain i g moved clean b1 where wp: "write_pos (empty_bucket 1) (item_len [1] example_value) = (i, g, moved, clean)"
    and w: "wrote (empty_bucket 1) b1 i [1] example_value"
    and b1: "kv_map b1 = (kv_map (empty_bucket 1))(7 \<mapsto> pack i g)" "b_idx b1 = i + item_len [1] example_value" "b_gen b1 = g"
    and s: "setLocked (empty_bucket 1) [1] example_value 7 True fresh [] = (if clean then cleanLocked b1 [] True else (Ok None, b1))"
    by (rule setLocked_write [OF inv assms fits])
  have "write_pos (empty_bucket 1) 40005 = (0, 1, False, False)"
    by (simp add: write_pos_def empty_bucket_def chunkSize_def)
  then have v: "i = 0" "g = 1" "\<not> clean" using wp by simp_all
  have "bucket_inv [7 \<mapsto> ([1], example_value)] b1"
    by (rule setLocked_inv [OF inv assms fits, of 7 True "[]"]) (use s v(3) in \<open>auto simp: set_result_def\<close>)
  then show thesis
    using that b1 s v wrote_shape(1) [OF w inv b1(2)] by (simp add: empty_bucket_def)
qed

lemma example_wrap:
  assumes fresh: "length fresh = chunkSize" and inv: "bucket_inv A b"
    and b: "kv_map b = [7 \<mapsto> pack 0 1]" "b_idx b = 40005" "b_gen b = 1" "length (chunk_list b) = 1"
  obtains b2 where "setLocked b [2] example_value 519 True fresh [7, 519] = (Ok (Some newItems), b2)"
proof -
  have fits: "fits [2] example_value" by (simp add: chunkSize_def)
  obtain i g moved clean b1 where wp: "write_pos b (item_len [2] example_value) = (i, g, moved, clean)"
    and b1: "kv_map b1 = (kv_map b)(519 \<mapsto> pack i g)" "b_idx b1 = i + item_len [2] example_value" "b_gen b1 = g"
    and s: "setLocked b [2] example_value 519 True fresh [7, 519] = (if clean then cleanLocked b1 [7, 519] True else (Ok None, b1))"
    by (rule setLocked_write [OF inv fresh fits])
  have "write_pos b 40005 = (0, 2, True, True)"
    using b by (simp add: write_pos_def chunkSize_def next_gen_def maxGen_def)
  then have v: "i = 0" "g = 2" clean using wp by simp_all
  have "pos_idx (pack 0 1) = 0" "pos_gen (pack 0 1) = 1" by (simp_all add: pos_pack maxGen_def)
  then have "\<not> kept_by_clean b1 (pack 0 1)"
    using b1 v by (simp add: kept_by_clean_def bGen_def maxGen_def)
  then have ne: "filter (\<lambda>v. \<not> kept_by_clean b1 v) (map_values (kv_map b1) [7, 519]) \<noteq> []"
    using b1 b by (simp add: map_values_def map_filter_simps)
  have "add_items b1 (remdups (filter (\<lambda>v. \<not> kept_by_clean b1 v) (map_values (kv_map b1) [7, 519]))) newItems = Ok newItems"
    by (rule add_items_unreadable) (simp add: kept_by_clean_readable)
  then have "fst (cleanLocked b1 [7, 519] True) = Ok (Some newItems)"
    using ne by (simp add: cleanLocked_def Let_def)
  then show thesis using that s v(3) by (metis prod.collapse)
qed

theorem evicted_pairs_lost_witness:
  "\<exists>c c1 items c2. Cache_New 1000 True = Ok c
     \<and> Cache_Set example_hash c [1] example_value (replicate chunkSize 0) [] = (Ok None, c1)
     \<and> Cache_Set example_hash c1 [2] example_value (replicate chunkSize 0) [7, 519] = (Ok (Some items), c2)
     \<and> Count items = 0"
proof -
  let ?F = "replicate chunkSize 0 :: byte list"
  obtain ns where c: "Cache_New 1000 True = Ok (empty_cache ns True)" "length ns = bucketsCount"
    "\<And>n. n \<in> set ns \<Longrightarrow> n = (nat ((1000 + 511) div 512) + chunkSize - 1) div chunkSize"
    and valid: "cache_valid example_hash (empty_cache ns True)"
    by (rule Cache_New_result [of 1000 True example_hash]) (use that in simp_all)
  let ?c = "empty_cache ns True"
  have ix: "bucket_of 7 = 7" "bucket_of 519 = 7" by (simp_all add: bucket_of_def)
  have b0: "buckets ?c ! 7 = empty_bucket 1"
    using c(2) c(3) [of "ns ! 7"] by (simp add: empty_cache_def bucketsCount_def chunkSize_def)
  obtain b1 where s1: "setLocked (empty_bucket 1) [1] example_value 7 True ?F [] = (Ok None, b1)"
    and b1: "bucket_inv [7 \<mapsto> ([1], example_value)] b1" "kv_map b1 = [7 \<mapsto> pack 0 1]" "b_idx b1 = 40005" "b_gen b1 = 1"
      "length (chunk_list b1) = 1"
    by (rule example_first [of ?F]) simp_all
  let ?c1 = "?c\<lparr>buckets := (buckets ?c)[7 := b1]\<rparr>"
  have set1: "Cache_Set example_hash ?c [1] example_value ?F [] = (Ok None, ?c1)"
    using s1 b0 ix by (simp add: Cache_Set_def bucket_Set_def put_bucket_def empty_cache_def)
  have valid1: "cache_valid example_hash ?c1"
    by (rule Cache_Set_stored [OF valid, of ?F "[1]" example_value "[]"])
      (use set1 in \<open>auto simp: stored_def chunkSize_def\<close>)
  obtain b2 where s2: "setLocked b1 [2] example_value 519 True ?F [7, 519] = (Ok (Some newItems), b2)"
    by (rule example_wrap [OF length_replicate b1])
  have "Cache_Set example_hash ?c1 [2] example_value ?F [7, 519] = (Ok (Some newItems), ?c1\<lparr>buckets := (buckets ?c1)[7 := b2]\<rparr>)"
    using s2 ix c(2) by (simp add: Cache_Set_def bucket_Set_def put_bucket_def empty_cache_def bucketsCount_def)
  then show ?thesis using c(1) set1 evicted_pairs_lost [OF valid1 length_replicate] by blast
qed

definition capacity :: "Cache \<Rightarrow> nat" where
  "capacity c = sum_list (map (\<lambda>b. length (chunk_list b) * chunkSize) (buckets c))"

lemma capacity_bounds:
  assumes m: "m = nat ((maxBytes + 511) div 512)" and n: "n = (m + chunkSize - 1) div chunkSize"
    and pos: "0 < maxBytes"
  shows "32 * 2 ^ 20 \<le> 512 * (n * chunkSize)" and "maxBytes \<le> int (512 * (n * chunkSize))"
    and "int (512 * (n * chunkSize)) < maxBytes + 32 * 2 ^ 20"
proof -
  have mb: "maxBytes \<le> 512 * int m" "512 * int m \<le> maxBytes + 511" "0 < m" using m pos by auto
  have nb: "1 \<le> n" "m \<le> n * chunkSize" "n * chunkSize \<le> m + 65535"
  proof -
    have e: "n * chunkSize + (m + chunkSize - 1) mod chunkSize = m + chunkSize - 1" unfolding n by simp
    have r: "(m + chunkSize - 1) mod chunkSize < chunkSize" by simp
    show "m \<le> n * chunkSize" "n * chunkSize \<le> m + 65535" using e r by (auto simp: chunkSize_def)
    then show "1 \<le> n" using mb(3) by (cases n) auto
  qed
  show "32 * 2 ^ 20 \<le> 512 * (n * chunkSize)" using nb(1) by (simp add: chunkSize_def)
  show "maxBytes \<le> int (512 * (n * chunkSize))" using nb(2) mb(1) by linarith
  show "int (512 * (n * chunkSize)) < maxBytes + 32 * 2 ^ 20"
  proof -
    have "int (n * chunkSize) \<le> int m + 65535" using nb(3) by linarith
    then show ?thesis using mb(2) by simp
  qed
qed

text \<open>a new cache has room for at least the requested number of bytes and at least 32 MB, and for
  less than 32 MB more than requested.\<close>

theorem New_capacity:
  assumes "0 < maxBytes" and "maxBytes < 2 ^ 49 - 511"
  shows "\<exists>c. Cache_New maxBytes e = Ok c \<and> 32 * 2 ^ 20 \<le> capacity c
    \<and> maxBytes \<le> int (capacity c) \<and> int (capacity c) < maxBytes + 32 * 2 ^ 20"
proof -
  let ?m = "nat ((maxBytes + 511) div 512)"
  let ?n = "(?m + chunkSize - 1) div chunkSize"
  obtain ns where ns: "Cache_New maxBytes e = Ok (empty_cache ns e)" "length ns = bucketsCount" "\<And>n. n \<in> set ns \<Longrightarrow> n = ?n"
    by (rule Cache_New_result [OF assms, of e Sum64]) blast
  have "ns = replicate 512 ?n" using ns(2,3) by (simp add: replicate_eqI bucketsCount_def)
  then have cap: "capacity (empty_cache ns e) = 512 * (?n * chunkSize)"
    by (simp add: capacity_def empty_cache_def empty_bucket_def sum_list_replicate)
  then show ?thesis using ns(1) capacity_bounds [OF refl refl assms(1)] by auto
qed

theorem New_capacity_witness:
  "\<exists>c. Cache_New 1000 True = Ok c \<and> 32 * 2 ^ 20 \<le> capacity c \<and> int (capacity c) < 1000 + 32 * 2 ^ 20"
  using New_capacity [of 1000 True] by auto

end
