(* ===== verification/Go_Encoding.thy ===== *)
theory Go_Encoding
  imports Go_Strings
begin

text \<open>
  The encodings of the standard library the sources use: the little-endian byte order of
  \<open>encoding/binary\<close>, and the JSON text of \<open>encoding/json\<close> for objects whose members are strings, on
  ASCII text.  The reader accepts the text the printer produces, with every escape sequence of JSON
  strings; white space between tokens, which the printer never emits, is refused.
\<close>

section \<open>Little endian\<close>

definition le_put :: "nat \<Rightarrow> 'a::len word \<Rightarrow> byte list" where
  "le_put n w = map (\<lambda>i. ucast (drop_bit (8 * i) w)) [0..<n]"

fun le_get :: "byte list \<Rightarrow> 'a::len word" where
  "le_get [] = 0"
| "le_get (b # bs) = ucast b OR push_bit 8 (le_get bs)"

lemma length_le_put [simp]: "length (le_put n w) = n"
  by (simp add: le_put_def)

lemma bit_le_get:
  "bit (le_get bs :: 'a::len word) k \<longleftrightarrow> k < LENGTH('a) \<and> k div 8 < length bs \<and> bit (bs ! (k div 8)) (k mod 8)"
proof (induction bs arbitrary: k)
  case (Cons b bs)
  show ?case
  proof (cases "k < 8")
    case True
    then show ?thesis by (simp add: bit_simps)
  next
    case False
    then obtain j where j: "k = j + 8" by (metis add.commute le_add_diff_inverse not_less)
    have "\<not> bit b k" using False by (simp add: bit_word.rep_eq)
    moreover have "(j + 8) div 8 = Suc (j div 8)" by simp
    ultimately show ?thesis using Cons.IH [of j] by (auto simp: j bit_simps)
  qed
qed simp

lemma le_get_put:
  assumes "8 * n = LENGTH('a::len)"
  shows "le_get (le_put n w) = (w :: 'a word)"
proof (rule bit_word_eqI)
  fix k assume k: "k < LENGTH('a)"
  then have "k div 8 < n" using assms by (simp add: less_mult_imp_div_less mult.commute)
  then show "bit (le_get (le_put n w) :: 'a word) k = bit w k"
    using k by (simp add: bit_le_get le_put_def bit_simps)
qed

lemma le_get_append: "length bs = n \<Longrightarrow> LENGTH('a::len) \<le> 8 * n \<Longrightarrow> le_get (bs @ cs) = (le_get bs :: 'a word)"
  by (rule bit_word_eqI) (auto simp: bit_le_get nth_append)

section \<open>JSON strings\<close>

definition hex_char :: "nat \<Rightarrow> char" where
  "hex_char d = char_of (if d < 10 then 48 + d else 87 + d)"

definition hex_val :: "char \<Rightarrow> nat option" where
  "hex_val c =
     (let n = of_char c :: nat in
      if 48 \<le> n \<and> n \<le> 57 then Some (n - 48)
      else if 97 \<le> n \<and> n \<le> 102 then Some (n - 87)
      else if 65 \<le> n \<and> n \<le> 70 then Some (n - 55)
      else None)"

definition json_short :: "char \<Rightarrow> char option" where
  "json_short c =
     (let n = of_char c :: nat in
      if c = CHR 0x22 then Some (CHR 0x22)
      else if c = CHR 0x5C then Some (CHR 0x5C)
      else if n = 8 then Some (CHR ''b'')
      else if n = 12 then Some (CHR ''f'')
      else if n = 10 then Some (CHR ''n'')
      else if n = 13 then Some (CHR ''r'')
      else if n = 9 then Some (CHR ''t'')
      else None)"

definition json_char :: "char \<Rightarrow> string" where
  "json_char c =
     (case json_short c of
        Some e \<Rightarrow> [CHR 0x5C, e]
      | None \<Rightarrow>
          (let n = of_char c :: nat in
           if n < 32 \<or> c = CHR ''<'' \<or> c = CHR ''>'' \<or> c = CHR ''&''
           then [CHR 0x5C, CHR ''u'', CHR ''0'', CHR ''0'', hex_char (n div 16), hex_char (n mod 16)]
           else [c]))"

definition json_string :: "string \<Rightarrow> string" where
  "json_string s = CHR 0x22 # concat (map json_char s) @ [CHR 0x22]"

definition json_escape :: "char \<Rightarrow> char option" where
  "json_escape c =
     (if c = CHR 0x22 \<or> c = CHR 0x5C \<or> c = CHR 0x2F then Some c
      else if c = CHR ''b'' then Some (char_of (8::nat))
      else if c = CHR ''f'' then Some (char_of (12::nat))
      else if c = CHR ''n'' then Some (char_of (10::nat))
      else if c = CHR ''r'' then Some (char_of (13::nat))
      else if c = CHR ''t'' then Some (char_of (9::nat))
      else None)"

text \<open>Reads up to the closing quote; a \<open>\u\<close> escape above ASCII is outside the model.\<close>

fun json_unquote :: "string \<Rightarrow> (string \<times> string) option" where
  "json_unquote [] = None"
| "json_unquote (c # cs) =
     (if c = CHR 0x22 then Some ([], cs)
      else if c = CHR 0x5C
      then (case cs of
              [] \<Rightarrow> None
            | e # es \<Rightarrow>
                if e = CHR ''u''
                then (case es of
                        h3 # h2 # h1 # h0 # rest \<Rightarrow>
                          (case (hex_val h3, hex_val h2, hex_val h1, hex_val h0) of
                             (Some d3, Some d2, Some d1, Some d0) \<Rightarrow>
                               (let n = ((d3 * 16 + d2) * 16 + d1) * 16 + d0 in
                                if n < 128
                                then map_option (apfst (Cons (char_of n))) (json_unquote rest)
                                else None)
                           | _ \<Rightarrow> None)
                      | _ \<Rightarrow> None)
                else
                  (case json_escape e of
                     None \<Rightarrow> None
                   | Some c' \<Rightarrow> map_option (apfst (Cons c')) (json_unquote es)))
      else if (of_char c :: nat) < 32 then None
      else map_option (apfst (Cons c)) (json_unquote cs))"

declare json_unquote.simps(2) [simp del]

section \<open>Objects of strings\<close>

fun json_members :: "(string \<times> string) list \<Rightarrow> string" where
  "json_members [] = []"
| "json_members [(k, v)] = json_string k @ CHR '':'' # json_string v"
| "json_members ((k, v) # m # ms) = json_string k @ CHR '':'' # json_string v @ CHR '','' # json_members (m # ms)"

definition json_object :: "(string \<times> string) list \<Rightarrow> string" where
  "json_object ms = CHR ''{'' # json_members ms @ [CHR ''}'']"

definition expect :: "char \<Rightarrow> string \<Rightarrow> string option" where
  "expect c s = (case s of x # xs \<Rightarrow> if x = c then Some xs else None | [] \<Rightarrow> None)"

definition read_string :: "string \<Rightarrow> (string \<times> string) option" where
  "read_string s = (case expect (CHR 0x22) s of None \<Rightarrow> None | Some r \<Rightarrow> json_unquote r)"

definition read_member :: "string \<Rightarrow> ((string \<times> string) \<times> string) option" where
  "read_member s =
     (case read_string s of
        None \<Rightarrow> None
      | Some (k, r) \<Rightarrow>
          (case expect (CHR '':'') r of
             None \<Rightarrow> None
           | Some r \<Rightarrow>
               (case read_string r of None \<Rightarrow> None | Some (v, r) \<Rightarrow> Some ((k, v), r))))"

text \<open>The members after the first brace, at most one per character of the text.\<close>

fun read_members :: "nat \<Rightarrow> string \<Rightarrow> (string \<times> string) list option" where
  "read_members 0 s = None"
| "read_members (Suc n) s =
     (case read_member s of
        None \<Rightarrow> None
      | Some (m, r) \<Rightarrow>
          if r = [CHR ''}''] then Some [m]
          else (case expect (CHR '','') r of
                  None \<Rightarrow> None
                | Some r \<Rightarrow> map_option (Cons m) (read_members n r)))"

definition read_object :: "string \<Rightarrow> (string \<times> string) list option" where
  "read_object s =
     (case expect (CHR ''{'') s of
        None \<Rightarrow> None
      | Some r \<Rightarrow> if r = [CHR ''}''] then Some [] else read_members (length r) r)"

section \<open>Round trip\<close>

definition ascii :: "string \<Rightarrow> bool" where
  "ascii s \<longleftrightarrow> list_all (\<lambda>c. (of_char c :: nat) < 128) s"

lemma hex_val_char: "d < 16 \<Longrightarrow> hex_val (hex_char d) = Some d"
  by (auto simp: hex_val_def hex_char_def Let_def)

lemma hex_val_zero: "hex_val (CHR ''0'') = Some 0"
  by (simp add: hex_val_def)

lemma json_unquote_u:
  assumes "(of_char c :: nat) < 128"
  shows "json_unquote (CHR 0x5C # CHR ''u'' # CHR ''0'' # CHR ''0'' # hex_char (of_char c div 16) # hex_char (of_char c mod 16) # rest)
    = map_option (apfst (Cons c)) (json_unquote rest)"
proof -
  let ?n = "of_char c :: nat"
  have "hex_val (hex_char (?n div 16)) = Some (?n div 16)" "hex_val (hex_char (?n mod 16)) = Some (?n mod 16)"
    using assms by (simp_all add: hex_val_char)
  moreover have "?n div 16 * 16 + ?n mod 16 = ?n" by simp
  ultimately show ?thesis using assms
    by (subst json_unquote.simps) (simp add: hex_val_zero Let_def)
qed

lemma json_unquote_esc:
  "e \<noteq> CHR ''u'' \<Longrightarrow> json_escape e = Some c \<Longrightarrow>
   json_unquote (CHR 0x5C # e # rest) = map_option (apfst (Cons c)) (json_unquote rest)"
  by (subst json_unquote.simps) simp

lemma json_short_escape: "json_short c = Some e \<Longrightarrow> e \<noteq> CHR ''u'' \<and> json_escape e = Some c"
  by (auto simp: json_short_def json_escape_def Let_def char_of_eq_iff split: if_splits)

lemma json_short_None: "json_short c = None \<Longrightarrow> c \<noteq> CHR 0x22 \<and> c \<noteq> CHR 0x5C"
  by (auto simp: json_short_def)

lemma json_unquote_char:
  assumes "(of_char c :: nat) < 128"
  shows "json_unquote (json_char c @ rest) = map_option (apfst (Cons c)) (json_unquote rest)"
proof (cases "json_short c")
  case (Some e)
  then show ?thesis using json_short_escape [OF Some] by (simp add: json_char_def json_unquote_esc)
next
  case None
  show ?thesis
  proof (cases "(of_char c :: nat) < 32 \<or> c = CHR ''<'' \<or> c = CHR ''>'' \<or> c = CHR ''&''")
    case True
    then show ?thesis using None json_unquote_u [OF assms] by (simp add: json_char_def Let_def)
  next
    case False
    then have "json_char c = [c]" using None by (simp add: json_char_def Let_def)
    then show ?thesis using False json_short_None [OF None] by simp (subst json_unquote.simps, simp)
  qed
qed

lemma read_string_json: "ascii s \<Longrightarrow> read_string (json_string s @ rest) = Some (s, rest)"
proof -
  assume "ascii s"
  then have "json_unquote (concat (map json_char s) @ CHR 0x22 # rest) = Some (s, rest)"
  proof (induction s)
    case Nil
    show ?case by (simp add: json_unquote.simps)
  next
    case (Cons c s)
    then show ?case using json_unquote_char [of c] by (simp add: ascii_def)
  qed
  then show ?thesis by (simp add: read_string_def json_string_def expect_def)
qed

lemma read_member_json:
  "ascii k \<Longrightarrow> ascii v \<Longrightarrow> read_member (json_string k @ CHR '':'' # json_string v @ rest) = Some ((k, v), rest)"
  by (simp add: read_member_def read_string_json expect_def)

lemma read_members_json:
  assumes "ms \<noteq> []" and "list_all (\<lambda>(k, v). ascii k \<and> ascii v) ms" and "length ms \<le> n"
  shows "read_members n (json_members ms @ [CHR ''}'']) = Some ms"
  using assms
proof (induction ms arbitrary: n rule: json_members.induct)
  case (2 k v)
  then show ?case by (cases n) (simp_all add: read_member_json)
next
  case (3 k v m ms)
  then show ?case by (cases n) (simp_all add: read_member_json expect_def)
qed simp

lemma length_json_members: "length ms \<le> length (json_members ms)"
  by (induction ms rule: json_members.induct) (simp_all add: json_string_def)

lemma json_members_brace: "ms \<noteq> [] \<Longrightarrow> json_members ms @ [CHR ''}''] \<noteq> [CHR ''}'']"
  by (cases ms rule: json_members.cases) (simp_all add: json_string_def)

lemma read_object_json:
  assumes "list_all (\<lambda>(k, v). ascii k \<and> ascii v) ms"
  shows "read_object (json_object ms) = Some ms"
proof (cases "ms = []")
  case False
  then show ?thesis
    using read_members_json [OF False assms, of "Suc (length (json_members ms))"] length_json_members [of ms]
      json_members_brace [OF False]
    by (simp add: read_object_def json_object_def expect_def del: read_members.simps)
qed (simp add: read_object_def json_object_def expect_def)

end
