(* ===== verification/Xstats.thy ===== *)
theory Xstats
  imports Xcache Go_Encoding
begin

text \<open>
  Traffic statistics of sessions (\<open>src/xstats/service.go\<close>, \<open>src/xstats/utils.go\<close>): counters kept in
  the byte cache under the session id, changed in place, and handed out as reports when the cache is
  flushed.  The third-party \<open>uuid\<close> package is the argument \<open>uuid_text\<close> (\<open>FromBytes\<close> followed by
  \<open>String\<close>), the callback \<open>onData\<close> is the session data it fills in, and the time is an argument.
\<close>

section \<open>Counters\<close>

definition ParseUint64 :: "byte list \<Rightarrow> uint64" where
  "ParseUint64 d = (if length d < 8 then 0 else le_get (take 8 d))"

definition SetUint64 :: "uint64 \<Rightarrow> byte list \<Rightarrow> byte list" where
  "SetUint64 v d = (if length d < 8 then d else blit d 0 (le_put 8 v))"

definition ParseUint16 :: "byte list \<Rightarrow> uint16" where
  "ParseUint16 d = (if length d < 2 then 0 else le_get (take 2 d))"

definition SetUint16 :: "uint16 \<Rightarrow> byte list \<Rightarrow> byte list" where
  "SetUint16 v d = (if length d < 2 then d else blit d 0 (le_put 2 v))"

text \<open>\<open>binary.LittleEndian.PutUint64(d[i:], v)\<close>.\<close>

definition PutUint64 :: "byte list \<Rightarrow> nat \<Rightarrow> uint64 \<Rightarrow> (go_error, byte list) outcome" where
  "PutUint64 d i v = (if length d < i + 8 then Crash ''index out of range'' else Ok (blit d i (le_put 8 v)))"

definition RxTx :: "uint64 \<Rightarrow> uint64 \<Rightarrow> byte list \<Rightarrow> (go_error, byte list) outcome" where
  "RxTx rx tx d =
     (let d = (if d = [] then replicate 16 0 else d) in
      case PutUint64 d 0 rx of Ok d \<Rightarrow> PutUint64 d 8 tx | Err e \<Rightarrow> Err e | Crash msg \<Rightarrow> Crash msg)"

definition Rx :: "uint64 \<Rightarrow> byte list \<Rightarrow> (go_error, byte list) outcome" where
  "Rx rx d = PutUint64 (if d = [] then replicate 16 0 else d) 0 rx"

definition Tx :: "uint64 \<Rightarrow> byte list \<Rightarrow> (go_error, byte list) outcome" where
  "Tx tx d = PutUint64 (if d = [] then replicate 16 0 else d) 8 tx"

definition ParseRxTx :: "byte list \<Rightarrow> uint64 \<times> uint64" where
  "ParseRxTx d = (if length d < 16 then (0, 0) else (le_get (take 8 d), le_get (slice 8 16 d)))"

definition ParseRx :: "byte list \<Rightarrow> uint64" where
  "ParseRx d = (if length d < 8 then 0 else le_get (take 8 d))"

definition ParseTx :: "byte list \<Rightarrow> uint64" where
  "ParseTx d = (if length d < 16 then 0 else le_get (slice 8 16 d))"

definition AddRxTx :: "uint64 \<Rightarrow> uint64 \<Rightarrow> byte list \<Rightarrow> (go_error, byte list) outcome" where
  "AddRxTx drx dtx d =
     (if drx = 0 \<and> dtx = 0 then Ok d
      else (let (rx, tx) = ParseRxTx d in RxTx (rx + drx) (tx + dtx) d))"

definition AddRx :: "uint64 \<Rightarrow> byte list \<Rightarrow> (go_error, byte list) outcome" where
  "AddRx drx d = (if drx = 0 then Ok d else Rx (ParseRx d + drx) d)"

definition AddTx :: "uint64 \<Rightarrow> byte list \<Rightarrow> (go_error, byte list) outcome" where
  "AddTx dtx d = (if dtx = 0 then Ok d else Tx (ParseTx d + dtx) d)"

section \<open>The service\<close>

definition maxBytes :: int where "maxBytes = 32 * 2 ^ 20"

record SessionData =
  InstallationID :: string
  UserID :: string
  Country :: string

record Session =
  SessionID :: string
  s_data :: SessionData

record Report =
  r_session :: Session
  CreatedNano :: uint64
  DeltaRx :: uint64
  DeltaTx :: uint64
  DeltaTNano :: uint64

record Service =
  sessions :: Cache

text \<open>The JSON text of the session data: short names, empty fields left out.\<close>

definition text_bytes :: "string \<Rightarrow> byte list" where
  "text_bytes s = map (\<lambda>c. word_of_nat (of_char c)) s"

definition bytes_text :: "byte list \<Rightarrow> string" where
  "bytes_text bs = map (\<lambda>b. char_of (unat b)) bs"

definition data_members :: "SessionData \<Rightarrow> (string \<times> string) list" where
  "data_members d = filter (\<lambda>(k, v). v \<noteq> [])
     [(''i_id'', InstallationID d), (''u_id'', UserID d), (''c'', Country d)]"

definition Marshal :: "SessionData \<Rightarrow> byte list" where
  "Marshal d = text_bytes (json_object (data_members d))"

fun set_field :: "string \<times> string \<Rightarrow> SessionData \<Rightarrow> SessionData" where
  "set_field (k, v) d =
     (if k = ''i_id'' then d\<lparr>InstallationID := v\<rparr>
      else if k = ''u_id'' then d\<lparr>UserID := v\<rparr>
      else if k = ''c'' then d\<lparr>Country := v\<rparr>
      else d)"

text \<open>A text with a syntax error leaves the data as it is; the error is ignored.\<close>

definition Unmarshal :: "byte list \<Rightarrow> SessionData \<Rightarrow> SessionData" where
  "Unmarshal bs d = (case read_object (bytes_text bs) of None \<Rightarrow> d | Some ms \<Rightarrow> fold set_field ms d)"

definition no_data :: SessionData where
  "no_data = \<lparr>InstallationID = [], UserID = [], Country = []\<rparr>"

definition parse :: "(byte list \<Rightarrow> string) \<Rightarrow> byte list \<Rightarrow> byte list \<Rightarrow> uint64 \<Rightarrow> (go_error, Report) outcome" where
  "parse uuid_text k v nowNano =
     (if length v < 26 then Crash ''slice bounds out of range''
      else
        (let (rx, tx) = ParseRxTx (slice 0 16 v);
             created = ParseUint64 (slice 16 24 v);
             dataLen = unat (ParseUint16 (slice 24 26 v)) in
         if length v < 26 + dataLen then Crash ''slice bounds out of range''
         else
           Ok \<lparr>r_session = \<lparr>SessionID = uuid_text k, s_data = Unmarshal (slice 26 (26 + dataLen) v) no_data\<rparr>,
               CreatedNano = created, DeltaRx = rx, DeltaTx = tx, DeltaTNano = nowNano - created\<rparr>))"

definition toValue :: "Session \<Rightarrow> uint64 \<Rightarrow> uint64 \<Rightarrow> uint64 \<Rightarrow> (go_error, byte list) outcome" where
  "toValue session drx dtx nowNano =
     (let data = Marshal (s_data session);
          d = replicate (8 + 8 + 8 + 2 + length data) 0 in
      case RxTx drx dtx (slice 0 16 d) of
        Ok x \<Rightarrow>
          (let d = blit d 0 x;
               d = blit d 16 (SetUint64 nowNano (slice 16 24 d));
               d = blit d 24 (SetUint16 (word_of_nat (length data)) (slice 24 26 d)) in
           Ok (blit d 26 data))
      | Err e \<Rightarrow> Err e
      | Crash msg \<Rightarrow> Crash msg)"

text \<open>\<open>New\<close>: the flush loop, started at once, panics in \<open>time.NewTicker\<close> unless the interval is
  positive.\<close>

definition stats_New :: "int \<Rightarrow> (go_error, Service) outcome" where
  "stats_New flushInterval =
     (case Cache_New maxBytes True of
        Ok c \<Rightarrow>
          if flushInterval \<le> 0 then Crash ''non-positive interval for NewTicker'' else Ok \<lparr>sessions = c\<rparr>
      | Err e \<Rightarrow> Err e
      | Crash msg \<Rightarrow> Crash msg)"

definition report_mutator :: "string \<Rightarrow> SessionData \<Rightarrow> uint64 \<Rightarrow> uint64 \<Rightarrow> uint64 \<Rightarrow> mutator" where
  "report_mutator sid data drx dtx nowNano v =
     (let v = (case v of None \<Rightarrow> [] | Some v \<Rightarrow> v) in
      if length v = 0
      then (v, (case toValue \<lparr>SessionID = sid, s_data = data\<rparr> drx dtx nowNano of
                  Ok d \<Rightarrow> Ok (d, True) | Err e \<Rightarrow> Err e | Crash msg \<Rightarrow> Crash msg))
      else (case AddRxTx drx dtx v of
              Ok d \<Rightarrow> (d, Ok (d, False)) | Err e \<Rightarrow> (v, Err e) | Crash msg \<Rightarrow> (v, Crash msg)))"

text \<open>\<open>ReportStats\<close> drops the error of \<open>Update\<close>; the value is what the eviction callback is called with.\<close>

definition ReportStats :: "(byte list \<Rightarrow> uint64) \<Rightarrow> (byte list \<Rightarrow> string) \<Rightarrow> Service \<Rightarrow> byte list \<Rightarrow> uint64 \<Rightarrow> uint64
    \<Rightarrow> SessionData \<Rightarrow> uint64 \<Rightarrow> byte list \<Rightarrow> uint64 list \<Rightarrow> (go_error, Items option) outcome \<times> Service" where
  "ReportStats Sum64 uuid_text s sessionID drx dtx data nowNano fresh order =
     (case Cache_Update Sum64 (sessions s) sessionID (report_mutator (uuid_text sessionID) data drx dtx nowNano)
             fresh order of
        (Ok ev, c) \<Rightarrow> (Ok ev, s\<lparr>sessions := c\<rparr>)
      | (Err e, c) \<Rightarrow> (Ok None, s\<lparr>sessions := c\<rparr>)
      | (Crash msg, c) \<Rightarrow> (Crash msg, s\<lparr>sessions := c\<rparr>))"

text \<open>\<open>onEvict\<close>: the reports handed to \<open>onFlush\<close>, in order.\<close>

fun evict_reports :: "(byte list \<Rightarrow> string) \<Rightarrow> uint64 \<Rightarrow> byte list list \<Rightarrow> byte list list \<Rightarrow> (go_error, Report list) outcome" where
  "evict_reports uuid_text nowNano keys [] = Ok []"
| "evict_reports uuid_text nowNano [] (v # vs) = Crash ''index out of range''"
| "evict_reports uuid_text nowNano (k # ks) (v # vs) =
     (case parse uuid_text k v nowNano of
        Ok r \<Rightarrow>
          (case evict_reports uuid_text nowNano ks vs of
             Ok rs \<Rightarrow> Ok (r # rs) | Err e \<Rightarrow> Err e | Crash msg \<Rightarrow> Crash msg)
      | Err e \<Rightarrow> Err e
      | Crash msg \<Rightarrow> Crash msg)"

definition onEvict :: "(byte list \<Rightarrow> string) \<Rightarrow> Items \<Rightarrow> uint64 \<Rightarrow> (go_error, Report list) outcome" where
  "onEvict uuid_text evicted nowNano = evict_reports uuid_text nowNano (Keys evicted) (Values evicted)"

text \<open>One tick of \<open>run\<close>: the cache is reset and its callback hands out the reports.\<close>

definition tick :: "(byte list \<Rightarrow> string) \<Rightarrow> Service \<Rightarrow> (nat \<Rightarrow> uint64 list) \<Rightarrow> uint64
    \<Rightarrow> (go_error, Report list) outcome \<times> Service" where
  "tick uuid_text s order nowNano =
     (case Cache_Reset (sessions s) order of
        (Ok (Some items), c) \<Rightarrow> (onEvict uuid_text items nowNano, s\<lparr>sessions := c\<rparr>)
      | (Ok None, c) \<Rightarrow> (Ok [], s\<lparr>sessions := c\<rparr>)
      | (Err e, c) \<Rightarrow> (Err e, s\<lparr>sessions := c\<rparr>)
      | (Crash msg, c) \<Rightarrow> (Crash msg, s\<lparr>sessions := c\<rparr>))"

section \<open>Values\<close>

definition stat_value :: "uint64 \<Rightarrow> uint64 \<Rightarrow> uint64 \<Rightarrow> byte list \<Rightarrow> byte list" where
  "stat_value rx tx created data =
     le_put 8 rx @ le_put 8 tx @ le_put 8 created @ le_put 2 (word_of_nat (length data) :: uint16) @ data"

lemma length_stat_value [simp]: "length (stat_value rx tx created data) = 26 + length data"
  by (simp add: stat_value_def)

lemma stat_value_not_Nil [simp]: "stat_value rx tx created data \<noteq> []"
  using length_stat_value [of rx tx created data] by (metis add_is_0 list.size(3) zero_neq_numeral)

lemma blit_append: "length ys = length ys' \<Longrightarrow> n = length xs \<Longrightarrow> blit (xs @ ys @ zs) n ys' = xs @ ys' @ zs"
  by (simp add: blit_def)

lemma blit_front: "length ys = length ys' \<Longrightarrow> blit (ys @ zs) 0 ys' = ys' @ zs"
  by (simp add: blit_def)

lemma slice_append: "n = length xs \<Longrightarrow> m = n + length ys \<Longrightarrow> slice n m (xs @ ys @ zs) = ys"
  by (simp add: slice_def)

lemma RxTx_append: "length a = 8 \<Longrightarrow> length b = 8 \<Longrightarrow> RxTx rx tx (a @ b @ c) = Ok (le_put 8 rx @ le_put 8 tx @ c)"
  by (cases "a @ b @ c = []") (auto simp: RxTx_def PutUint64_def Let_def blit_append blit_front)

lemma toValue_value: "toValue s drx dtx now = Ok (stat_value drx dtx now (Marshal (s_data s)))"
proof -
  define n where "n = length (Marshal (s_data s))"
  let ?z = "\<lambda>k. replicate k (0 :: byte)"
  have d: "?z (8 + 8 + 8 + 2 + n) = ?z 16 @ ?z 8 @ ?z 2 @ ?z n"
    by (simp only: append_assoc [symmetric] replicate_add [symmetric]) simp
  have s0: "slice 0 16 (?z 16 @ ?z 8 @ ?z 2 @ ?z n) = ?z 8 @ ?z 8 @ []"
    by (simp add: slice_def flip: replicate_add)
  let ?c = "le_put 8 drx @ le_put 8 dtx"
  have s1: "slice 16 24 (?c @ ?z 8 @ ?z 2 @ ?z n) = ?z 8"
    by (rule slice_append) simp_all
  have s2: "slice 24 26 ((?c @ le_put 8 now) @ ?z 2 @ ?z n) = ?z 2"
    by (rule slice_append) simp_all
  have b0: "blit (?z 16 @ ?z 8 @ ?z 2 @ ?z n) 0 ?c = ?c @ ?z 8 @ ?z 2 @ ?z n"
    by (rule blit_front) simp
  have b1: "blit (?c @ ?z 8 @ ?z 2 @ ?z n) 16 (le_put 8 now) = (?c @ le_put 8 now) @ ?z 2 @ ?z n"
    using blit_append [of "?z 8" "le_put 8 now" 16 ?c] by simp
  let ?l = "le_put 2 (word_of_nat n :: uint16)"
  have b2: "blit ((?c @ le_put 8 now) @ ?z 2 @ ?z n) 24 ?l = (?c @ le_put 8 now @ ?l) @ ?z n @ []"
    using blit_append [of "?z 2" ?l 24 "?c @ le_put 8 now"] by simp
  have b3: "blit ((?c @ le_put 8 now @ ?l) @ ?z n @ []) 26 (Marshal (s_data s)) = (?c @ le_put 8 now @ ?l) @ Marshal (s_data s) @ []"
    by (rule blit_append) (simp_all add: n_def)
  have p: "SetUint64 now (?z 8) = le_put 8 now" "SetUint16 (word_of_nat n) (?z 2) = ?l"
    by (simp_all add: SetUint64_def SetUint16_def blit_def)
  show ?thesis
    unfolding toValue_def Let_def n_def [symmetric] d s0 RxTx_append [of "?z 8" "?z 8", simplified]
    by (simp only: outcome.case append_Nil2 b0 s1 p b1 s2 b2) (use b3 in \<open>simp add: stat_value_def n_def\<close>)
qed

lemma stat_value_slices:
  "slice 0 16 (stat_value rx tx created data) = le_put 8 rx @ le_put 8 tx"
  "slice 16 24 (stat_value rx tx created data) = le_put 8 created"
  "slice 24 26 (stat_value rx tx created data) = le_put 2 (word_of_nat (length data) :: uint16)"
  "slice 26 (26 + length data) (stat_value rx tx created data) = data"
  by (simp_all add: stat_value_def slice_def)

lemma le64 [simp]: "le_get (le_put 8 w) = (w :: uint64)"
  by (rule le_get_put) simp

lemma le16 [simp]: "le_get (le_put 2 w) = (w :: uint16)"
  by (rule le_get_put) simp

lemma ParseRxTx_append: "ParseRxTx (le_put 8 rx @ le_put 8 tx @ c) = (rx, tx)"
  by (simp add: ParseRxTx_def slice_def)

lemma AddRxTx_value: "AddRxTx drx dtx (stat_value rx tx created data) = Ok (stat_value (rx + drx) (tx + dtx) created data)"
  using RxTx_append [of "le_put 8 rx" "le_put 8 tx"] ParseRxTx_append [of rx tx]
  by (simp add: AddRxTx_def stat_value_def)

lemma parse_value:
  assumes "length data < 65536"
  shows "parse uuid_text k (stat_value rx tx created data) now =
    Ok \<lparr>r_session = \<lparr>SessionID = uuid_text k, s_data = Unmarshal data no_data\<rparr>,
        CreatedNano = created, DeltaRx = rx, DeltaTx = tx, DeltaTNano = now - created\<rparr>"
proof -
  have "unat (word_of_nat (length data) :: uint16) = length data"
    using assms by (simp add: unat_of_nat take_bit_nat_eq_self)
  then show ?thesis
    using ParseRxTx_append [of rx tx "[]"]
    by (simp add: parse_def stat_value_slices ParseUint64_def ParseUint16_def del: append_assoc)
qed

lemma bytes_text_text_bytes: "bytes_text (text_bytes s) = s"
proof -
  have "char_of (unat (word_of_nat (of_char c) :: byte)) = c" for c
  proof -
    have "unat (word_of_nat (of_char c) :: byte) = of_char c"
      using nat_of_char_less_256 [of c] by (simp add: unat_of_nat take_bit_nat_eq_self)
    then show ?thesis by simp
  qed
  then show ?thesis by (simp add: bytes_text_def text_bytes_def comp_def)
qed

definition data_ok :: "SessionData \<Rightarrow> bool" where
  "data_ok d \<longleftrightarrow> ascii (InstallationID d) \<and> ascii (UserID d) \<and> ascii (Country d)"

lemma Unmarshal_Marshal:
  assumes "data_ok d"
  shows "Unmarshal (Marshal d) no_data = d"
proof -
  have "list_all (\<lambda>(k, v). ascii k \<and> ascii v) (data_members d)"
    using assms by (auto simp: data_members_def data_ok_def ascii_def)
  then have "Unmarshal (Marshal d) no_data = fold set_field (data_members d) no_data"
    by (simp add: Unmarshal_def Marshal_def bytes_text_text_bytes read_object_json)
  also have "\<dots> = d"
    by (cases d) (auto simp: data_members_def no_data_def)
  finally show ?thesis .
qed

section \<open>Runs\<close>

text \<open>A call of \<open>ReportStats\<close>: session, deltas, session data, time, chunk memory and map order.\<close>

type_synonym report_call = "byte list \<times> uint64 \<times> uint64 \<times> SessionData \<times> uint64 \<times> byte list \<times> uint64 list"

fun report_run :: "(byte list \<Rightarrow> uint64) \<Rightarrow> (byte list \<Rightarrow> string) \<Rightarrow> Service \<Rightarrow> report_call list
    \<Rightarrow> (go_error, Service) outcome" where
  "report_run Sum64 uuid_text s [] = Ok s"
| "report_run Sum64 uuid_text s ((k, drx, dtx, data, now, fresh, order) # calls) =
     (case ReportStats Sum64 uuid_text s k drx dtx data now fresh order of
        (Ok ev, s) \<Rightarrow> report_run Sum64 uuid_text s calls
      | (Err e, s) \<Rightarrow> Err e
      | (Crash msg, s) \<Rightarrow> Crash msg)"

fun call_ok :: "report_call \<Rightarrow> bool" where
  "call_ok (k, drx, dtx, data, now, fresh, order) \<longleftrightarrow>
     length fresh = chunkSize \<and> data_ok data \<and> 30 + length k + length (Marshal data) < chunkSize"

definition deltas :: "report_call list \<Rightarrow> byte list \<Rightarrow> (uint64 \<times> uint64) list" where
  "deltas calls k = map (\<lambda>(k, drx, dtx, rest). (drx, dtx)) (filter (\<lambda>call. fst call = k) calls)"

definition delta_total :: "(uint64 \<times> uint64) list \<Rightarrow> uint64 \<times> uint64" where
  "delta_total ds = (sum_list (map fst ds), sum_list (map snd ds))"

text \<open>A report carries the sums over the last deltas of its session, at least one of them.\<close>

definition suffix_sums :: "(byte list \<Rightarrow> string) \<Rightarrow> report_call list \<Rightarrow> byte list \<Rightarrow> Report \<Rightarrow> bool" where
  "suffix_sums uuid_text calls k r \<longleftrightarrow>
     SessionID (r_session r) = uuid_text k \<and>
     (\<exists>n<length (deltas calls k). (DeltaRx r, DeltaTx r) = delta_total (drop n (deltas calls k)))"

definition counts :: "report_call list \<Rightarrow> byte list \<Rightarrow> byte list \<Rightarrow> bool" where
  "counts calls k v \<longleftrightarrow>
     (\<exists>n created data. n < length (deltas calls k) \<and> length data < 65536
        \<and> v = stat_value (fst (delta_total (drop n (deltas calls k)))) (snd (delta_total (drop n (deltas calls k)))) created data)"

definition stat_inv :: "(byte list \<Rightarrow> uint64) \<Rightarrow> report_call list \<Rightarrow> Cache \<Rightarrow> bool" where
  "stat_inv Sum64 calls c \<longleftrightarrow>
     cache_valid Sum64 c \<and> onEvict_set c \<and> (\<forall>k v. contents Sum64 c k = Some v \<longrightarrow> counts calls k v)
     \<and> (\<forall>call. calls \<noteq> [] \<and> call = last calls \<longrightarrow> contents Sum64 c (fst call) \<noteq> None)"

lemma deltas_snoc:
  "deltas (calls @ [(k, drx, dtx, rest)]) k' = deltas calls k' @ (if k' = k then [(drx, dtx)] else [])"
  by (simp add: deltas_def)

lemma delta_total_snoc: "delta_total (ds @ [(drx, dtx)]) = (fst (delta_total ds) + drx, snd (delta_total ds) + dtx)"
  by (simp add: delta_total_def)

lemma counts_start: "length data < 65536 \<Longrightarrow> counts (calls @ [(k, drx, dtx, rest)]) k (stat_value drx dtx created data)"
  unfolding counts_def deltas_snoc
  by (intro exI [of _ "length (deltas calls k)"] exI [of _ created] exI [of _ data]) (simp add: delta_total_def)

lemma counts_bump:
  assumes "counts calls k v"
  obtains v' where "AddRxTx drx dtx v = Ok v'" "length v' = length v" "v \<noteq> []"
    "counts (calls @ [(k, drx, dtx, rest)]) k v'"
proof -
  obtain n created data where n: "n < length (deltas calls k)" "length data < 65536"
    and v: "v = stat_value (fst (delta_total (drop n (deltas calls k)))) (snd (delta_total (drop n (deltas calls k)))) created data"
    using assms by (auto simp: counts_def)
  let ?v = "stat_value (fst (delta_total (drop n (deltas calls k))) + drx) (snd (delta_total (drop n (deltas calls k))) + dtx) created data"
  have "counts (calls @ [(k, drx, dtx, rest)]) k ?v"
    unfolding counts_def deltas_snoc
    by (intro exI [of _ n] exI [of _ created] exI [of _ data]) (use n in \<open>simp add: delta_total_snoc\<close>)
  then show thesis using that [of ?v] AddRxTx_value by (simp add: v)
qed

lemma counts_other: "k' \<noteq> k \<Longrightarrow> counts (calls @ [(k, drx, dtx, rest)]) k' v = counts calls k' v"
  by (simp add: counts_def deltas_snoc)

lemma ReportStats_inv:
  assumes inv: "stat_inv Sum64 calls (sessions s)" and ok: "call_ok (k, drx, dtx, data, now, fresh, order)"
  obtains ev s' where "ReportStats Sum64 uuid_text s k drx dtx data now fresh order = (Ok ev, s')"
    "stat_inv Sum64 (calls @ [(k, drx, dtx, data, now, fresh, order)]) (sessions s')"
proof -
  let ?c = "sessions s" and ?m = "report_mutator (uuid_text k) data drx dtx now"
  let ?calls = "calls @ [(k, drx, dtx, data, now, fresh, order)]"
  let ?start = "stat_value drx dtx now (Marshal data)" and ?bump = "\<lambda>v. case AddRxTx drx dtx v of Ok v' \<Rightarrow> v' | _ \<Rightarrow> v"
  have valid: "cache_valid Sum64 ?c" and cnt: "\<And>k v. contents Sum64 ?c k = Some v \<Longrightarrow> counts calls k v"
    using inv by (auto simp: stat_inv_def)
  have len: "length (Marshal data) < 65536" using ok by (simp add: chunkSize_def)
  have miss: "?m None = ([], Ok (?start, True)) \<and> fits k ?start" if "contents Sum64 ?c k = None"
    using ok by (simp add: report_mutator_def toValue_value)
  have step: "(?m (Some cur) = (?bump cur, Ok (?bump cur, False)) \<and> length (?bump cur) = length cur)
      \<and> counts ?calls k (?bump cur)" if c: "contents Sum64 ?c k = Some cur" for cur
  proof (rule counts_bump [OF cnt [OF c], of drx dtx "(data, now, fresh, order)"])
    fix v' assume "AddRxTx drx dtx cur = Ok v'" "length v' = length cur" "cur \<noteq> []" "counts ?calls k v'"
    then show ?thesis by (simp add: report_mutator_def)
  qed
  note hit = conjunct1 [OF step] and bump = conjunct2 [OF step]
  obtain ev c' where u: "Cache_Update Sum64 ?c k ?m fresh order = (Ok ev, c')" and v': "cache_valid Sum64 c'"
    "onEvict_set c' = onEvict_set ?c" "contents Sum64 c' k = Some (case contents Sum64 ?c k of None \<Rightarrow> ?start | Some cur \<Rightarrow> ?bump cur)"
    "\<And>k'. k' \<noteq> k \<Longrightarrow> contents Sum64 c' k' = contents Sum64 ?c k' \<or> contents Sum64 c' k' = None"
    by (rule xc.start_or_bump [OF valid _ miss hit, of fresh order]) (use ok in auto)
  have "counts ?calls k' v" if "contents Sum64 c' k' = Some v" for k' v
  proof (cases "k' = k")
    case True
    then show ?thesis using that v'(3) bump counts_start [OF len] by (auto split: option.splits)
  next
    case False
    then show ?thesis using that v'(4) [OF False] cnt counts_other by auto
  qed
  then have "stat_inv Sum64 ?calls c'" using inv v' by (simp add: stat_inv_def)
  then show thesis using u by (intro that [of ev "s\<lparr>sessions := c'\<rparr>"]) (simp_all add: ReportStats_def)
qed

lemma report_run_inv:
  assumes "stat_inv Sum64 before (sessions s)" and "list_all call_ok calls"
  obtains s' where "report_run Sum64 uuid_text s calls = Ok s'" "stat_inv Sum64 (before @ calls) (sessions s')"
  using assms
proof (induction calls arbitrary: before s thesis)
  case (Cons call calls)
  obtain k drx dtx data now fresh order where call: "call = (k, drx, dtx, data, now, fresh, order)" by (cases call)
  obtain ev s1 where s1: "ReportStats Sum64 uuid_text s k drx dtx data now fresh order = (Ok ev, s1)"
    "stat_inv Sum64 (before @ [call]) (sessions s1)"
    by (rule ReportStats_inv [OF Cons.prems(2)]) (use Cons.prems(3) call in auto)
  show ?case
    by (rule Cons.IH [OF _ s1(2)]) (use Cons.prems(1,3) s1(1) call in auto)
qed simp

lemma evict_reports_counts:
  assumes "\<And>k v. (k, v) \<in> set ps \<Longrightarrow> counts calls k v"
  obtains reports where "evict_reports uuid_text now (map fst ps) (map snd ps) = Ok reports"
    "list_all2 (suffix_sums uuid_text calls) (map fst ps) reports"
  using assms
proof (induction ps arbitrary: thesis)
  case (Cons p ps)
  obtain k v where p: "p = (k, v)" by fastforce
  have "counts calls k v" using Cons.prems(2) p by simp
  then obtain n created data where n: "n < length (deltas calls k)" "length data < 65536"
    and v: "v = stat_value (fst (delta_total (drop n (deltas calls k)))) (snd (delta_total (drop n (deltas calls k)))) created data"
    by (auto simp: counts_def)
  obtain reports where r: "evict_reports uuid_text now (map fst ps) (map snd ps) = Ok reports"
    "list_all2 (suffix_sums uuid_text calls) (map fst ps) reports"
    by (rule Cons.IH) (use Cons.prems(2) in auto)
  obtain r0 where r0: "parse uuid_text k v now = Ok r0" "suffix_sums uuid_text calls k r0"
    using n by (auto simp: v parse_value [OF n(2)] suffix_sums_def)
  show ?case
    by (rule Cons.prems(1) [of "r0 # reports"]) (use r r0 in \<open>simp_all add: p\<close>)
qed simp

lemma tick_reports:
  assumes inv: "stat_inv Sum64 calls (sessions s)" and ord: "order_ok (sessions s) order"
  obtains ks reports s' where "tick uuid_text s order now = (Ok reports, s')" "distinct ks"
    "set ks = dom (contents Sum64 (sessions s))" "list_all2 (suffix_sums uuid_text calls) ks reports"
    "contents Sum64 (sessions s') = Map.empty"
proof -
  have v: "cache_valid Sum64 (sessions s)" "onEvict_set (sessions s)"
    and cnt: "\<And>k v. contents Sum64 (sessions s) k = Some v \<Longrightarrow> counts calls k v"
    using inv by (auto simp: stat_inv_def)
  obtain ps c' where r: "Cache_Reset (sessions s) order = (Ok (if ps = [] then None else Some (add_all newItems ps)), c')"
    and ps: "distinct ps" "set ps = {(k, v). contents Sum64 (sessions s) k = Some v}" "contents Sum64 c' = Map.empty"
    using xc.reset_all [OF v ord] by blast
  obtain reports where rep: "evict_reports uuid_text now (map fst ps) (map snd ps) = Ok reports"
    "list_all2 (suffix_sums uuid_text calls) (map fst ps) reports"
    by (rule evict_reports_counts [of ps calls]) (use cnt ps(2) in auto)
  have "tick uuid_text s order now = (Ok reports, s\<lparr>sessions := c'\<rparr>)"
    using r rep by (auto simp: tick_def onEvict_def add_all_def newItems_def)
  moreover have "distinct (map fst ps)"
    using ps(1,2) by (auto simp: distinct_map inj_on_def)
  moreover have "set (map fst ps) = dom (contents Sum64 (sessions s))"
    using ps(2) by force
  ultimately show thesis using that rep(2) ps(3) by simp
qed

lemma order_exists: "\<exists>order. order_ok c order"
proof -
  have "\<exists>xs. distinct xs \<and> set xs = dom (kv_map (buckets c ! i))" for i
    using finite_distinct_list [of "dom (kv_map (buckets c ! i))"] by auto
  then show ?thesis unfolding order_ok_def by metis
qed

lemma stats_New_inv:
  assumes "0 < flushInterval"
  obtains s where "stats_New flushInterval = Ok s" "stat_inv Sum64 [] (sessions s)"
proof -
  obtain ns where c: "Cache_New maxBytes True = Ok (empty_cache ns True)" "cache_valid Sum64 (empty_cache ns True)"
    "contents Sum64 (empty_cache ns True) = Map.empty"
    by (rule Cache_New_result [of maxBytes True Sum64]) (simp_all add: maxBytes_def)
  then show thesis
    using assms by (intro that [of "\<lparr>sessions = empty_cache ns True\<rparr>"])
      (simp_all add: stats_New_def stat_inv_def empty_cache_def)
qed

section \<open>Properties\<close>


definition example_calls :: "report_call list" where
  "example_calls =
     [([1], 10, 20, no_data, 5, replicate chunkSize 0, []), ([1], 1, 2, no_data, 6, replicate chunkSize 0, [])]"


text \<open>a report reads back what \<open>toValue\<close> wrote: counters, creation time and session data, for data
  in ASCII whose JSON text is shorter than 64 KB.\<close>

theorem parse_toValue:
  assumes "data_ok (s_data session)" and "length (Marshal (s_data session)) < 65536"
  shows "\<exists>v. toValue session drx dtx created = Ok v \<and>
    parse uuid_text k v now =
      Ok \<lparr>r_session = \<lparr>SessionID = uuid_text k, s_data = s_data session\<rparr>, CreatedNano = created,
          DeltaRx = drx, DeltaTx = dtx, DeltaTNano = now - created\<rparr>"
  using toValue_value parse_value [OF assms(2)] Unmarshal_Marshal [OF assms(1)] by simp

theorem parse_toValue_witness:
  "\<exists>v. toValue \<lparr>SessionID = ''id'', s_data = no_data\<lparr>Country := ''DE''\<rparr>\<rparr> 10 20 5 = Ok v \<and>
     parse (\<lambda>k. ''id'') [1] v 9 =
       Ok \<lparr>r_session = \<lparr>SessionID = ''id'', s_data = no_data\<lparr>Country := ''DE''\<rparr>\<rparr>, CreatedNano = 5,
           DeltaRx = 10, DeltaTx = 20, DeltaTNano = 4\<rparr>"
  using parse_toValue [of "\<lparr>SessionID = ''id'', s_data = no_data\<lparr>Country := ''DE''\<rparr>\<rparr>" 10 20 5 "\<lambda>k. ''id''" "[1]" 9]
  by (simp add: data_ok_def ascii_def no_data_def Marshal_def data_members_def text_bytes_def json_object_def
      json_string_def json_char_def json_short_def)

end
