(* ===== verification/Dll.thy ===== *)
theory Dll
  imports Main
begin

text \<open>
  Doubly linked rings, shared by the linked list and the LRU map: a sentinel and a list of
  references, with a forward and a backward link function.  A list that ends in nil on both sides is
  a ring whose sentinel is nil.  The two lemmas say what unlinking and linking a reference does to
  the ring; a reference outside the ring is a frame.
\<close>

fun links :: "('r \<Rightarrow> 'r) \<Rightarrow> ('r \<Rightarrow> 'r) \<Rightarrow> 'r list \<Rightarrow> bool" where
  "links nx pv (a # b # zs) \<longleftrightarrow> nx a = b \<and> pv b = a \<and> links nx pv (b # zs)"
| "links nx pv zs \<longleftrightarrow> True"

definition ring :: "('r \<Rightarrow> 'r) \<Rightarrow> ('r \<Rightarrow> 'r) \<Rightarrow> 'r \<Rightarrow> 'r list \<Rightarrow> bool" where
  "ring nx pv r xs \<longleftrightarrow> distinct (r # xs) \<and> links nx pv (r # xs @ [r])"

lemma links_append: "links nx pv (as @ a # bs) \<longleftrightarrow> links nx pv (as @ [a]) \<and> links nx pv (a # bs)"
  by (induction as rule: links.induct [of _ nx pv]) auto

lemma links_append2:
  "links nx pv (as @ a # b # bs) \<longleftrightarrow> links nx pv (as @ [a]) \<and> nx a = b \<and> pv b = a \<and> links nx pv (b # bs)"
  using links_append [of nx pv as a "b # bs"] by simp

text \<open>Links depend on the forward links of all but the last reference and the backward links of all
  but the first.\<close>

lemma links_cong:
  assumes "links nx pv zs" and "\<And>a. a \<in> set (butlast zs) \<Longrightarrow> nx' a = nx a" and "\<And>a. a \<in> set (tl zs) \<Longrightarrow> pv' a = pv a"
  shows "links nx' pv' zs"
  using assms by (induction nx pv zs rule: links.induct) auto

lemma ring_cong:
  assumes "ring nx pv r xs" and "\<And>a. a \<in> set (r # xs) \<Longrightarrow> nx' a = nx a \<and> pv' a = pv a"
  shows "ring nx' pv' r xs"
proof -
  have l: "links nx pv (r # xs @ [r])" "distinct (r # xs)" using assms(1) by (auto simp: ring_def)
  have "links nx' pv' (r # xs @ [r])"
    by (rule links_cong [OF l(1)]) (use assms(2) in \<open>auto simp: butlast_append split: if_splits\<close>)
  then show ?thesis using l by (simp add: ring_def)
qed

text \<open>The references around a position of the ring: \<open>zs\<close> before and \<open>ws\<close> after it.\<close>

lemma ring_split:
  assumes "r # as = zs @ [p]" and "bs @ [r] = n # ws"
  shows "ring nx pv r (as @ bs) \<longleftrightarrow>
      distinct (r # as @ bs) \<and> links nx pv (zs @ [p]) \<and> nx p = n \<and> pv n = p \<and> links nx pv (n # ws)"
    and "ring nx pv r (as @ e # bs) \<longleftrightarrow>
      distinct (r # as @ e # bs) \<and> links nx pv (zs @ [p]) \<and> nx p = e \<and> pv e = p \<and> nx e = n \<and> pv n = e
        \<and> links nx pv (n # ws)"
proof -
  have "r # (as @ bs) @ [r] = zs @ p # n # ws" "r # (as @ e # bs) @ [r] = zs @ p # e # n # ws"
    using assms by (metis append.assoc append_Cons append_Nil)+
  then show "ring nx pv r (as @ bs) \<longleftrightarrow>
      distinct (r # as @ bs) \<and> links nx pv (zs @ [p]) \<and> nx p = n \<and> pv n = p \<and> links nx pv (n # ws)"
    "ring nx pv r (as @ e # bs) \<longleftrightarrow>
      distinct (r # as @ e # bs) \<and> links nx pv (zs @ [p]) \<and> nx p = e \<and> pv e = p \<and> nx e = n \<and> pv n = e
        \<and> links nx pv (n # ws)"
    by (simp_all add: ring_def links_append2)
qed

lemma position_exists:
  assumes "distinct (r # as @ bs)"
  obtains zs p n ws where "r # as = zs @ [p]" "bs @ [r] = n # ws"
    "p \<notin> set zs" "n \<notin> set ws" "p \<notin> set bs" "n \<notin> set as" "set zs \<subseteq> set (r # as)" "p \<in> set (r # as)"
    "n \<in> set (r # bs)" "set ws \<subseteq> set (r # bs)"
proof -
  obtain zs p where a: "r # as = zs @ [p]" by (metis neq_Nil_conv rev_exhaust)
  obtain n ws where b: "bs @ [r] = n # ws" by (metis neq_Nil_conv snoc_eq_iff_butlast)
  have "distinct (r # as)" "distinct (bs @ [r])" using assms by auto
  then have d: "distinct (zs @ [p])" "distinct (n # ws)" by (simp_all only: a b)
  have s: "set (zs @ [p]) = set (r # as)" "set (n # ws) = set (r # bs)"
    using arg_cong [OF b, of set] by (simp_all only: a) auto
  then have "p \<notin> set bs" "n \<notin> set as" using assms by auto
  then show thesis using that [OF a b] d s by auto
qed

text \<open>Unlinking \<open>e\<close>.\<close>

lemma ring_remove:
  assumes ring: "ring nx pv r (as @ e # bs)"
    and nx': "\<And>a. a \<in> set (r # as @ bs) \<Longrightarrow> nx' a = (if a = pv e then nx e else nx a)"
    and pv': "\<And>a. a \<in> set (r # as @ bs) \<Longrightarrow> pv' a = (if a = nx e then pv e else pv a)"
  shows "ring nx' pv' r (as @ bs)"
proof -
  have d: "distinct (r # as @ bs)" using ring by (auto simp: ring_def)
  obtain zs p n ws where pos: "r # as = zs @ [p]" "bs @ [r] = n # ws"
    "p \<notin> set zs" "n \<notin> set ws" "p \<notin> set bs" "n \<notin> set as" "set zs \<subseteq> set (r # as)" "p \<in> set (r # as)"
    "n \<in> set (r # bs)" "set ws \<subseteq> set (r # bs)"
    by (rule position_exists [OF d])
  have old: "links nx pv (zs @ [p])" "pv e = p" "nx e = n" "links nx pv (n # ws)"
    using ring ring_split(2) [OF pos(1,2)] by auto
  have t: "tl (zs @ [p]) = as" "butlast (n # ws) = bs" using pos(1,2) by (metis list.sel(3), metis butlast_snoc)
  have "links nx' pv' (zs @ [p])"
    by (rule links_cong [OF old(1)]) (use nx' pv' old(2,3) pos(3,6,7) in \<open>auto simp: t\<close>)
  moreover have "links nx' pv' (n # ws)"
    by (rule links_cong [OF old(4)]) (use nx' pv' old(2,3) pos(4,5,10) in \<open>auto simp: t simp del: butlast.simps\<close>)
  moreover have "nx' p = n" "pv' n = p" using nx' [of p] pv' [of n] old(2,3) pos(8,9) by auto
  ultimately show ?thesis using ring_split(1) [OF pos(1,2)] d by simp
qed

text \<open>Linking \<open>e\<close> after the last of \<open>as\<close>.\<close>

lemma ring_insert:
  assumes ring: "ring nx pv r (as @ bs)" and e: "e \<notin> set (r # as @ bs)" and at: "at = last (r # as)"
    and nx': "nx' e = nx at" "\<And>a. a \<in> set (r # as @ bs) \<Longrightarrow> nx' a = (if a = at then e else nx a)"
    and pv': "pv' e = at" "\<And>a. a \<in> set (r # as @ bs) \<Longrightarrow> pv' a = (if a = nx at then e else pv a)"
  shows "ring nx' pv' r (as @ e # bs)"
proof -
  have d: "distinct (r # as @ bs)" using ring by (auto simp: ring_def)
  obtain zs p n ws where pos: "r # as = zs @ [p]" "bs @ [r] = n # ws"
    "p \<notin> set zs" "n \<notin> set ws" "p \<notin> set bs" "n \<notin> set as" "set zs \<subseteq> set (r # as)" "p \<in> set (r # as)"
    "n \<in> set (r # bs)" "set ws \<subseteq> set (r # bs)"
    by (rule position_exists [OF d])
  have p: "at = p" using at pos(1) by simp
  have old: "links nx pv (zs @ [p])" "nx p = n" "links nx pv (n # ws)"
    using ring ring_split(1) [OF pos(1,2)] by auto
  have t: "tl (zs @ [p]) = as" "butlast (n # ws) = bs" using pos(1,2) by (metis list.sel(3), metis butlast_snoc)
  have "links nx' pv' (zs @ [p])"
    by (rule links_cong [OF old(1)]) (use nx' pv' old(2) p pos(3,6,7) in \<open>auto simp: t\<close>)
  moreover have "links nx' pv' (n # ws)"
    by (rule links_cong [OF old(3)]) (use nx' pv' old(2) p pos(4,5,10) in \<open>auto simp: t simp del: butlast.simps\<close>)
  moreover have "nx' p = e" "pv' e = p" "nx' e = n" "pv' n = e" using nx' pv' old(2) p pos(8,9) by auto
  moreover have "distinct (r # as @ e # bs)" using d e by auto
  ultimately show ?thesis using ring_split(2) [OF pos(1,2)] by simp
qed

text \<open>The ends of the ring.\<close>

lemma ring_ends:
  assumes "ring nx pv r xs"
  shows "nx r = hd (xs @ [r])" and "pv r = last (r # xs)"
proof -
  show "nx r = hd (xs @ [r])" using assms by (cases xs) (auto simp: ring_def)
  show "pv r = last (r # xs)"
  proof (cases xs rule: rev_cases)
    case (snoc ys y)
    then show ?thesis using assms links_append2 [of nx pv "r # ys" y r "[]"] by (simp add: ring_def)
  qed (use assms in \<open>simp add: ring_def\<close>)
qed

lemma ring_at:
  assumes "ring nx pv r (as @ bs)"
  shows "nx (last (r # as)) = hd (bs @ [r])" and "pv (hd (bs @ [r])) = last (r # as)"
proof -
  have d: "distinct (r # as @ bs)" using assms by (auto simp: ring_def)
  obtain zs p n ws where "r # as = zs @ [p]" "bs @ [r] = n # ws" by (rule position_exists [OF d])
  then show "nx (last (r # as)) = hd (bs @ [r])" "pv (hd (bs @ [r])) = last (r # as)"
    using assms ring_split(1) by (metis last_snoc list.sel(1))+
qed

lemma ring_next:
  assumes "ring nx pv r (as @ e # bs)"
  shows "nx e = hd (bs @ [r])" and "pv e = last (r # as)"
proof -
  have d: "distinct (r # as @ bs)" using assms by (auto simp: ring_def)
  obtain zs p n ws where "r # as = zs @ [p]" "bs @ [r] = n # ws" by (rule position_exists [OF d])
  then show "nx e = hd (bs @ [r])" "pv e = last (r # as)"
    using assms ring_split(2) by (metis list.sel(1), metis last_snoc)
qed

end
