(* ===== verification/Linked_List.thy ===== *)
theory Linked_List
  imports Dll "HOL-Library.Monad_Syntax"
begin

text \<open>
  The doubly linked list (\<open>src/list/list.go\<close>).  The heap keeps each field of the elements and lists
  as a function of the address: \<open>El e\<close> is the element at address \<open>e\<close>, \<open>Root l\<close> the sentinel inside the
  list at address \<open>l\<close>.  A pointer is a reference or nil (\<open>None\<close>); an operation that dereferences nil
  returns \<open>None\<close>, the panic of Go.
\<close>

section \<open>Heap\<close>

datatype eref = Root nat | El nat

record 'v list_heap =
  h_next :: "eref \<Rightarrow> eref option"
  h_prev :: "eref \<Rightarrow> eref option"
  h_list :: "nat \<Rightarrow> nat option"
  h_value :: "nat \<Rightarrow> 'v"
  h_len :: "nat \<Rightarrow> int"
  h_free :: nat

definition next_of :: "'v list_heap \<Rightarrow> eref option \<Rightarrow> eref option option" where
  "next_of h p = map_option (h_next h) p"

definition prev_of :: "'v list_heap \<Rightarrow> eref option \<Rightarrow> eref option option" where
  "prev_of h p = map_option (h_prev h) p"

definition put_next :: "'v list_heap \<Rightarrow> eref option \<Rightarrow> eref option \<Rightarrow> 'v list_heap option" where
  "put_next h p q = map_option (\<lambda>r. h\<lparr>h_next := (h_next h)(r := q)\<rparr>) p"

definition put_prev :: "'v list_heap \<Rightarrow> eref option \<Rightarrow> eref option \<Rightarrow> 'v list_heap option" where
  "put_prev h p q = map_option (\<lambda>r. h\<lparr>h_prev := (h_prev h)(r := q)\<rparr>) p"

section \<open>Operations\<close>

definition Next :: "'v list_heap \<Rightarrow> nat \<Rightarrow> eref option" where
  "Next h e =
     (let p = h_next h (El e) in
      case h_list h e of Some l \<Rightarrow> if p \<noteq> Some (Root l) then p else None | None \<Rightarrow> None)"

definition Prev :: "'v list_heap \<Rightarrow> nat \<Rightarrow> eref option" where
  "Prev h e =
     (let p = h_prev h (El e) in
      case h_list h e of Some l \<Rightarrow> if p \<noteq> Some (Root l) then p else None | None \<Rightarrow> None)"

definition Init :: "'v list_heap \<Rightarrow> nat \<Rightarrow> 'v list_heap" where
  "Init h l = h\<lparr>h_next := (h_next h)(Root l := Some (Root l)), h_prev := (h_prev h)(Root l := Some (Root l)),
                h_len := (h_len h)(l := 0)\<rparr>"

text \<open>\<open>new(List[V])\<close>: a zero list at a fresh address.\<close>

definition New :: "'v list_heap \<Rightarrow> nat \<times> 'v list_heap" where
  "New h =
     (let l = h_free h;
          h = h\<lparr>h_next := (h_next h)(Root l := None), h_prev := (h_prev h)(Root l := None),
                h_len := (h_len h)(l := 0), h_free := l + 1\<rparr> in
      (l, Init h l))"

definition Len :: "'v list_heap \<Rightarrow> nat \<Rightarrow> int" where
  "Len h l = h_len h l"

definition Front :: "'v list_heap \<Rightarrow> nat \<Rightarrow> eref option" where
  "Front h l = (if h_len h l = 0 then None else h_next h (Root l))"

definition Back :: "'v list_heap \<Rightarrow> nat \<Rightarrow> eref option" where
  "Back h l = (if h_len h l = 0 then None else h_prev h (Root l))"

definition lazyInit :: "'v list_heap \<Rightarrow> nat \<Rightarrow> 'v list_heap" where
  "lazyInit h l = (if h_next h (Root l) = None then Init h l else h)"

definition list_insert :: "'v list_heap \<Rightarrow> nat \<Rightarrow> nat \<Rightarrow> eref option \<Rightarrow> (nat \<times> 'v list_heap) option" where
  "list_insert h l e at = do {
     h \<leftarrow> put_prev h (Some (El e)) at;
     n \<leftarrow> next_of h at;
     h \<leftarrow> put_next h (Some (El e)) n;
     p \<leftarrow> prev_of h (Some (El e));
     h \<leftarrow> put_next h p (Some (El e));
     n \<leftarrow> next_of h (Some (El e));
     h \<leftarrow> put_prev h n (Some (El e));
     Some (e, h\<lparr>h_list := (h_list h)(e := Some l), h_len := (h_len h)(l := h_len h l + 1)\<rparr>)
   }"

text \<open>\<open>&Element[V]{Value: v}\<close> is an element at a fresh address.\<close>

definition insertValue :: "'v list_heap \<Rightarrow> nat \<Rightarrow> 'v \<Rightarrow> eref option \<Rightarrow> (nat \<times> 'v list_heap) option" where
  "insertValue h l v at =
     (let e = h_free h in
      list_insert
        (h\<lparr>h_next := (h_next h)(El e := None), h_prev := (h_prev h)(El e := None), h_list := (h_list h)(e := None),
           h_value := (h_value h)(e := v), h_free := e + 1\<rparr>) l e at)"

definition list_remove :: "'v list_heap \<Rightarrow> nat \<Rightarrow> nat \<Rightarrow> 'v list_heap option" where
  "list_remove h l e = do {
     p \<leftarrow> prev_of h (Some (El e));
     n \<leftarrow> next_of h (Some (El e));
     h \<leftarrow> put_next h p n;
     n \<leftarrow> next_of h (Some (El e));
     p \<leftarrow> prev_of h (Some (El e));
     h \<leftarrow> put_prev h n p;
     h \<leftarrow> put_next h (Some (El e)) None;
     h \<leftarrow> put_prev h (Some (El e)) None;
     Some (h\<lparr>h_list := (h_list h)(e := None), h_len := (h_len h)(l := h_len h l - 1)\<rparr>)
   }"

definition list_move :: "'v list_heap \<Rightarrow> nat \<Rightarrow> eref option \<Rightarrow> 'v list_heap option" where
  "list_move h e at =
     (if Some (El e) = at then Some h
      else do {
        p \<leftarrow> prev_of h (Some (El e));
        n \<leftarrow> next_of h (Some (El e));
        h \<leftarrow> put_next h p n;
        n \<leftarrow> next_of h (Some (El e));
        p \<leftarrow> prev_of h (Some (El e));
        h \<leftarrow> put_prev h n p;
        h \<leftarrow> put_prev h (Some (El e)) at;
        n \<leftarrow> next_of h at;
        h \<leftarrow> put_next h (Some (El e)) n;
        p \<leftarrow> prev_of h (Some (El e));
        h \<leftarrow> put_next h p (Some (El e));
        n \<leftarrow> next_of h (Some (El e));
        put_prev h n (Some (El e))
      })"

definition Remove :: "'v list_heap \<Rightarrow> nat \<Rightarrow> nat \<Rightarrow> ('v \<times> 'v list_heap) option" where
  "Remove h l e = do {
     h \<leftarrow> (if h_list h e = Some l then list_remove h l e else Some h);
     Some (h_value h e, h)
   }"

definition PushFront :: "'v list_heap \<Rightarrow> nat \<Rightarrow> 'v \<Rightarrow> (nat \<times> 'v list_heap) option" where
  "PushFront h l v = insertValue (lazyInit h l) l v (Some (Root l))"

definition PushBack :: "'v list_heap \<Rightarrow> nat \<Rightarrow> 'v \<Rightarrow> (nat \<times> 'v list_heap) option" where
  "PushBack h l v = (let h = lazyInit h l in insertValue h l v (h_prev h (Root l)))"

definition InsertBefore :: "'v list_heap \<Rightarrow> nat \<Rightarrow> 'v \<Rightarrow> nat \<Rightarrow> (nat option \<times> 'v list_heap) option" where
  "InsertBefore h l v mark =
     (if h_list h mark \<noteq> Some l then Some (None, h)
      else map_option (apfst Some) (insertValue h l v (h_prev h (El mark))))"

definition InsertAfter :: "'v list_heap \<Rightarrow> nat \<Rightarrow> 'v \<Rightarrow> nat \<Rightarrow> (nat option \<times> 'v list_heap) option" where
  "InsertAfter h l v mark =
     (if h_list h mark \<noteq> Some l then Some (None, h)
      else map_option (apfst Some) (insertValue h l v (Some (El mark))))"

definition MoveToFront :: "'v list_heap \<Rightarrow> nat \<Rightarrow> nat \<Rightarrow> 'v list_heap option" where
  "MoveToFront h l e =
     (if h_list h e \<noteq> Some l \<or> h_next h (Root l) = Some (El e) then Some h
      else list_move h e (Some (Root l)))"

definition MoveToBack :: "'v list_heap \<Rightarrow> nat \<Rightarrow> nat \<Rightarrow> 'v list_heap option" where
  "MoveToBack h l e =
     (if h_list h e \<noteq> Some l \<or> h_prev h (Root l) = Some (El e) then Some h
      else list_move h e (h_prev h (Root l)))"

definition MoveBefore :: "'v list_heap \<Rightarrow> nat \<Rightarrow> nat \<Rightarrow> nat \<Rightarrow> 'v list_heap option" where
  "MoveBefore h l e mark =
     (if h_list h e \<noteq> Some l \<or> e = mark \<or> h_list h mark \<noteq> Some l then Some h
      else list_move h e (h_prev h (El mark)))"

definition MoveAfter :: "'v list_heap \<Rightarrow> nat \<Rightarrow> nat \<Rightarrow> nat \<Rightarrow> 'v list_heap option" where
  "MoveAfter h l e mark =
     (if h_list h e \<noteq> Some l \<or> e = mark \<or> h_list h mark \<noteq> Some l then Some h
      else list_move h e (Some (El mark)))"

text \<open>The loop variables are the counter \<open>i\<close>, a natural number since it starts at a length, and the
  element \<open>e\<close>; reading the value of nil, or of a sentinel, does not happen in the loop on a list.\<close>

fun push_back_loop :: "nat \<Rightarrow> 'v list_heap \<Rightarrow> nat \<Rightarrow> eref option \<Rightarrow> 'v list_heap option" where
  "push_back_loop 0 h l p = Some h"
| "push_back_loop (Suc i) h l (Some (El e)) = do {
     (_, h) \<leftarrow> insertValue h l (h_value h e) (h_prev h (Root l));
     push_back_loop i h l (Next h e)
   }"
| "push_back_loop (Suc i) h l p = None"

definition PushBackList :: "'v list_heap \<Rightarrow> nat \<Rightarrow> nat \<Rightarrow> 'v list_heap option" where
  "PushBackList h l other =
     (let h = lazyInit h l in push_back_loop (nat (Len h other)) h l (Front h other))"

fun push_front_loop :: "nat \<Rightarrow> 'v list_heap \<Rightarrow> nat \<Rightarrow> eref option \<Rightarrow> 'v list_heap option" where
  "push_front_loop 0 h l p = Some h"
| "push_front_loop (Suc i) h l (Some (El e)) = do {
     (_, h) \<leftarrow> insertValue h l (h_value h e) (Some (Root l));
     push_front_loop i h l (Prev h e)
   }"
| "push_front_loop (Suc i) h l p = None"

definition PushFrontList :: "'v list_heap \<Rightarrow> nat \<Rightarrow> nat \<Rightarrow> 'v list_heap option" where
  "PushFrontList h l other =
     (let h = lazyInit h l in push_front_loop (nat (Len h other)) h l (Back h other))"

section \<open>Lists in the heap\<close>

text \<open>A field as a function of pointers.\<close>

definition field :: "(eref \<Rightarrow> eref option) \<Rightarrow> eref option \<Rightarrow> eref option" where
  "field f p = (case p of None \<Rightarrow> None | Some r \<Rightarrow> f r)"

lemma field_Some [simp]: "field f (Some r) = f r"
  by (simp add: field_def)

lemma field_upd [simp]: "field (f(r := q)) = (field f)(Some r := q)"
  by (auto simp: field_def fun_eq_iff split: option.split)

abbreviation ptrs :: "(nat \<times> 'v) list \<Rightarrow> eref option list" where
  "ptrs ps \<equiv> map (\<lambda>p. Some (El (fst p))) ps"

text \<open>The list at \<open>l\<close> holds the elements and values \<open>ps\<close>.\<close>

definition is_list :: "'v list_heap \<Rightarrow> nat \<Rightarrow> (nat \<times> 'v) list \<Rightarrow> bool" where
  "is_list h l ps \<longleftrightarrow>
     ring (field (h_next h)) (field (h_prev h)) (Some (Root l)) (ptrs ps) \<and> h_len h l = int (length ps)
     \<and> (\<forall>e. h_list h e = Some l \<longleftrightarrow> e \<in> fst ` set ps)
     \<and> (\<forall>e v. (e, v) \<in> set ps \<longrightarrow> h_value h e = v \<and> e < h_free h)"

text \<open>A zero \<open>List\<close> value is an empty list as well.\<close>

definition zero_list :: "'v list_heap \<Rightarrow> nat \<Rightarrow> bool" where
  "zero_list h l \<longleftrightarrow> h_next h (Root l) = None \<and> h_len h l = 0 \<and> (\<forall>e. h_list h e \<noteq> Some l)"

definition list_ok :: "'v list_heap \<Rightarrow> nat \<Rightarrow> (nat \<times> 'v) list \<Rightarrow> bool" where
  "list_ok h l ps \<longleftrightarrow> is_list h l ps \<or> ps = [] \<and> zero_list h l"

text \<open>\<open>h'\<close> differs from \<open>h\<close> only in the list \<open>l\<close>, the elements \<open>S\<close> and new addresses.\<close>

definition touches :: "nat \<Rightarrow> nat set \<Rightarrow> 'v list_heap \<Rightarrow> 'v list_heap \<Rightarrow> bool" where
  "touches l S h h' \<longleftrightarrow>
     (\<forall>l'. l' \<noteq> l \<longrightarrow> h_next h' (Root l') = h_next h (Root l') \<and> h_prev h' (Root l') = h_prev h (Root l')
                 \<and> h_len h' l' = h_len h l')
     \<and> (\<forall>e. e \<notin> S \<longrightarrow> h_next h' (El e) = h_next h (El e) \<and> h_prev h' (El e) = h_prev h (El e)
                \<and> h_list h' e = h_list h e)
     \<and> (\<forall>e. e \<in> S \<longrightarrow> h_list h' e = None \<or> h_list h' e = Some l)
     \<and> (\<forall>e < h_free h. h_value h' e = h_value h e) \<and> h_free h \<le> h_free h'"

lemma touchesI:
  assumes "\<And>r. r \<noteq> Root l \<Longrightarrow> r \<notin> El ` S \<Longrightarrow> h_next h' r = h_next h r \<and> h_prev h' r = h_prev h r"
    and "\<And>l'. l' \<noteq> l \<Longrightarrow> h_len h' l' = h_len h l'" and "\<And>e. e \<notin> S \<Longrightarrow> h_list h' e = h_list h e"
    and "\<And>e. e \<in> S \<Longrightarrow> h_list h' e = None \<or> h_list h' e = Some l"
    and "h_value h' = h_value h" and "h_free h' = h_free h"
  shows "touches l S h h'"
  using assms by (auto simp: touches_def)

lemma touches_trans:
  assumes "touches l S h h1" and "touches l S h1 h2"
  shows "touches l S h h2"
  using assms unfolding touches_def by (auto dest: less_le_trans)

lemma touchesD:
  assumes "touches l S h h'"
  shows "e < h_free h \<Longrightarrow> h_value h' e = h_value h e" and "h_free h \<le> h_free h'"
    and "e \<notin> S \<Longrightarrow> h_list h' e = h_list h e" and "e \<in> S \<Longrightarrow> h_list h' e = None \<or> h_list h' e = Some l"
  using assms by (simp_all add: touches_def)

lemma is_listD:
  assumes "is_list h l ps"
  shows "(e, v) \<in> set ps \<Longrightarrow> h_value h e = v" and "(e, v) \<in> set ps \<Longrightarrow> e < h_free h"
    and "h_list h e = Some l \<longleftrightarrow> e \<in> fst ` set ps" and "h_len h l = int (length ps)"
    and "ring (field (h_next h)) (field (h_prev h)) (Some (Root l)) (ptrs ps)"
  using assms unfolding is_list_def by blast+

lemma touches_other:
  assumes t: "touches l S h h'" and l: "l' \<noteq> l" and ok: "list_ok h l' ps" and S: "S \<inter> fst ` set ps = {}"
  shows "list_ok h' l' ps"
proof (cases "is_list h l' ps")
  case True
  have e: "fst p \<notin> S" if "p \<in> set ps" for p using S that by auto
  have "ring (field (h_next h')) (field (h_prev h')) (Some (Root l')) (ptrs ps)"
    by (rule ring_cong [of "field (h_next h)" "field (h_prev h)"]) (use True t l e in \<open>auto simp: is_list_def touches_def\<close>)
  moreover have "h_list h' x = Some l' \<longleftrightarrow> x \<in> fst ` set ps" for x
    using True t l S by (cases "x \<in> S") (auto simp: is_list_def touches_def)
  moreover have "h_value h' x = v \<and> x < h_free h'" if "(x, v) \<in> set ps" for x v
    using is_listD(1,2) [OF True that] touchesD(1) [OF t, of x] touchesD(2) [OF t] by simp
  ultimately show ?thesis using True t l by (simp add: list_ok_def is_list_def touches_def)
next
  case False
  then have z: "ps = []" "zero_list h l'" using ok by (auto simp: list_ok_def)
  have "h_list h' x \<noteq> Some l'" for x
    using z t l by (cases "x \<in> S") (auto simp: zero_list_def touches_def)
  then have "zero_list h' l'" using z t l by (simp add: zero_list_def touches_def)
  then show ?thesis using z by (simp add: list_ok_def)
qed

section \<open>Linking and unlinking\<close>

lemmas heap_ops = next_of_def prev_of_def put_next_def put_prev_def

lemma last_ptrs: "last (Some (Root l) # ptrs as) = Some a \<Longrightarrow> as = [] \<and> a = Root l \<or> (\<exists>p \<in> set as. a = El (fst p))"
  by (cases as rule: rev_cases) auto

lemma hd_ptrs: "\<exists>n. hd (ptrs bs @ [Some (Root l)]) = Some n \<and> (n = Root l \<or> (\<exists>p \<in> set bs. n = El (fst p)))"
  by (cases bs) auto

lemma link_target:
  assumes "ring f g (Some (Root l)) (ptrs as @ ptrs bs)" and "Some a = last (Some (Root l) # ptrs as)"
    and "e \<notin> fst ` set (as @ bs)"
  obtains n where "f (Some a) = Some n" "n = Root l \<or> (\<exists>x \<in> fst ` set (as @ bs). n = El x)" "n \<noteq> El e"
proof -
  obtain n where n: "hd (ptrs bs @ [Some (Root l)]) = Some n" "n = Root l \<or> (\<exists>p \<in> set bs. n = El (fst p))"
    using hd_ptrs [of bs l] by blast
  then show thesis using that [of n] ring_at(1) [OF assms(1)] assms(2,3) by auto
qed

lemma ring_not_in:
  assumes "ring f g r (ptrs as @ Some (El e) # ptrs bs)"
  shows "e \<notin> fst ` set (as @ bs)"
proof -
  have "Some (El e) \<notin> set (ptrs as)" "Some (El e) \<notin> set (ptrs bs)"
    using assms unfolding ring_def by simp_all
  then show ?thesis by auto
qed

lemma insert_is_list:
  assumes ok: "is_list h l (as @ bs)" and e: "e \<notin> fst ` set (as @ bs)" "e < h_free h"
    and at: "Some a = last (Some (Root l) # ptrs as)"
  obtains h' where "list_insert h l e (Some a) = Some (e, h')"
    "is_list h' l (as @ (e, h_value h e) # bs)" "touches l (insert e (fst ` set (as @ bs))) h h'" "h_free h' = h_free h"
proof -
  let ?ps = "as @ bs"
  have ring: "ring (field (h_next h)) (field (h_prev h)) (Some (Root l)) (ptrs as @ ptrs bs)"
    using ok by (simp add: is_list_def)
  have a: "a \<noteq> El e" "a = Root l \<or> (\<exists>x \<in> fst ` set ?ps. a = El x)"
    using last_ptrs [OF at [symmetric]] e(1) by auto
  obtain n where n: "h_next h a = Some n" "n = Root l \<or> (\<exists>x \<in> fst ` set ?ps. n = El x)" "n \<noteq> El e"
    by (rule link_target [OF ring at e(1)]) simp
  have not_e: "Some (El e) \<notin> set (Some (Root l) # ptrs as @ ptrs bs)" using e(1) by force
  let ?h = "h\<lparr>h_next := (h_next h)(El e := Some n, a := Some (El e)), h_prev := (h_prev h)(El e := Some a, n := Some (El e)),
      h_list := (h_list h)(e := Some l), h_len := (h_len h)(l := h_len h l + 1)\<rparr>"
  have ins: "list_insert h l e (Some a) = Some (e, ?h)"
    using a(1) n(1) by (simp add: list_insert_def heap_ops)
  have "ring (field (h_next ?h)) (field (h_prev ?h)) (Some (Root l)) (ptrs as @ Some (El e) # ptrs bs)"
    by (rule ring_insert [OF ring _ at]) (use a(1) n(1,3) not_e in \<open>auto\<close>)
  then have "is_list ?h l (as @ (e, h_value h e) # bs)"
    using ok e by (auto simp: is_list_def)
  moreover have "touches l (insert e (fst ` set ?ps)) h ?h"
  proof (rule touchesI)
    fix r assume "r \<noteq> Root l" "r \<notin> El ` insert e (fst ` set ?ps)"
    then have "r \<noteq> a" "r \<noteq> n" "r \<noteq> El e" using a(2) n(2) by auto
    then show "h_next ?h r = h_next h r \<and> h_prev ?h r = h_prev h r" by simp
  qed (use ok in \<open>auto simp: is_list_def\<close>)
  ultimately show thesis using that ins by simp
qed

lemma unlink_ring:
  assumes ring: "ring (field (h_next h)) (field (h_prev h)) (Some (Root l)) (ptrs as @ Some (El e) # ptrs bs)"
  obtains p n where "h_prev h (El e) = Some p" "h_next h (El e) = Some n" "p \<noteq> El e" "n \<noteq> El e"
    "p = Root l \<or> (\<exists>x \<in> fst ` set as. p = El x)" "n = Root l \<or> (\<exists>x \<in> fst ` set bs. n = El x)"
    "ring ((field (h_next h))(Some p := Some n)) ((field (h_prev h))(Some n := Some p)) (Some (Root l)) (ptrs as @ ptrs bs)"
proof -
  obtain n where n: "hd (ptrs bs @ [Some (Root l)]) = Some n" "n = Root l \<or> (\<exists>p \<in> set bs. n = El (fst p))"
    using hd_ptrs [of bs l] by blast
  obtain p where p: "last (Some (Root l) # ptrs as) = Some p" "p = Root l \<or> (\<exists>q \<in> set as. p = El (fst q))"
    by (cases as rule: rev_cases) auto
  have e: "Some (El e) \<notin> set (ptrs as @ ptrs bs)" using ring by (auto simp: ring_def)
  have pv: "h_prev h (El e) = Some p" and nx: "h_next h (El e) = Some n"
    using ring_next [OF ring] n p by simp_all
  have "ring ((field (h_next h))(Some p := Some n)) ((field (h_prev h))(Some n := Some p)) (Some (Root l)) (ptrs as @ ptrs bs)"
    by (rule ring_remove [OF ring]) (use pv nx in simp_all)
  then show thesis using that pv nx n(2) p(2) e by auto
qed

lemma remove_is_list:
  assumes ok: "is_list h l (as @ (e, v) # bs)"
  obtains h' where "list_remove h l e = Some h'" "is_list h' l (as @ bs)"
    "touches l (fst ` set (as @ (e, v) # bs)) h h'" "h_free h' = h_free h" "h_value h' = h_value h"
proof -
  have ring: "ring (field (h_next h)) (field (h_prev h)) (Some (Root l)) (ptrs as @ Some (El e) # ptrs bs)"
    using ok by (simp add: is_list_def)
  have e: "e \<notin> fst ` set (as @ bs)" by (rule ring_not_in [OF ring])
  obtain p n where pn: "h_prev h (El e) = Some p" "h_next h (El e) = Some n" "p \<noteq> El e" "n \<noteq> El e"
    "p = Root l \<or> (\<exists>x \<in> fst ` set as. p = El x)" "n = Root l \<or> (\<exists>x \<in> fst ` set bs. n = El x)"
    and r: "ring ((field (h_next h))(Some p := Some n)) ((field (h_prev h))(Some n := Some p)) (Some (Root l)) (ptrs as @ ptrs bs)"
    by (rule unlink_ring [OF ring])
  let ?h = "h\<lparr>h_next := (h_next h)(p := Some n, El e := None), h_prev := (h_prev h)(n := Some p, El e := None),
      h_list := (h_list h)(e := None), h_len := (h_len h)(l := h_len h l - 1)\<rparr>"
  have rem: "list_remove h l e = Some ?h" using pn by (simp add: list_remove_def heap_ops)
  have "ring (field (h_next ?h)) (field (h_prev ?h)) (Some (Root l)) (ptrs as @ ptrs bs)"
    by (rule ring_cong [OF r]) (use e in auto)
  then have "is_list ?h l (as @ bs)" using ok e by (auto simp: is_list_def)
  moreover have "touches l (fst ` set (as @ (e, v) # bs)) h ?h"
  proof (rule touchesI)
    fix r assume "r \<noteq> Root l" "r \<notin> El ` fst ` set (as @ (e, v) # bs)"
    then have "r \<noteq> p" "r \<noteq> n" "r \<noteq> El e" using pn(5,6) by auto
    then show "h_next ?h r = h_next h r \<and> h_prev ?h r = h_prev h r" by simp
  qed (use ok in \<open>auto simp: is_list_def\<close>)
  ultimately show thesis using that rem by simp
qed

lemma move_is_list:
  assumes ok: "is_list h l (as @ (e, v) # bs)" and cd: "as @ bs = cs @ ds"
    and at: "Some a = last (Some (Root l) # ptrs cs)"
  obtains h' where "list_move h e (Some a) = Some h'" "is_list h' l (cs @ (e, v) # ds)"
    "touches l (fst ` set (as @ (e, v) # bs)) h h'" "h_free h' = h_free h" "h_value h' = h_value h"
proof -
  have ring: "ring (field (h_next h)) (field (h_prev h)) (Some (Root l)) (ptrs as @ Some (El e) # ptrs bs)"
    using ok by (simp add: is_list_def)
  have e: "e \<notin> fst ` set (cs @ ds)" unfolding cd [symmetric] by (rule ring_not_in [OF ring])
  obtain p n where pn: "h_prev h (El e) = Some p" "h_next h (El e) = Some n" "p \<noteq> El e" "n \<noteq> El e"
    "p = Root l \<or> (\<exists>x \<in> fst ` set as. p = El x)" "n = Root l \<or> (\<exists>x \<in> fst ` set bs. n = El x)"
    and r: "ring ((field (h_next h))(Some p := Some n)) ((field (h_prev h))(Some n := Some p)) (Some (Root l)) (ptrs as @ ptrs bs)"
    by (rule unlink_ring [OF ring])
  let ?h1 = "h\<lparr>h_next := (h_next h)(p := Some n), h_prev := (h_prev h)(n := Some p)\<rparr>"
  have ring1: "ring (field (h_next ?h1)) (field (h_prev ?h1)) (Some (Root l)) (ptrs cs @ ptrs ds)"
    using r arg_cong [OF cd, of ptrs] by simp
  have a: "a \<noteq> El e" "a = Root l \<or> (\<exists>x \<in> fst ` set (cs @ ds). a = El x)"
    using last_ptrs [OF at [symmetric]] e by auto
  obtain m where m: "h_next ?h1 a = Some m" "m = Root l \<or> (\<exists>x \<in> fst ` set (cs @ ds). m = El x)" "m \<noteq> El e"
    by (rule link_target [OF ring1 at e]) (auto split: if_splits)
  have not_e: "Some (El e) \<notin> set (Some (Root l) # ptrs cs @ ptrs ds)" using e by force
  let ?h = "?h1\<lparr>h_next := (h_next ?h1)(El e := Some m, a := Some (El e)), h_prev := (h_prev ?h1)(El e := Some a, m := Some (El e))\<rparr>"
  have mv: "list_move h e (Some a) = Some ?h"
    using a(1) pn m(1,3) by (auto simp: list_move_def heap_ops)
  have "ring (field (h_next ?h)) (field (h_prev ?h)) (Some (Root l)) (ptrs cs @ Some (El e) # ptrs ds)"
    by (rule ring_insert [OF ring1 _ at]) (use a(1) m(1,3) not_e in \<open>auto\<close>)
  moreover have s: "set (cs @ (e, v) # ds) = set (as @ (e, v) # bs)" "length (cs @ (e, v) # ds) = length (as @ (e, v) # bs)"
    using arg_cong [OF cd, of set] arg_cong [OF cd, of length] by auto
  ultimately have "is_list ?h l (cs @ (e, v) # ds)"
    using ok unfolding is_list_def s by simp
  moreover have "touches l (fst ` set (as @ (e, v) # bs)) h ?h"
  proof (rule touchesI)
    fix r assume r: "r \<noteq> Root l" "r \<notin> El ` fst ` set (as @ (e, v) # bs)"
    then have "r \<notin> El ` fst ` set (cs @ (e, v) # ds)" using s(1) by simp
    moreover have "a \<in> insert (Root l) (El ` fst ` set (cs @ (e, v) # ds))"
      "m \<in> insert (Root l) (El ` fst ` set (cs @ (e, v) # ds))"
      using a(2) m(2) by (elim disjE bexE; simp)+
    ultimately have "r \<noteq> a" "r \<noteq> m" using r(1) by (metis insertE)+
    moreover have "r \<noteq> p" "r \<noteq> n" "r \<noteq> El e" using r pn(5,6) by auto
    ultimately show "h_next ?h r = h_next h r \<and> h_prev ?h r = h_prev h r" by simp
  qed (use ok in \<open>auto simp: is_list_def\<close>)
  ultimately show thesis using that mv by simp
qed

section \<open>The store of lists\<close>

definition store_inv :: "(nat \<rightharpoonup> (nat \<times> 'v) list) \<Rightarrow> 'v list_heap \<Rightarrow> bool" where
  "store_inv A h \<longleftrightarrow>
     (\<forall>l ps. A l = Some ps \<longrightarrow> list_ok h l ps \<and> l < h_free h) \<and> (\<forall>e l. h_list h e = Some l \<longrightarrow> e < h_free h \<and> l < h_free h)"

lemma is_list_member: "is_list h l ps \<Longrightarrow> h_list h e = Some l \<longleftrightarrow> e \<in> fst ` set ps"
  by (simp add: is_list_def)

lemma list_ok_member: "list_ok h l ps \<Longrightarrow> h_list h e = Some l \<longleftrightarrow> e \<in> fst ` set ps"
  by (elim disjE [OF list_ok_def [THEN iffD1]]) (simp_all add: is_list_member zero_list_def)

lemma list_ok_Cons: "list_ok h l ps \<Longrightarrow> ps \<noteq> [] \<Longrightarrow> is_list h l ps"
  by (auto simp: list_ok_def)

lemma store_step:
  assumes inv: "store_inv A h" and l: "l < h_free h" and t: "touches l S h h'" and ok: "is_list h' l ps'"
    and S: "\<And>e. e \<in> S \<Longrightarrow> h_list h e = Some l \<or> h_list h e = None"
    and new: "\<And>e. e \<in> S \<Longrightarrow> e < h_free h'"
  shows "store_inv (A(l \<mapsto> ps')) h'"
  unfolding store_inv_def
proof (intro conjI allI impI)
  fix l' ps assume a: "(A(l \<mapsto> ps')) l' = Some ps"
  have free: "h_free h \<le> h_free h'" using t by (simp add: touches_def)
  have "l' < h_free h" using a inv l by (auto simp: store_inv_def split: if_splits)
  then show "l' < h_free h'" using free by simp
  show "list_ok h' l' ps"
  proof (cases "l' = l")
    case False
    then have ok': "list_ok h l' ps" using a inv by (simp add: store_inv_def)
    have "S \<inter> fst ` set ps = {}"
    proof (rule equals0I)
      fix e assume "e \<in> S \<inter> fst ` set ps"
      then show False using S [of e] list_ok_member [OF ok', of e] False by simp
    qed
    then show ?thesis by (rule touches_other [OF t False ok'])
  qed (use a ok in \<open>simp add: list_ok_def\<close>)
next
  fix e l' assume a: "h_list h' e = Some l'"
  note free = touchesD(2) [OF t]
  have "e < h_free h' \<and> l' < h_free h'"
  proof (cases "e \<in> S")
    case True
    then show ?thesis using touchesD(4) [OF t True] new [OF True] a l free by simp
  next
    case False
    then have "h_list h e = Some l'" using touchesD(3) [OF t] a by simp
    then have "e < h_free h" "l' < h_free h" using inv by (auto simp: store_inv_def)
    then show ?thesis using free by simp
  qed
  then show "e < h_free h'" "l' < h_free h'" by simp_all
qed

lemma insertValue_is_list:
  assumes ok: "is_list h l (as @ bs)" and at: "Some a = last (Some (Root l) # ptrs as)"
  obtains h' where "insertValue h l v (Some a) = Some (h_free h, h')" "is_list h' l (as @ (h_free h, v) # bs)"
    "touches l (insert (h_free h) (fst ` set (as @ bs))) h h'" "h_free h' = h_free h + 1"
proof -
  let ?e = "h_free h"
  let ?h = "h\<lparr>h_next := (h_next h)(El ?e := None), h_prev := (h_prev h)(El ?e := None), h_list := (h_list h)(?e := None),
      h_value := (h_value h)(?e := v), h_free := ?e + 1\<rparr>"
  have e: "?e \<notin> fst ` set (as @ bs)" using is_listD(2) [OF ok] by fastforce
  have "ring (field (h_next ?h)) (field (h_prev ?h)) (Some (Root l)) (ptrs as @ ptrs bs)"
    by (rule ring_cong [of "field (h_next h)" "field (h_prev h)"]) (use ok e in \<open>auto simp: is_list_def\<close>)
  moreover have "h_value ?h x = w \<and> x < h_free ?h" if "(x, w) \<in> set (as @ bs)" for x w
    using is_listD(1,2) [OF ok that] by simp
  moreover have "h_list ?h x = Some l \<longleftrightarrow> x \<in> fst ` set (as @ bs)" for x
    using is_listD(3) [OF ok, of x] e by simp
  ultimately have ok1: "is_list ?h l (as @ bs)"
    using is_listD(4) [OF ok] unfolding is_list_def by simp
  obtain h' where h': "list_insert ?h l ?e (Some a) = Some (?e, h')" "is_list h' l (as @ (?e, h_value ?h ?e) # bs)"
    "touches l (insert ?e (fst ` set (as @ bs))) ?h h'" "h_free h' = h_free ?h"
    by (rule insert_is_list [OF ok1 e _ at]) simp
  have "touches l (insert ?e (fst ` set (as @ bs))) h h'"
    using h'(3,4) by (auto simp: touches_def)
  then show thesis using that h' by (simp add: insertValue_def Let_def)
qed

text \<open>Inserting a new element anywhere in a list of the store.\<close>

lemma insertValue_store:
  assumes inv: "store_inv A h" and l: "l < h_free h" and ok: "is_list h l (as @ bs)"
    and at: "at = last (Some (Root l) # ptrs as)"
  obtains h' where "insertValue h l v at = Some (h_free h, h')" "is_list h' l (as @ (h_free h, v) # bs)"
    "store_inv (A(l \<mapsto> as @ (h_free h, v) # bs)) h'" "h_free h' = h_free h + 1"
    "\<And>e. e < h_free h \<Longrightarrow> h_value h' e = h_value h e"
proof -
  obtain a where a: "at = Some a" using at by (cases as rule: rev_cases) auto
  have at': "Some a = last (Some (Root l) # ptrs as)" using at a by simp
  obtain h' where h': "insertValue h l v (Some a) = Some (h_free h, h')" "is_list h' l (as @ (h_free h, v) # bs)"
    and t: "touches l (insert (h_free h) (fst ` set (as @ bs))) h h'" and f: "h_free h' = h_free h + 1"
    by (rule insertValue_is_list [OF ok at'])
  have "h_list h (h_free h) = None"
    using inv by (cases "h_list h (h_free h)") (auto simp: store_inv_def)
  then have old: "h_list h e = Some l \<or> h_list h e = None" if "e \<in> insert (h_free h) (fst ` set (as @ bs))" for e
    using that is_listD(3) [OF ok, of e] by (elim insertE) simp_all
  have bound: "x < h_free h'" if x: "x \<in> insert (h_free h) (fst ` set (as @ bs))" for x
  proof (cases "x = h_free h")
    case False
    then obtain w where "(x, w) \<in> set (as @ bs)" using x by (metis imageE insertE prod.collapse)
    then show ?thesis using is_listD(2) [OF ok] f by fastforce
  qed (simp add: f)
  have "store_inv (A(l \<mapsto> as @ (h_free h, v) # bs)) h'"
    by (rule store_step [OF inv l t h'(2) old bound])
  moreover have "h_value h' e = h_value h e" if "e < h_free h" for e using t that by (simp add: touches_def)
  ultimately show thesis using that h' f a by blast
qed

lemma lazyInit_store:
  assumes inv: "store_inv A h" and l: "A l = Some ps"
  shows "is_list (lazyInit h l) l ps" and "store_inv A (lazyInit h l)"
    and "h_free (lazyInit h l) = h_free h"
proof -
  have ok: "list_ok h l ps" "l < h_free h" using inv l by (simp_all add: store_inv_def)
  have t: "touches l {} h (lazyInit h l)" by (auto simp: touches_def lazyInit_def Init_def)
  show "h_free (lazyInit h l) = h_free h" by (simp add: lazyInit_def Init_def)
  show ok': "is_list (lazyInit h l) l ps"
  proof (cases "is_list h l ps")
    case True
    then obtain n where "h_next h (Root l) = Some n"
      using ring_ends(1) [OF is_listD(5) [OF True]] hd_ptrs [of ps l] by auto
    then show ?thesis using True by (simp add: lazyInit_def)
  next
    case False
    then have "ps = []" "zero_list h l" using ok by (auto simp: list_ok_def)
    then show ?thesis by (simp add: lazyInit_def zero_list_def Init_def is_list_def ring_def)
  qed
  have "store_inv (A(l \<mapsto> ps)) (lazyInit h l)"
    by (rule store_step [OF inv ok(2) t ok']) simp_all
  then show "store_inv A (lazyInit h l)" using l by (simp add: fun_upd_idem)
qed

end
