(* ===== verification/List_Store.thy ===== *)
theory List_Store
  imports Linked_List
begin

text \<open>
  What the operations of the doubly linked list do to a store of lists: each of them is a function on
  finite sequences of elements, addressed by list and element, and no list but the one named changes.
\<close>

section \<open>Abstract operations\<close>

fun before :: "nat \<times> 'v \<Rightarrow> nat \<Rightarrow> (nat \<times> 'v) list \<Rightarrow> (nat \<times> 'v) list" where
  "before x mark [] = []"
| "before x mark (p # ps) = (if fst p = mark then x # p # ps else p # before x mark ps)"

fun after :: "nat \<times> 'v \<Rightarrow> nat \<Rightarrow> (nat \<times> 'v) list \<Rightarrow> (nat \<times> 'v) list" where
  "after x mark [] = []"
| "after x mark (p # ps) = (if fst p = mark then p # x # ps else p # after x mark ps)"

definition without :: "nat \<Rightarrow> (nat \<times> 'v) list \<Rightarrow> (nat \<times> 'v) list" where
  "without e ps = filter (\<lambda>p. fst p \<noteq> e) ps"

definition member :: "nat \<Rightarrow> (nat \<times> 'v) list \<Rightarrow> bool" where
  "member e ps \<longleftrightarrow> e \<in> fst ` set ps"

definition pair_of :: "nat \<Rightarrow> (nat \<times> 'v) list \<Rightarrow> nat \<times> 'v" where
  "pair_of e ps = hd (filter (\<lambda>p. fst p = e) ps)"

datatype 'v list_op =
    LNew
  | LVar
  | LPushFront nat 'v
  | LPushBack nat 'v
  | LInsertBefore nat 'v nat
  | LInsertAfter nat 'v nat
  | LRemove nat nat
  | LMoveToFront nat nat
  | LMoveToBack nat nat
  | LMoveBefore nat nat nat
  | LMoveAfter nat nat nat
  | LPushBackList nat nat
  | LPushFrontList nat nat

text \<open>\<open>LVar\<close> declares a zero \<open>List\<close>, which the operations initialise when they need to.\<close>

definition alloc_zero :: "'v list_heap \<Rightarrow> nat \<times> 'v list_heap" where
  "alloc_zero h =
     (let l = h_free h in
      (l, h\<lparr>h_next := (h_next h)(Root l := None), h_prev := (h_prev h)(Root l := None),
            h_len := (h_len h)(l := 0), h_free := l + 1\<rparr>))"

fun list_step :: "'v list_heap \<Rightarrow> 'v list_op \<Rightarrow> 'v list_heap option" where
  "list_step h LNew = Some (snd (New h))"
| "list_step h LVar = Some (snd (alloc_zero h))"
| "list_step h (LPushFront l v) = map_option snd (PushFront h l v)"
| "list_step h (LPushBack l v) = map_option snd (PushBack h l v)"
| "list_step h (LInsertBefore l v mark) = map_option snd (InsertBefore h l v mark)"
| "list_step h (LInsertAfter l v mark) = map_option snd (InsertAfter h l v mark)"
| "list_step h (LRemove l e) = map_option snd (Remove h l e)"
| "list_step h (LMoveToFront l e) = MoveToFront h l e"
| "list_step h (LMoveToBack l e) = MoveToBack h l e"
| "list_step h (LMoveBefore l e mark) = MoveBefore h l e mark"
| "list_step h (LMoveAfter l e mark) = MoveAfter h l e mark"
| "list_step h (LPushBackList l other) = PushBackList h l other"
| "list_step h (LPushFrontList l other) = PushFrontList h l other"

type_synonym 'v store = "nat \<rightharpoonup> (nat \<times> 'v) list"

definition on_list :: "'v store \<Rightarrow> nat \<Rightarrow> nat \<Rightarrow> nat \<Rightarrow> ((nat \<times> 'v) list \<Rightarrow> (nat \<times> 'v) list) \<Rightarrow> ('v store \<times> nat) option" where
  "on_list A n l k f = map_option (\<lambda>ps. (A(l \<mapsto> f ps), n + k)) (A l)"

text \<open>The store of sequences, and the next free address.  \<open>None\<close>: the list named does not exist.\<close>

fun spec_step :: "'v store \<times> nat \<Rightarrow> 'v list_op \<Rightarrow> ('v store \<times> nat) option" where
  "spec_step (A, n) LNew = Some (A(n \<mapsto> []), n + 1)"
| "spec_step (A, n) LVar = Some (A(n \<mapsto> []), n + 1)"
| "spec_step (A, n) (LPushFront l v) = on_list A n l 1 (\<lambda>ps. (n, v) # ps)"
| "spec_step (A, n) (LPushBack l v) = on_list A n l 1 (\<lambda>ps. ps @ [(n, v)])"
| "spec_step (A, n) (LInsertBefore l v mark) =
     on_list A n l (case A l of Some ps \<Rightarrow> if member mark ps then 1 else 0 | None \<Rightarrow> 0) (before (n, v) mark)"
| "spec_step (A, n) (LInsertAfter l v mark) =
     on_list A n l (case A l of Some ps \<Rightarrow> if member mark ps then 1 else 0 | None \<Rightarrow> 0) (after (n, v) mark)"
| "spec_step (A, n) (LRemove l e) = on_list A n l 0 (without e)"
| "spec_step (A, n) (LMoveToFront l e) =
     on_list A n l 0 (\<lambda>ps. if member e ps then pair_of e ps # without e ps else ps)"
| "spec_step (A, n) (LMoveToBack l e) =
     on_list A n l 0 (\<lambda>ps. if member e ps then without e ps @ [pair_of e ps] else ps)"
| "spec_step (A, n) (LMoveBefore l e mark) =
     on_list A n l 0 (\<lambda>ps. if member e ps \<and> e \<noteq> mark \<and> member mark ps
                           then before (pair_of e ps) mark (without e ps) else ps)"
| "spec_step (A, n) (LMoveAfter l e mark) =
     on_list A n l 0 (\<lambda>ps. if member e ps \<and> e \<noteq> mark \<and> member mark ps
                           then after (pair_of e ps) mark (without e ps) else ps)"
| "spec_step (A, n) (LPushBackList l other) =
     (case A other of None \<Rightarrow> None
      | Some qs \<Rightarrow> on_list A n l (length qs) (\<lambda>ps. ps @ zip [n..<n + length qs] (map snd qs)))"
| "spec_step (A, n) (LPushFrontList l other) =
     (case A other of None \<Rightarrow> None
      | Some qs \<Rightarrow> on_list A n l (length qs) (\<lambda>ps. zip (rev [n..<n + length qs]) (map snd qs) @ ps))"

section \<open>Positions\<close>

lemma distinct_fst: "is_list h l ps \<Longrightarrow> distinct (map fst ps)"
proof -
  assume "is_list h l ps"
  then have "distinct (ptrs ps)" using is_listD(5) by (auto simp: ring_def)
  then show ?thesis by (simp add: distinct_map inj_on_def)
qed

lemma member_split:
  assumes "distinct (map fst ps)" and "member e ps"
  obtains as v bs where "ps = as @ (e, v) # bs" "e \<notin> fst ` set as" "e \<notin> fst ` set bs"
    "without e ps = as @ bs" "pair_of e ps = (e, v)"
proof -
  obtain v where "(e, v) \<in> set ps" using assms(2) by (auto simp: member_def)
  then obtain as bs where ps: "ps = as @ (e, v) # bs" by (meson split_list)
  then have e: "e \<notin> fst ` set as" "e \<notin> fst ` set bs" using assms(1) by auto
  then have f: "filter (\<lambda>p. fst p \<noteq> e) as = as" "filter (\<lambda>p. fst p \<noteq> e) bs = bs" "filter (\<lambda>p. fst p = e) as = []"
    by (auto simp: filter_id_conv filter_empty_conv)
  show thesis by (rule that [OF ps e]) (simp_all add: without_def pair_of_def ps f)
qed

lemma before_append: "mark \<notin> fst ` set as \<Longrightarrow> before x mark (as @ (mark, v) # bs) = as @ x # (mark, v) # bs"
  by (induction as) auto

lemma after_append: "mark \<notin> fst ` set as \<Longrightarrow> after x mark (as @ (mark, v) # bs) = as @ (mark, v) # x # bs"
  by (induction as) auto

lemma before_not_member: "\<not> member mark ps \<Longrightarrow> before x mark ps = ps"
  by (induction ps) (auto simp: member_def)

lemma after_not_member: "\<not> member mark ps \<Longrightarrow> after x mark ps = ps"
  by (induction ps) (auto simp: member_def)

lemma without_not_member: "\<not> member e ps \<Longrightarrow> without e ps = ps"
  by (auto simp: member_def without_def filter_id_conv)

section \<open>Each operation\<close>

definition reaches :: "'v list_heap option \<Rightarrow> 'v store \<Rightarrow> nat \<Rightarrow> bool" where
  "reaches r A n \<longleftrightarrow> (\<exists>h. r = Some h \<and> store_inv A h \<and> h_free h = n)"

lemma store_invD:
  assumes "store_inv A h" and "A l = Some ps"
  shows "list_ok h l ps" and "l < h_free h"
  using assms by (simp_all add: store_inv_def)

lemma in_place_store:
  assumes inv: "store_inv A h" and l: "A l = Some ps" and ok: "is_list h l ps" and ok': "is_list h' l ps'"
    and t: "touches l (fst ` set ps) h h'" and f: "h_free h' = h_free h"
  shows "store_inv (A(l \<mapsto> ps')) h'"
proof (rule store_step [OF inv store_invD(2) [OF inv l] t ok'])
  fix e assume e: "e \<in> fst ` set ps"
  then show "h_list h e = Some l \<or> h_list h e = None" using is_listD(3) [OF ok] by simp
  obtain v where "(e, v) \<in> set ps" using e by auto
  then show "e < h_free h'" using is_listD(2) [OF ok] f by simp
qed

lemma new_store:
  assumes inv: "store_inv A h" and f: "h_free h' = h_free h + 1" and ok: "list_ok h' (h_free h) []"
    and same: "\<And>r. r \<noteq> Root (h_free h) \<Longrightarrow> h_next h' r = h_next h r \<and> h_prev h' r = h_prev h r"
      "h_list h' = h_list h" "h_value h' = h_value h" "\<And>l. l \<noteq> h_free h \<Longrightarrow> h_len h' l = h_len h l"
  shows "store_inv (A(h_free h \<mapsto> [])) h'"
proof -
  have t: "touches (h_free h) {} h h'" using same f by (simp add: touches_def)
  have "list_ok h' l ps \<and> l < h_free h'" if "(A(h_free h \<mapsto> [])) l = Some ps" for l ps
  proof (cases "l = h_free h")
    case False
    then have "A l = Some ps" using that by simp
    note o = store_invD [OF inv this]
    show ?thesis using touches_other [OF t False o(1)] o(2) f by simp
  qed (use that ok f in simp)
  then show ?thesis using inv same(2) f by (fastforce simp: store_inv_def)
qed

lemma no_owner: "store_inv A h \<Longrightarrow> h_list h e \<noteq> Some (h_free h)"
  by (auto simp: store_inv_def)

lemma New_reaches: "store_inv A h \<Longrightarrow> reaches (Some (snd (New h))) (A(h_free h \<mapsto> [])) (h_free h + 1)"
  unfolding reaches_def
  by (intro exI [of _ "snd (New h)"] conjI refl new_store)
    (auto simp: New_def Init_def Let_def list_ok_def is_list_def ring_def no_owner)

lemma Var_reaches: "store_inv A h \<Longrightarrow> reaches (Some (snd (alloc_zero h))) (A(h_free h \<mapsto> [])) (h_free h + 1)"
  unfolding reaches_def
  by (intro exI [of _ "snd (alloc_zero h)"] conjI refl new_store)
    (auto simp: alloc_zero_def Let_def list_ok_def zero_list_def no_owner)

lemma insert_reaches:
  assumes "store_inv A h" and "A l = Some (as @ bs)" and "is_list h l (as @ bs)" and "at = last (Some (Root l) # ptrs as)"
  shows "reaches (map_option snd (insertValue h l v at)) (A(l \<mapsto> as @ (h_free h, v) # bs)) (h_free h + 1)"
proof -
  obtain h' where "insertValue h l v at = Some (h_free h, h')" "store_inv (A(l \<mapsto> as @ (h_free h, v) # bs)) h'"
    "h_free h' = h_free h + 1"
    by (rule insertValue_store [OF assms(1) store_invD(2) [OF assms(1,2)] assms(3,4)])
  then show ?thesis by (simp add: reaches_def)
qed

lemma PushFront_reaches:
  assumes "store_inv A h" and "A l = Some ps"
  shows "reaches (map_option snd (PushFront h l v)) (A(l \<mapsto> (h_free h, v) # ps)) (h_free h + 1)"
  using insert_reaches [of A "lazyInit h l" l "[]" ps] lazyInit_store [OF assms] assms(2)
  by (simp add: PushFront_def)

lemma PushBack_reaches:
  assumes "store_inv A h" and "A l = Some ps"
  shows "reaches (map_option snd (PushBack h l v)) (A(l \<mapsto> ps @ [(h_free h, v)])) (h_free h + 1)"
proof -
  note i = lazyInit_store [OF assms]
  have "h_prev (lazyInit h l) (Root l) = last (Some (Root l) # ptrs ps)"
    using ring_ends(2) [OF is_listD(5) [OF i(1)]] by simp
  then show ?thesis
    using insert_reaches [of A "lazyInit h l" l ps "[]"] i assms(2) by (simp add: PushBack_def Let_def)
qed

lemma foreign:
  assumes "store_inv A h" and "A l = Some ps"
  shows "h_list h e = Some l \<longleftrightarrow> member e ps"
  using list_ok_member [OF store_invD(1) [OF assms]] by (simp add: member_def)

lemma member_is_list:
  assumes "store_inv A h" and "A l = Some ps" and "member e ps"
  shows "is_list h l ps"
proof (rule list_ok_Cons [OF store_invD(1) [OF assms(1,2)]])
  show "ps \<noteq> []" using assms(3) by (auto simp: member_def)
qed

lemma InsertBefore_reaches:
  assumes inv: "store_inv A h" and l: "A l = Some ps"
  shows "reaches (map_option snd (InsertBefore h l v mark)) (A(l \<mapsto> before (h_free h, v) mark ps))
    (h_free h + (if member mark ps then 1 else 0))"
proof (cases "member mark ps")
  case True
  note ok = member_is_list [OF inv l True]
  obtain as w bs where ps: "ps = as @ (mark, w) # bs" "mark \<notin> fst ` set as"
    by (rule member_split [OF distinct_fst [OF ok] True])
  have "h_prev h (El mark) = last (Some (Root l) # ptrs as)"
    using ring_next(2) [of "field (h_next h)" "field (h_prev h)" "Some (Root l)" "ptrs as" "Some (El mark)" "ptrs bs"]
      is_listD(5) [OF ok] ps by simp
  then have "reaches (map_option snd (insertValue h l v (h_prev h (El mark)))) (A(l \<mapsto> as @ (h_free h, v) # (mark, w) # bs)) (h_free h + 1)"
    using insert_reaches [OF inv, of l as "(mark, w) # bs"] l ok ps by simp
  moreover have "map_option snd (InsertBefore h l v mark) = map_option snd (insertValue h l v (h_prev h (El mark)))"
    using foreign [OF inv l] True by (simp add: InsertBefore_def option.map_comp comp_def)
  ultimately show ?thesis using True ps by (simp add: before_append)
next
  case False
  then show ?thesis
    using foreign [OF inv l] inv l
    by (simp add: InsertBefore_def reaches_def before_not_member fun_upd_idem)
qed

lemma InsertAfter_reaches:
  assumes inv: "store_inv A h" and l: "A l = Some ps"
  shows "reaches (map_option snd (InsertAfter h l v mark)) (A(l \<mapsto> after (h_free h, v) mark ps))
    (h_free h + (if member mark ps then 1 else 0))"
proof (cases "member mark ps")
  case True
  note ok = member_is_list [OF inv l True]
  obtain as w bs where ps: "ps = as @ (mark, w) # bs" "mark \<notin> fst ` set as"
    by (rule member_split [OF distinct_fst [OF ok] True])
  have "reaches (map_option snd (insertValue h l v (Some (El mark)))) (A(l \<mapsto> (as @ [(mark, w)]) @ (h_free h, v) # bs)) (h_free h + 1)"
    using insert_reaches [OF inv, of l "as @ [(mark, w)]" bs] l ok ps by simp
  moreover have "map_option snd (InsertAfter h l v mark) = map_option snd (insertValue h l v (Some (El mark)))"
    using foreign [OF inv l] True by (simp add: InsertAfter_def option.map_comp comp_def)
  ultimately show ?thesis using True ps by (simp add: after_append)
next
  case False
  then show ?thesis
    using foreign [OF inv l] inv l
    by (simp add: InsertAfter_def reaches_def after_not_member fun_upd_idem)
qed

lemma unchanged_reaches: "store_inv A h \<Longrightarrow> A l = Some ps \<Longrightarrow> reaches (Some h) (A(l \<mapsto> ps)) (h_free h)"
  by (simp add: reaches_def fun_upd_idem)

lemma Remove_reaches:
  assumes inv: "store_inv A h" and l: "A l = Some ps"
  shows "reaches (map_option snd (Remove h l e)) (A(l \<mapsto> without e ps)) (h_free h)"
proof (cases "member e ps")
  case True
  note ok = member_is_list [OF inv l True]
  obtain as w bs where ps: "ps = as @ (e, w) # bs" "without e ps = as @ bs"
    by (rule member_split [OF distinct_fst [OF ok] True])
  obtain h' where h': "list_remove h l e = Some h'" "is_list h' l (as @ bs)"
    "touches l (fst ` set ps) h h'" "h_free h' = h_free h"
    using remove_is_list [OF ok [unfolded ps(1)]] ps(1) by metis
  have "store_inv (A(l \<mapsto> as @ bs)) h'" by (rule in_place_store [OF inv l ok h'(2,3,4)])
  then show ?thesis using foreign [OF inv l] True h' ps(2) by (simp add: Remove_def reaches_def)
next
  case False
  then show ?thesis
    using foreign [OF inv l] unchanged_reaches [OF inv l] by (simp add: Remove_def without_not_member)
qed

text \<open>Moving \<open>e\<close> behind the last of \<open>cs\<close>.\<close>

lemma move_reaches:
  assumes inv: "store_inv A h" and l: "A l = Some ps" and e: "member e ps"
    and cd: "without e ps = cs @ ds" and at: "at = last (Some (Root l) # ptrs cs)"
  shows "reaches (list_move h e at) (A(l \<mapsto> cs @ pair_of e ps # ds)) (h_free h)"
proof -
  note ok = member_is_list [OF inv l e]
  obtain as w bs where ps: "ps = as @ (e, w) # bs" "without e ps = as @ bs" "pair_of e ps = (e, w)"
    by (rule member_split [OF distinct_fst [OF ok] e])
  have cd': "as @ bs = cs @ ds" using cd ps(2) by simp
  obtain a where a: "at = Some a" using at by (cases cs rule: rev_cases) auto
  obtain h' where h': "list_move h e at = Some h'" "is_list h' l (cs @ (e, w) # ds)"
    "touches l (fst ` set ps) h h'" "h_free h' = h_free h"
    using move_is_list [OF ok [unfolded ps(1)] cd', of a] at a ps(1) by metis
  have "store_inv (A(l \<mapsto> cs @ (e, w) # ds)) h'" by (rule in_place_store [OF inv l ok h'(2,3,4)])
  then show ?thesis using h' ps(3) by (simp add: reaches_def)
qed

lemma MoveToFront_reaches:
  assumes inv: "store_inv A h" and l: "A l = Some ps"
  shows "reaches (MoveToFront h l e) (A(l \<mapsto> if member e ps then pair_of e ps # without e ps else ps)) (h_free h)"
proof (cases "member e ps")
  case True
  note ok = member_is_list [OF inv l True]
  obtain as w bs where ps: "ps = as @ (e, w) # bs" "e \<notin> fst ` set as" "without e ps = as @ bs" "pair_of e ps = (e, w)"
    by (rule member_split [OF distinct_fst [OF ok] True])
  show ?thesis
  proof (cases "h_next h (Root l) = Some (El e)")
    case at_front: True
    then have "as = []" using ring_ends(1) [OF is_listD(5) [OF ok]] ps(1,2) by (cases as) auto
    then show ?thesis
      using at_front True unchanged_reaches [OF inv l] ps by (simp add: MoveToFront_def)
  next
    case False
    then show ?thesis
      using foreign [OF inv l] True move_reaches [OF inv l True, of "[]" "as @ bs"] ps(3) by (simp add: MoveToFront_def)
  qed
next
  case False
  then show ?thesis using foreign [OF inv l] unchanged_reaches [OF inv l] by (simp add: MoveToFront_def)
qed

lemma MoveToBack_reaches:
  assumes inv: "store_inv A h" and l: "A l = Some ps"
  shows "reaches (MoveToBack h l e) (A(l \<mapsto> if member e ps then without e ps @ [pair_of e ps] else ps)) (h_free h)"
proof (cases "member e ps")
  case True
  note ok = member_is_list [OF inv l True]
  obtain as w bs where ps: "ps = as @ (e, w) # bs" "e \<notin> fst ` set bs" "without e ps = as @ bs" "pair_of e ps = (e, w)"
    by (rule member_split [OF distinct_fst [OF ok] True])
  have behind: "h_prev h (Root l) = last (Some (Root l) # ptrs ps)"
    using ring_ends(2) [OF is_listD(5) [OF ok]] by simp
  show ?thesis
  proof (cases bs rule: rev_cases)
    case Nil
    then show ?thesis
      using behind True unchanged_reaches [OF inv l] ps by (simp add: MoveToBack_def)
  next
    case (snoc bs' b)
    then have "h_prev h (Root l) = last (Some (Root l) # ptrs (as @ bs))" "h_prev h (Root l) \<noteq> Some (El e)"
      using behind ps(1,2) by auto
    then show ?thesis
      using foreign [OF inv l] True move_reaches [OF inv l True, of "as @ bs" "[]"] ps(3) by (simp add: MoveToBack_def)
  qed
next
  case False
  then show ?thesis using foreign [OF inv l] unchanged_reaches [OF inv l] by (simp add: MoveToBack_def)
qed

lemma member_without: "member mark (without e ps) \<longleftrightarrow> member mark ps \<and> mark \<noteq> e"
  by (auto simp: member_def without_def)

lemma distinct_without: "distinct (map fst ps) \<Longrightarrow> distinct (map fst (without e ps))"
  by (simp add: without_def distinct_map_filter)

lemma MoveAfter_reaches:
  assumes inv: "store_inv A h" and l: "A l = Some ps"
  shows "reaches (MoveAfter h l e mark)
    (A(l \<mapsto> if member e ps \<and> e \<noteq> mark \<and> member mark ps then after (pair_of e ps) mark (without e ps) else ps)) (h_free h)"
proof (cases "member e ps \<and> e \<noteq> mark \<and> member mark ps")
  case True
  note d = distinct_fst [OF member_is_list [OF inv l, of e]]
  obtain as w bs where r: "without e ps = as @ (mark, w) # bs" "mark \<notin> fst ` set as"
    using member_split [OF distinct_without [OF d, of e], of mark] True member_without by metis
  have "reaches (list_move h e (Some (El mark))) (A(l \<mapsto> (as @ [(mark, w)]) @ pair_of e ps # bs)) (h_free h)"
    using True r by (intro move_reaches [OF inv l]) simp_all
  then show ?thesis using True r foreign [OF inv l] by (simp add: MoveAfter_def after_append)
next
  case False
  then show ?thesis using foreign [OF inv l] unchanged_reaches [OF inv l] by (auto simp: MoveAfter_def)
qed

lemma MoveBefore_reaches:
  assumes inv: "store_inv A h" and l: "A l = Some ps"
  shows "reaches (MoveBefore h l e mark)
    (A(l \<mapsto> if member e ps \<and> e \<noteq> mark \<and> member mark ps then before (pair_of e ps) mark (without e ps) else ps)) (h_free h)"
proof (cases "member e ps \<and> e \<noteq> mark \<and> member mark ps")
  case True
  note ok = member_is_list [OF inv l, of e]
  obtain cs x ds where ps: "ps = cs @ (mark, x) # ds" "mark \<notin> fst ` set cs"
    using member_split [OF distinct_fst [OF ok], of mark] True by metis
  have prev: "h_prev h (El mark) = last (Some (Root l) # ptrs cs)"
    using ring_next(2) [of "field (h_next h)" "field (h_prev h)" "Some (Root l)" "ptrs cs" "Some (El mark)" "ptrs ds"]
      is_listD(5) [OF ok] ps True by simp
  have w: "without e ps = without e cs @ (mark, x) # without e ds" "mark \<notin> fst ` set (without e cs)"
    using True ps(2) by (auto simp: ps(1) without_def)
  have mv: "MoveBefore h l e mark = list_move h e (last (Some (Root l) # ptrs cs))"
    using True foreign [OF inv l] prev by (simp add: MoveBefore_def)
  show ?thesis
  proof (cases "cs \<noteq> [] \<and> fst (last cs) = e")
    case here: True
    then obtain cs' y where cs: "cs = cs' @ [(e, y)]" by (cases cs rule: rev_cases) auto
    have "e \<notin> fst ` set cs'" "e \<notin> fst ` set ds" using distinct_fst [OF ok] True by (auto simp: ps(1) cs)
    then have f: "filter (\<lambda>p. fst p \<noteq> e) cs' = cs'" "filter (\<lambda>p. fst p \<noteq> e) ds = ds" "filter (\<lambda>p. fst p = e) cs' = []"
      by (auto simp: filter_id_conv filter_empty_conv)
    then have "before (pair_of e ps) mark (without e ps) = ps"
      using w(2) by (simp add: w(1)) (simp add: before_append ps(1) cs without_def pair_of_def)
    then show ?thesis using True mv cs unchanged_reaches [OF inv l] by (simp add: list_move_def)
  next
    case False
    then have "last (Some (Root l) # ptrs cs) = last (Some (Root l) # ptrs (without e cs))"
      by (cases cs rule: rev_cases) (auto simp: without_def)
    then show ?thesis
      using True mv move_reaches [OF inv l _ w(1)] by (simp add: w(1) before_append [OF w(2)])
  qed
next
  case False
  then show ?thesis using foreign [OF inv l] unchanged_reaches [OF inv l] by (auto simp: MoveBefore_def)
qed

section \<open>Iteration\<close>

lemma Next_at:
  assumes "is_list h l (as @ (e, v) # bs)"
  shows "Next h e = (case bs of [] \<Rightarrow> None | b # _ \<Rightarrow> Some (El (fst b)))"
proof -
  have "h_list h e = Some l" using is_listD(3) [OF assms] by simp
  moreover have "h_next h (El e) = hd (ptrs bs @ [Some (Root l)])"
    using ring_next(1) [of "field (h_next h)" "field (h_prev h)" "Some (Root l)" "ptrs as" "Some (El e)" "ptrs bs"]
      is_listD(5) [OF assms] by simp
  ultimately show ?thesis by (cases bs) (simp_all add: Next_def Let_def)
qed

lemma Prev_at:
  assumes "is_list h l (as @ (e, v) # bs)"
  shows "Prev h e = (if as = [] then None else Some (El (fst (last as))))"
proof -
  have "h_list h e = Some l" using is_listD(3) [OF assms] by simp
  moreover have "h_prev h (El e) = last (Some (Root l) # ptrs as)"
    using ring_next(2) [of "field (h_next h)" "field (h_prev h)" "Some (Root l)" "ptrs as" "Some (El e)" "ptrs bs"]
      is_listD(5) [OF assms] by simp
  ultimately show ?thesis by (cases as rule: rev_cases) (simp_all add: Prev_def Let_def)
qed

lemma ends_at:
  assumes "list_ok h l ps"
  shows "Len h l = int (length ps)" and "Front h l = (case ps of [] \<Rightarrow> None | p # _ \<Rightarrow> Some (El (fst p)))"
    and "Back h l = (if ps = [] then None else Some (El (fst (last ps))))"
proof -
  have len: "h_len h l = int (length ps)" using assms is_listD(4) by (auto simp: list_ok_def zero_list_def)
  then show "Len h l = int (length ps)" by (simp add: Len_def)
  have r: "h_next h (Root l) = hd (ptrs ps @ [Some (Root l)])" "h_prev h (Root l) = last (Some (Root l) # ptrs ps)" if "ps \<noteq> []"
    using ring_ends [OF is_listD(5) [OF list_ok_Cons [OF assms that]]] by simp_all
  show "Front h l = (case ps of [] \<Rightarrow> None | p # _ \<Rightarrow> Some (El (fst p)))"
    using r(1) len by (cases ps) (simp_all add: Front_def)
  show "Back h l = (if ps = [] then None else Some (El (fst (last ps))))"
    using r(2) len by (cases ps rule: rev_cases) (simp_all add: Back_def)
qed

section \<open>Copying a list\<close>

lemma push_back_loop_reaches:
  assumes "store_inv A h" and "A l = Some ps" and "is_list h l ps" and "A other = Some qs" and "qs = us @ vs @ ws"
    and "vs = [] \<or> p = Some (El (fst (hd vs)))"
  shows "reaches (push_back_loop (length vs) h l p)
    (A(l \<mapsto> ps @ zip [h_free h..<h_free h + length vs] (map snd vs))) (h_free h + length vs)"
  using assms
proof (induction vs arbitrary: A h ps qs us ws p)
  case Nil
  then show ?case by (simp add: reaches_def fun_upd_idem)
next
  case (Cons q vs)
  let ?n = "h_free h"
  have val: "h_value h (fst q) = snd q" and q: "fst q < h_free h"
    using Cons.prems(4,5) is_listD(1,2) [OF list_ok_Cons [OF store_invD(1) [OF Cons.prems(1,4)]], of "fst q" "snd q"] by auto
  have at: "h_prev h (Root l) = last (Some (Root l) # ptrs ps)"
    using ring_ends(2) [OF is_listD(5) [OF Cons.prems(3)]] by simp
  obtain h' where h': "insertValue h l (snd q) (h_prev h (Root l)) = Some (?n, h')" "is_list h' l (ps @ [(?n, snd q)])"
    "store_inv (A(l \<mapsto> ps @ [(?n, snd q)])) h'" "h_free h' = ?n + 1"
    using insertValue_store [OF Cons.prems(1) store_invD(2) [OF Cons.prems(1,2)], of ps "[]" "h_prev h (Root l)" "snd q"]
      Cons.prems(3) at by auto
  let ?A = "A(l \<mapsto> ps @ [(?n, snd q)])"
  obtain ws' where o: "?A other = Some (us @ q # vs @ ws')"
    using Cons.prems(2,4,5) by (cases "other = l") auto
  have "is_list h' other (us @ (fst q, snd q) # vs @ ws')"
    using list_ok_Cons [OF store_invD(1) [OF h'(3) o]] by simp
  then have nx: "vs = [] \<or> Next h' (fst q) = Some (El (fst (hd vs)))"
    using Next_at by (cases vs) fastforce+
  have "reaches (push_back_loop (length vs) h' l (Next h' (fst q)))
      (?A(l \<mapsto> (ps @ [(?n, snd q)]) @ zip [h_free h'..<h_free h' + length vs] (map snd vs))) (h_free h' + length vs)"
    by (rule Cons.IH [where us = "us @ [q]" and ws = "ws'", OF h'(3) _ h'(2) o _ nx]) simp_all
  moreover have "[?n..<?n + length (q # vs)] = ?n # [?n + 1..<?n + 1 + length vs]"
    by (simp add: upt_conv_Cons del: upt_Suc)
  moreover have "push_back_loop (length (q # vs)) h l p = push_back_loop (length vs) h' l (Next h' (fst q))"
    using Cons.prems(6) h'(1) val by simp
  ultimately show ?case by (simp add: h'(4) fun_upd_def del: upt_Suc cong: if_cong)
qed

lemma push_front_loop_reaches:
  assumes "store_inv A h" and "A l = Some ps" and "is_list h l ps" and "A other = Some qs" and "qs = us @ rev vs @ ws"
    and "vs = [] \<or> p = Some (El (fst (hd vs)))"
  shows "reaches (push_front_loop (length vs) h l p)
    (A(l \<mapsto> rev (zip [h_free h..<h_free h + length vs] (map snd vs)) @ ps)) (h_free h + length vs)"
  using assms
proof (induction vs arbitrary: A h ps qs us ws p)
  case Nil
  then show ?case by (simp add: reaches_def fun_upd_idem)
next
  case (Cons q vs)
  let ?n = "h_free h"
  have val: "h_value h (fst q) = snd q"
    using Cons.prems(4,5) is_listD(1) [OF list_ok_Cons [OF store_invD(1) [OF Cons.prems(1,4)]], of "fst q" "snd q"] by auto
  obtain h' where h': "insertValue h l (snd q) (Some (Root l)) = Some (?n, h')" "is_list h' l ((?n, snd q) # ps)"
    "store_inv (A(l \<mapsto> (?n, snd q) # ps)) h'" "h_free h' = ?n + 1"
    using insertValue_store [OF Cons.prems(1) store_invD(2) [OF Cons.prems(1,2)], of "[]" ps "Some (Root l)" "snd q"]
      Cons.prems(3) by auto
  let ?A = "A(l \<mapsto> (?n, snd q) # ps)"
  obtain us' where o: "?A other = Some ((us' @ rev vs) @ q # ws)"
    using Cons.prems(2,4,5) by (cases "other = l") (auto intro: that [of "(?n, snd q) # us"])
  have "is_list h' other ((us' @ rev vs) @ (fst q, snd q) # ws)"
    using list_ok_Cons [OF store_invD(1) [OF h'(3) o]] by simp
  then have nx: "vs = [] \<or> Prev h' (fst q) = Some (El (fst (hd vs)))"
    using Prev_at by (cases vs) fastforce+
  have "reaches (push_front_loop (length vs) h' l (Prev h' (fst q)))
      (?A(l \<mapsto> rev (zip [h_free h'..<h_free h' + length vs] (map snd vs)) @ (?n, snd q) # ps)) (h_free h' + length vs)"
    by (rule Cons.IH [where us = "us'" and ws = "q # ws", OF h'(3) _ h'(2) o _ nx]) simp_all
  moreover have "[?n..<?n + length (q # vs)] = ?n # [?n + 1..<?n + 1 + length vs]"
    by (simp add: upt_conv_Cons del: upt_Suc)
  moreover have "push_front_loop (length (q # vs)) h l p = push_front_loop (length vs) h' l (Prev h' (fst q))"
    using Cons.prems(6) h'(1) val by simp
  ultimately show ?case by (simp add: h'(4) fun_upd_def del: upt_Suc cong: if_cong)
qed

lemma PushBackList_reaches:
  assumes inv: "store_inv A h" and l: "A l = Some ps" and o: "A other = Some qs"
  shows "reaches (PushBackList h l other) (A(l \<mapsto> ps @ zip [h_free h..<h_free h + length qs] (map snd qs)))
    (h_free h + length qs)"
proof -
  note i = lazyInit_store [OF inv l]
  note e = ends_at [OF store_invD(1) [OF i(2) o]]
  have p: "qs = [] \<or> Front (lazyInit h l) other = Some (El (fst (hd qs)))"
    using e(2) by (cases qs) simp_all
  show ?thesis
    using push_back_loop_reaches [OF i(2) l i(1) o, of "[]" qs "[]"] p e(1) i(3) by (simp add: PushBackList_def Let_def)
qed

lemma rev_zip_upt: "rev (zip [n..<n + length vs] (map snd (rev vs))) = zip (rev [n..<n + length vs]) (map snd vs)"
  using zip_rev [of "[n..<n + length vs]" "map snd (rev vs)"] by (simp add: rev_map)

lemma PushFrontList_reaches:
  assumes inv: "store_inv A h" and l: "A l = Some ps" and o: "A other = Some qs"
  shows "reaches (PushFrontList h l other) (A(l \<mapsto> zip (rev [h_free h..<h_free h + length qs]) (map snd qs) @ ps))
    (h_free h + length qs)"
proof -
  note i = lazyInit_store [OF inv l]
  note e = ends_at [OF store_invD(1) [OF i(2) o]]
  have p: "rev qs = [] \<or> Back (lazyInit h l) other = Some (El (fst (hd (rev qs))))"
    using e(3) by (cases qs rule: rev_cases) simp_all
  show ?thesis
    using push_front_loop_reaches [OF i(2) l i(1) o, of "[]" "rev qs" "[]"] p e(1) i(3) rev_zip_upt [of "h_free h" qs]
    by (simp add: PushFrontList_def Let_def)
qed

section \<open>Runs\<close>

lemma list_step_reaches:
  assumes inv: "store_inv A h" and "spec_step (A, h_free h) op = Some (A', n')"
  shows "reaches (list_step h op) A' n'"
proof (cases op)
  case LNew
  then show ?thesis using assms New_reaches by auto
next
  case LVar
  then show ?thesis using assms Var_reaches by auto
next
  case (LPushFront l v)
  then show ?thesis using assms PushFront_reaches [OF inv] by (auto simp: on_list_def)
next
  case (LPushBack l v)
  then show ?thesis using assms PushBack_reaches [OF inv] by (auto simp: on_list_def)
next
  case (LInsertBefore l v mark)
  then show ?thesis using assms InsertBefore_reaches [OF inv] by (fastforce simp: on_list_def)
next
  case (LInsertAfter l v mark)
  then show ?thesis using assms InsertAfter_reaches [OF inv] by (fastforce simp: on_list_def)
next
  case (LRemove l e)
  then show ?thesis using assms Remove_reaches [OF inv] by (auto simp: on_list_def)
next
  case (LMoveToFront l e)
  then show ?thesis using assms MoveToFront_reaches [OF inv, of l _ e] by (auto simp: on_list_def)
next
  case (LMoveToBack l e)
  then show ?thesis using assms MoveToBack_reaches [OF inv, of l _ e] by (auto simp: on_list_def)
next
  case (LMoveBefore l e mark)
  then show ?thesis using assms MoveBefore_reaches [OF inv, of l _ e mark] by (auto simp: on_list_def)
next
  case (LMoveAfter l e mark)
  then show ?thesis using assms MoveAfter_reaches [OF inv, of l _ e mark] by (auto simp: on_list_def)
next
  case (LPushBackList l other)
  then show ?thesis using assms PushBackList_reaches [OF inv] by (auto simp: on_list_def split: option.splits)
next
  case (LPushFrontList l other)
  then show ?thesis using assms PushFrontList_reaches [OF inv] by (auto simp: on_list_def split: option.splits)
qed

fun list_run :: "'v list_heap \<Rightarrow> 'v list_op list \<Rightarrow> 'v list_heap option" where
  "list_run h [] = Some h"
| "list_run h (op # ops) = (case list_step h op of None \<Rightarrow> None | Some h \<Rightarrow> list_run h ops)"

fun spec_run :: "'v store \<times> nat \<Rightarrow> 'v list_op list \<Rightarrow> ('v store \<times> nat) option" where
  "spec_run s [] = Some s"
| "spec_run s (op # ops) = (case spec_step s op of None \<Rightarrow> None | Some s \<Rightarrow> spec_run s ops)"

lemma list_run_reaches:
  assumes "store_inv A h" and "spec_run (A, h_free h) ops = Some (A', n')"
  shows "reaches (list_run h ops) A' n'"
  using assms
proof (induction ops arbitrary: A h)
  case (Cons op ops)
  obtain A1 n1 where s1: "spec_step (A, h_free h) op = Some (A1, n1)" "spec_run (A1, n1) ops = Some (A', n')"
    using Cons.prems(2) by (auto split: option.splits)
  obtain h1 where h1: "list_step h op = Some h1" "store_inv A1 h1" "h_free h1 = n1"
    using list_step_reaches [OF Cons.prems(1) s1(1)] by (auto simp: reaches_def)
  show ?case using Cons.IH [OF h1(2)] s1(2) h1 by simp
qed (simp add: reaches_def)

text \<open>The values met by \<open>for e := l.Front(); e != nil; e = e.Next()\<close>, for at most \<open>n\<close> elements, and
  whether the loop has ended by then.\<close>

fun values_from :: "'v list_heap \<Rightarrow> nat \<Rightarrow> eref option \<Rightarrow> 'v list option" where
  "values_from h n None = Some []"
| "values_from h (Suc n) (Some (El e)) = map_option (Cons (h_value h e)) (values_from h n (Next h e))"
| "values_from h n p = None"

fun values_back :: "'v list_heap \<Rightarrow> nat \<Rightarrow> eref option \<Rightarrow> 'v list option" where
  "values_back h n None = Some []"
| "values_back h (Suc n) (Some (El e)) = map_option (Cons (h_value h e)) (values_back h n (Prev h e))"
| "values_back h n p = None"

lemma values_from_list:
  assumes "is_list h l (as @ bs)"
  shows "values_from h (length bs) (case bs of [] \<Rightarrow> None | b # _ \<Rightarrow> Some (El (fst b))) = Some (map snd bs)"
  using assms
proof (induction bs arbitrary: as)
  case (Cons b bs)
  obtain e v where b: "b = (e, v)" by fastforce
  have "is_list h l ((as @ [(e, v)]) @ bs)" using Cons.prems b by simp
  then show ?case
    using Cons.IH [of "as @ [(e, v)]"] Next_at [OF Cons.prems [unfolded b]] is_listD(1) [OF Cons.prems, of e v] b by simp
qed simp

lemma values_back_list:
  assumes "is_list h l (as @ bs)"
  shows "values_back h (length as) (if as = [] then None else Some (El (fst (last as)))) = Some (map snd (rev as))"
  using assms
proof (induction as arbitrary: bs rule: rev_induct)
  case (snoc a as)
  obtain e v where a: "a = (e, v)" by fastforce
  have l: "is_list h l (as @ (e, v) # bs)" using snoc.prems a by simp
  then show ?case
    using snoc.IH [OF l] Prev_at [OF l] is_listD(1) [OF l, of e v] a by simp
qed simp

definition empty_heap :: "'v \<Rightarrow> 'v list_heap" where
  "empty_heap v = \<lparr>h_next = (\<lambda>_. None), h_prev = (\<lambda>_. None), h_list = (\<lambda>_. None), h_value = (\<lambda>_. v), h_len = (\<lambda>_. 0), h_free = 0\<rparr>"

section \<open>Properties\<close>


definition example_ops :: "nat list_op list" where
  "example_ops = [LNew, LPushBack 0 7, LPushFront 0 8, LMoveToBack 0 2, LPushBackList 0 0]"


end
