(* ===== verification/Xttlmap.thy ===== *)
theory Xttlmap
  imports Dll Go_Prelude "HOL-Library.AList"
begin

text \<open>
  The LRU map with deadlines (\<open>src/xttlmap/ttlmap.go\<close>).  Nodes live in a heap with one function per
  field; \<open>head\<close> and \<open>tail\<close> are addresses or nil.  A time is the number of nanoseconds since the zero
  time, so \<open>0\<close> is the zero time that never expires.  \<open>Get\<close> and \<open>cleanupExpired\<close> release the lock in the
  middle: each of them is modelled as its two critical sections, and as their composition when nothing
  happens in between.  A loop that does not end has the value \<open>None\<close>.
\<close>

section \<open>State\<close>

record ('k, 'v) ttl_map =
  items :: "('k \<times> nat) list"
  m_head :: "nat option"
  m_tail :: "nat option"
  lastCleanup :: int
  cleaning :: bool
  maxSize :: int
  n_key :: "nat \<Rightarrow> 'k"
  n_value :: "nat \<Rightarrow> 'v"
  n_deadline :: "nat \<Rightarrow> int"
  n_prev :: "nat \<Rightarrow> nat option"
  n_next :: "nat \<Rightarrow> nat option"
  n_free :: nat

definition expired :: "int \<Rightarrow> int \<Rightarrow> bool" where
  "expired deadline now = (if deadline = 0 then False else now > deadline)"

text \<open>The arguments \<open>k0\<close>, \<open>v0\<close> are the zero values of the node fields that are not yet allocated.\<close>

definition ttl_New :: "'k \<Rightarrow> 'v \<Rightarrow> int \<Rightarrow> int \<Rightarrow> ('k, 'v) ttl_map" where
  "ttl_New k0 v0 limit now =
     \<lparr>items = [], m_head = None, m_tail = None, lastCleanup = now, cleaning = False, maxSize = limit,
      n_key = (\<lambda>_. k0), n_value = (\<lambda>_. v0), n_deadline = (\<lambda>_. 0), n_prev = (\<lambda>_. None), n_next = (\<lambda>_. None), n_free = 0\<rparr>"

section \<open>The list of nodes\<close>

definition addToFront :: "('k, 'v) ttl_map \<Rightarrow> nat \<Rightarrow> ('k, 'v) ttl_map" where
  "addToFront s node =
     (let s = s\<lparr>n_next := (n_next s)(node := m_head s)\<rparr>;
          s = s\<lparr>n_prev := (n_prev s)(node := None)\<rparr>;
          s = (case m_head s of None \<Rightarrow> s | Some h \<Rightarrow> s\<lparr>n_prev := (n_prev s)(h := Some node)\<rparr>);
          s = s\<lparr>m_head := Some node\<rparr> in
      if m_tail s = None then s\<lparr>m_tail := Some node\<rparr> else s)"

definition removeNode :: "('k, 'v) ttl_map \<Rightarrow> nat \<Rightarrow> ('k, 'v) ttl_map" where
  "removeNode s node =
     (let s = (case n_prev s node of
                 Some p \<Rightarrow> s\<lparr>n_next := (n_next s)(p := n_next s node)\<rparr>
               | None \<Rightarrow> s\<lparr>m_head := n_next s node\<rparr>) in
      case n_next s node of
        Some n \<Rightarrow> s\<lparr>n_prev := (n_prev s)(n := n_prev s node)\<rparr>
      | None \<Rightarrow> s\<lparr>m_tail := n_prev s node\<rparr>)"

definition moveToFront :: "('k, 'v) ttl_map \<Rightarrow> nat \<Rightarrow> ('k, 'v) ttl_map" where
  "moveToFront s node =
     (if Some node = m_head s then s else addToFront (removeNode s node) node)"

definition removeOldest :: "('k, 'v) ttl_map \<Rightarrow> ('k, 'v) ttl_map" where
  "removeOldest s =
     (case m_tail s of
        None \<Rightarrow> s
      | Some t \<Rightarrow> removeNode (s\<lparr>items := AList.delete (n_key s t) (items s)\<rparr>) t)"

section \<open>Operations\<close>

text \<open>\<open>for len(s.items) >= limit { s.removeOldest() }\<close>; \<open>Resize\<close> has \<open>>\<close> in the place of \<open>>=\<close>.\<close>

partial_function (option) evict :: "int \<Rightarrow> ('k, 'v) ttl_map \<Rightarrow> ('k, 'v) ttl_map option" where
  "evict limit s = (if int (length (items s)) \<ge> limit then evict limit (removeOldest s) else Some s)"

definition ttl_Resize :: "('k, 'v) ttl_map \<Rightarrow> int \<Rightarrow> ('k, 'v) ttl_map option" where
  "ttl_Resize s limit =
     (if limit < maxSize s
      then map_option (\<lambda>s. s\<lparr>maxSize := limit\<rparr>) (evict (limit + 1) s)
      else Some (s\<lparr>maxSize := limit\<rparr>))"

text \<open>The end of \<open>Set\<close> and \<open>Delete\<close>: a cleanup is started at most once a second.\<close>

definition start_cleanup :: "('k, 'v) ttl_map \<Rightarrow> int \<Rightarrow> ('k, 'v) ttl_map" where
  "start_cleanup s now =
     (if now - lastCleanup s > 1000000000 \<and> \<not> cleaning s then s\<lparr>cleaning := True, lastCleanup := now\<rparr> else s)"

definition ttl_Set :: "('k, 'v) ttl_map \<Rightarrow> 'k \<Rightarrow> 'v \<Rightarrow> int \<Rightarrow> int \<Rightarrow> ('k, 'v) ttl_map option" where
  "ttl_Set s key v deadline now =
     (case map_of (items s) key of
        Some node \<Rightarrow>
          Some (moveToFront
            (s\<lparr>n_value := (n_value s)(node := v), n_deadline := (n_deadline s)(node := deadline)\<rparr>) node)
      | None \<Rightarrow>
          (case evict (maxSize s) s of
             None \<Rightarrow> None
           | Some s \<Rightarrow>
               (let node = n_free s;
                    s = s\<lparr>n_key := (n_key s)(node := key), n_value := (n_value s)(node := v),
                          n_deadline := (n_deadline s)(node := deadline), n_free := node + 1\<rparr>;
                    s = addToFront s node;
                    s = s\<lparr>items := AList.update key node (items s)\<rparr> in
                Some (start_cleanup s now))))"

definition get_read :: "('k, 'v) ttl_map \<Rightarrow> 'k \<Rightarrow> nat option" where
  "get_read s key = map_of (items s) key"

definition get_finish :: "('k, 'v) ttl_map \<Rightarrow> 'k \<Rightarrow> nat \<Rightarrow> int \<Rightarrow> 'v option \<times> ('k, 'v) ttl_map" where
  "get_finish s key node now =
     (if expired (n_deadline s node) now
      then (None,
            case map_of (items s) key of
              Some node \<Rightarrow>
                if expired (n_deadline s node) now
                then removeNode (s\<lparr>items := AList.delete (n_key s node) (items s)\<rparr>) node
                else s
            | None \<Rightarrow> s)
      else (let s = moveToFront s node in (Some (n_value s node), s)))"

definition ttl_Get :: "('k, 'v) ttl_map \<Rightarrow> 'k \<Rightarrow> int \<Rightarrow> 'v option \<times> ('k, 'v) ttl_map" where
  "ttl_Get s key now = (case get_read s key of None \<Rightarrow> (None, s) | Some node \<Rightarrow> get_finish s key node now)"

definition ttl_Delete :: "('k, 'v) ttl_map \<Rightarrow> 'k \<Rightarrow> int \<Rightarrow> ('k, 'v) ttl_map" where
  "ttl_Delete s key now =
     (let s = (case map_of (items s) key of
                 Some node \<Rightarrow> removeNode (s\<lparr>items := AList.delete (n_key s node) (items s)\<rparr>) node
               | None \<Rightarrow> s) in
      start_cleanup s now)"

text \<open>The order in which the loop over the map meets the entries is an argument.\<close>

definition cleanup_scan :: "('k, 'v) ttl_map \<Rightarrow> (('k \<times> nat) list \<Rightarrow> ('k \<times> nat) list) \<Rightarrow> int \<Rightarrow> 'k list" where
  "cleanup_scan s order now = map fst (filter (\<lambda>(key, node). expired (n_deadline s node) now) (order (items s)))"

fun cleanup_remove :: "('k, 'v) ttl_map \<Rightarrow> 'k list \<Rightarrow> int \<Rightarrow> ('k, 'v) ttl_map" where
  "cleanup_remove s [] now = s"
| "cleanup_remove s (key # keys) now =
     cleanup_remove
       (case map_of (items s) key of
          Some node \<Rightarrow>
            if expired (n_deadline s node) now
            then removeNode (s\<lparr>items := AList.delete (n_key s node) (items s)\<rparr>) node
            else s
        | None \<Rightarrow> s) keys now"

definition cleanupExpired ::
  "('k, 'v) ttl_map \<Rightarrow> (('k \<times> nat) list \<Rightarrow> ('k \<times> nat) list) \<Rightarrow> int \<Rightarrow> ('k, 'v) ttl_map" where
  "cleanupExpired s order now =
     (let expiredKeys = cleanup_scan s order now;
          s = (if length expiredKeys > 0 then cleanup_remove s expiredKeys now else s) in
      s\<lparr>cleaning := False\<rparr>)"

section \<open>The map as a list of entries\<close>

definition nx :: "('k, 'v) ttl_map \<Rightarrow> nat option \<Rightarrow> nat option" where
  "nx s p = (case p of None \<Rightarrow> m_head s | Some a \<Rightarrow> n_next s a)"

definition pv :: "('k, 'v) ttl_map \<Rightarrow> nat option \<Rightarrow> nat option" where
  "pv s p = (case p of None \<Rightarrow> m_tail s | Some a \<Rightarrow> n_prev s a)"

definition linked :: "('k, 'v) ttl_map \<Rightarrow> nat list \<Rightarrow> bool" where
  "linked s xs \<longleftrightarrow> ring (nx s) (pv s) None (map Some xs)"

definition indexed :: "('k, 'v) ttl_map \<Rightarrow> nat list \<Rightarrow> bool" where
  "indexed s xs \<longleftrightarrow>
     distinct (map fst (items s)) \<and> set (items s) = (\<lambda>a. (n_key s a, a)) ` set xs
     \<and> inj_on (n_key s) (set xs) \<and> (\<forall>a \<in> set xs. a < n_free s)"

definition ttl_inv :: "('k, 'v) ttl_map \<Rightarrow> nat list \<Rightarrow> bool" where
  "ttl_inv s xs \<longleftrightarrow> linked s xs \<and> indexed s xs"

abbreviation entry :: "('k, 'v) ttl_map \<Rightarrow> nat \<Rightarrow> 'k \<times> 'v \<times> int" where
  "entry s a \<equiv> (n_key s a, n_value s a, n_deadline s a)"

definition entries :: "('k, 'v) ttl_map \<Rightarrow> nat list \<Rightarrow> ('k \<times> 'v \<times> int) list" where
  "entries s xs = map (entry s) xs"

lemma entries_simps [simp]:
  "entries s [] = []" "entries s (a # xs) = entry s a # entries s xs" "entries s (xs @ ys) = entries s xs @ entries s ys"
  by (simp_all add: entries_def)

lemma nx_simps [simp]: "nx s None = m_head s" "nx s (Some a) = n_next s a" "pv s None = m_tail s" "pv s (Some a) = n_prev s a"
  by (simp_all add: nx_def pv_def)

lemma linked_distinct: "linked s xs \<Longrightarrow> distinct xs"
  by (simp add: linked_def ring_def distinct_map)

text \<open>Unlinking and linking.\<close>

lemma nx_removeNode:
  assumes "n_prev s a \<noteq> Some a" and "n_next s a \<noteq> Some a"
  shows "nx (removeNode s a) = (nx s)(pv s (Some a) := nx s (Some a))"
    and "pv (removeNode s a) = (pv s)(nx s (Some a) := pv s (Some a))"
  using assms
  by (auto simp: removeNode_def Let_def fun_eq_iff nx_def pv_def split: option.splits)

lemma removeNode_same [simp]:
  "items (removeNode s a) = items s" "n_key (removeNode s a) = n_key s" "n_value (removeNode s a) = n_value s"
  "n_deadline (removeNode s a) = n_deadline s" "n_free (removeNode s a) = n_free s" "maxSize (removeNode s a) = maxSize s"
  by (simp_all add: removeNode_def Let_def split: option.split)

lemma addToFront_same [simp]:
  "items (addToFront s a) = items s" "n_key (addToFront s a) = n_key s" "n_value (addToFront s a) = n_value s"
  "n_deadline (addToFront s a) = n_deadline s" "n_free (addToFront s a) = n_free s" "maxSize (addToFront s a) = maxSize s"
  by (simp_all add: addToFront_def Let_def split: option.split)

lemma linked_remove:
  assumes "linked s (as @ a # bs)"
  shows "linked (removeNode s a) (as @ bs)"
proof -
  have ring: "ring (nx s) (pv s) None (map Some as @ Some a # map Some bs)" using assms by (simp add: linked_def)
  have "a \<notin> set as" "a \<notin> set bs" using linked_distinct [OF assms] by auto
  then have "n_prev s a \<noteq> Some a" "n_next s a \<noteq> Some a"
    using ring_next [OF ring] by (cases as rule: rev_cases; cases bs; auto)+
  then show ?thesis
    using ring_remove [OF ring, of "nx (removeNode s a)" "pv (removeNode s a)"]
    by (simp add: linked_def nx_removeNode)
qed

lemma nx_addToFront:
  assumes "m_head s = None \<longleftrightarrow> m_tail s = None" and "m_head s \<noteq> Some a"
  shows "nx (addToFront s a) = (nx s)(Some a := m_head s, None := Some a)"
    and "pv (addToFront s a) = (pv s)(Some a := None, m_head s := Some a)"
proof -
  show "nx (addToFront s a) = (nx s)(Some a := m_head s, None := Some a)"
    by (cases "m_head s") (auto simp: addToFront_def Let_def nx_def fun_eq_iff split: option.split)
  show "pv (addToFront s a) = (pv s)(Some a := None, m_head s := Some a)"
  proof (cases "m_head s")
    case None
    then show ?thesis using assms(1) by (auto simp: addToFront_def Let_def pv_def fun_eq_iff split: option.split)
  next
    case (Some h)
    then show ?thesis using assms by (auto simp: addToFront_def Let_def pv_def fun_eq_iff split: option.split)
  qed
qed

lemma linked_add:
  assumes "linked s xs" and "a \<notin> set xs"
  shows "linked (addToFront s a) (a # xs)"
proof -
  have ring: "ring (nx s) (pv s) None ([] @ map Some xs)" using assms(1) by (simp add: linked_def)
  have ends: "m_head s = hd (map Some xs @ [None])" "m_tail s = last (None # map Some xs)"
    using ring_ends [OF ring] by simp_all
  have e: "m_head s = None \<longleftrightarrow> m_tail s = None" "m_head s \<noteq> Some a"
  proof -
    have "m_head s = None \<longleftrightarrow> xs = []" using ends(1) by (cases xs) auto
    moreover have "m_tail s = None \<longleftrightarrow> xs = []" using ends(2) by (cases xs rule: rev_cases) auto
    ultimately show "m_head s = None \<longleftrightarrow> m_tail s = None" by simp
    show "m_head s \<noteq> Some a" using ends(1) assms(2) by (cases xs) auto
  qed
  have "ring (nx (addToFront s a)) (pv (addToFront s a)) None ([] @ Some a # map Some xs)"
    by (rule ring_insert [OF ring]) (use assms(2) e(2) in \<open>auto simp: nx_addToFront [OF e]\<close>)
  then show ?thesis by (simp add: linked_def)
qed

text \<open>Fields that the list operations leave alone.\<close>

definition same_data :: "('k, 'v) ttl_map \<Rightarrow> ('k, 'v) ttl_map \<Rightarrow> bool" where
  "same_data s s' \<longleftrightarrow>
     n_key s' = n_key s \<and> n_value s' = n_value s \<and> n_deadline s' = n_deadline s \<and> n_free s' = n_free s
     \<and> maxSize s' = maxSize s"

lemma entries_same: "same_data s s' \<Longrightarrow> entries s' xs = entries s xs"
  by (simp add: entries_def same_data_def)

lemma linked_cong: "nx s' = nx s \<Longrightarrow> pv s' = pv s \<Longrightarrow> linked s' xs = linked s xs"
  by (simp add: linked_def)

lemma indexed_lookup:
  assumes "indexed s xs"
  shows "map_of (items s) k = Some a \<longleftrightarrow> a \<in> set xs \<and> n_key s a = k"
  using assms by (auto simp: indexed_def map_of_eq_Some_iff)

lemma indexed_length:
  assumes "indexed s xs" and "distinct xs"
  shows "length (items s) = length xs"
proof -
  have "length (items s) = card (set (items s))"
    using assms(1) by (simp add: indexed_def distinct_card distinct_map flip: distinct_card)
  also have "\<dots> = card (set xs)"
    using assms(1) by (simp add: indexed_def card_image inj_on_def)
  finally show ?thesis using assms(2) by (simp add: distinct_card)
qed

lemma nx_items [simp]: "nx (s\<lparr>items := i\<rparr>) = nx s" "pv (s\<lparr>items := i\<rparr>) = pv s"
  by (auto simp: nx_def pv_def fun_eq_iff split: option.split)

lemma linked_items [simp]: "linked (s\<lparr>items := i\<rparr>) xs = linked s xs"
  by (simp add: linked_def)

lemma drop_node:
  assumes inv: "ttl_inv s (as @ a # bs)"
  defines "s' \<equiv> removeNode (s\<lparr>items := AList.delete (n_key s a) (items s)\<rparr>) a"
  shows "ttl_inv s' (as @ bs)" and "same_data s s'"
proof -
  have l: "linked s (as @ a # bs)" and ix: "indexed s (as @ a # bs)" using inv by (simp_all add: ttl_inv_def)
  have d: "a \<notin> set (as @ bs)" using linked_distinct [OF l] by auto
  have inj: "inj_on (n_key s) (set (as @ a # bs))" using ix by (simp add: indexed_def)
  have "set (AList.delete (n_key s a) (items s)) = {p \<in> set (items s). fst p \<noteq> n_key s a}"
    by (auto simp: AList.delete_eq)
  also have "\<dots> = (\<lambda>a. (n_key s a, a)) ` set (as @ bs)"
    using ix d inj by (auto simp: indexed_def inj_on_def)
  finally have "indexed s' (as @ bs)"
    using ix inj by (auto simp: indexed_def s'_def inj_on_def distinct_delete)
  moreover have "linked s' (as @ bs)" unfolding s'_def by (rule linked_remove) (use l in simp)
  ultimately show "ttl_inv s' (as @ bs)" by (simp add: ttl_inv_def)
  show "same_data s s'" by (simp add: same_data_def s'_def)
qed

lemma removeOldest_drops:
  assumes "ttl_inv s (xs @ [a])"
  shows "ttl_inv (removeOldest s) xs" and "same_data s (removeOldest s)"
proof -
  have "ring (nx s) (pv s) None (map Some (xs @ [a]))" using assms by (simp add: ttl_inv_def linked_def)
  then have "m_tail s = Some a" using ring_ends(2) by fastforce
  then show "ttl_inv (removeOldest s) xs" "same_data s (removeOldest s)"
    using drop_node [of s xs a "[]"] assms by (simp_all add: removeOldest_def)
qed

lemma same_data_trans: "same_data s s' \<Longrightarrow> same_data s' s'' \<Longrightarrow> same_data s s''"
  by (simp add: same_data_def)

lemma evict_returns:
  assumes "ttl_inv s xs" and "0 < limit"
  obtains s' where "evict limit s = Some s'" "ttl_inv s' (take (nat (limit - 1)) xs)" "same_data s s'"
  using assms
proof (induction xs arbitrary: s thesis rule: rev_induct)
  case Nil
  have "length (items s) = 0" using Nil.prems(2) indexed_length [of s "[]"] by (simp add: ttl_inv_def)
  then have "evict limit s = Some s" using Nil.prems(3) by (simp add: evict.simps)
  then show ?case using Nil.prems by (simp add: same_data_def)
next
  case (snoc a xs)
  have len: "length (items s) = Suc (length xs)"
    using snoc.prems(2) indexed_length [of s "xs @ [a]"] linked_distinct [of s "xs @ [a]"] by (simp add: ttl_inv_def)
  show ?case
  proof (cases "int (length (items s)) \<ge> limit")
    case True
    note r = removeOldest_drops [OF snoc.prems(2)]
    obtain s' where s': "evict limit (removeOldest s) = Some s'" "ttl_inv s' (take (nat (limit - 1)) xs)" "same_data (removeOldest s) s'"
      by (rule snoc.IH [OF _ r(1) snoc.prems(3)])
    have "evict limit s = Some s'" using True s'(1) by (subst evict.simps) simp
    moreover have "take (nat (limit - 1)) (xs @ [a]) = take (nat (limit - 1)) xs"
      using True len snoc.prems(3) by simp
    ultimately show ?thesis using snoc.prems(1) s' same_data_trans [OF r(2)] by simp
  next
    case False
    then have "evict limit s = Some s" by (subst evict.simps) simp
    moreover have "take (nat (limit - 1)) (xs @ [a]) = xs @ [a]" using False len by simp
    ultimately show ?thesis using snoc.prems by (simp add: same_data_def)
  qed
qed

lemma moveToFront_moves:
  assumes inv: "ttl_inv s (as @ a # bs)"
  shows "ttl_inv (moveToFront s a) (a # as @ bs)" and "same_data s (moveToFront s a)"
proof -
  have l: "linked s (as @ a # bs)" and ix: "indexed s (as @ a # bs)" using inv by (simp_all add: ttl_inv_def)
  show same: "same_data s (moveToFront s a)" by (simp add: same_data_def moveToFront_def)
  have "linked (moveToFront s a) (a # as @ bs)"
  proof (cases "Some a = m_head s")
    case True
    have "as = []"
      using ring_ends(1) [OF l [unfolded linked_def]] linked_distinct [OF l] True by (cases as) auto
    then show ?thesis using l True by (simp add: moveToFront_def)
  next
    case False
    have "a \<notin> set (as @ bs)" using linked_distinct [OF l] by auto
    then show ?thesis using False linked_add [OF linked_remove [OF l]] by (simp add: moveToFront_def)
  qed
  moreover have "indexed (moveToFront s a) (a # as @ bs)"
  proof -
    have "items (moveToFront s a) = items s" by (simp add: moveToFront_def)
    moreover have "set (a # as @ bs) = set (as @ a # bs)" by auto
    ultimately show ?thesis using ix same unfolding indexed_def same_data_def by simp
  qed
  ultimately show "ttl_inv (moveToFront s a) (a # as @ bs)" by (simp add: ttl_inv_def)
qed

section \<open>The reference: a list of entries, most recently used first\<close>

type_synonym ('k, 'v) lru = "('k \<times> 'v \<times> int) list"

definition lru_without :: "'k \<Rightarrow> ('k, 'v) lru \<Rightarrow> ('k, 'v) lru" where
  "lru_without k es = filter (\<lambda>e. fst e \<noteq> k) es"

definition lru_set :: "int \<Rightarrow> 'k \<Rightarrow> 'v \<Rightarrow> int \<Rightarrow> ('k, 'v) lru \<Rightarrow> ('k, 'v) lru" where
  "lru_set limit k v d es =
     (if map_of es k = None then (k, v, d) # take (nat (limit - 1)) es else (k, v, d) # lru_without k es)"

definition lru_get :: "'k \<Rightarrow> int \<Rightarrow> ('k, 'v) lru \<Rightarrow> 'v option \<times> ('k, 'v) lru" where
  "lru_get k now es =
     (case map_of es k of
        None \<Rightarrow> (None, es)
      | Some (v, d) \<Rightarrow>
          if expired d now then (None, lru_without k es) else (Some v, (k, v, d) # lru_without k es))"

definition refines :: "('k, 'v) ttl_map \<Rightarrow> ('k, 'v) lru \<Rightarrow> bool" where
  "refines s es \<longleftrightarrow> (\<exists>xs. ttl_inv s xs \<and> es = entries s xs)"

lemma entries_distinct: "ttl_inv s xs \<Longrightarrow> distinct (map fst (entries s xs))"
  using linked_distinct [of s xs] by (simp add: entries_def ttl_inv_def indexed_def comp_def distinct_map)

lemma map_of_entries:
  assumes "ttl_inv s xs"
  shows "map_of (entries s xs) k = map_option (\<lambda>a. (n_value s a, n_deadline s a)) (map_of (items s) k)"
proof -
  have ix: "indexed s xs" using assms by (simp add: ttl_inv_def)
  have "map_of (entries s xs) k = Some p \<longleftrightarrow>
      map_option (\<lambda>a. (n_value s a, n_deadline s a)) (map_of (items s) k) = Some p" for p
    using indexed_lookup [OF ix, of k] entries_distinct [OF assms] by (auto simp: map_of_eq_Some_iff entries_def)
  then show ?thesis by (metis option.exhaust)
qed

lemma split_member:
  assumes "ttl_inv s xs" and "map_of (items s) k = Some a"
  obtains as bs where "xs = as @ a # bs" "n_key s a = k" "lru_without k (entries s xs) = entries s (as @ bs)"
proof -
  have ix: "indexed s xs" using assms by (simp add: ttl_inv_def)
  have a: "a \<in> set xs" "n_key s a = k" using indexed_lookup [OF ix] assms(2) by auto
  then obtain as bs where xs: "xs = as @ a # bs" by (meson split_list)
  have d: "a \<notin> set as" "a \<notin> set bs" using linked_distinct [of s xs] assms(1) xs by (auto simp: ttl_inv_def)
  have "n_key s b \<noteq> k" if "b \<in> set as \<union> set bs" for b
    using ix a that d xs by (auto simp: indexed_def inj_on_def)
  then have "filter (\<lambda>e. fst e \<noteq> k) (entries s as) = entries s as" "filter (\<lambda>e. fst e \<noteq> k) (entries s bs) = entries s bs"
    by (auto simp: filter_id_conv entries_def)
  then show thesis using that [OF xs a(2)] a(2) by (simp add: lru_without_def entries_def xs)
qed

lemma moveToFront_refines:
  assumes "ttl_inv s xs" and "map_of (items s) k = Some a"
  shows "refines (moveToFront s a) ((k, n_value s a, n_deadline s a) # lru_without k (entries s xs))"
proof -
  obtain as bs where xs: "xs = as @ a # bs" "n_key s a = k" "lru_without k (entries s xs) = entries s (as @ bs)"
    by (rule split_member [OF assms])
  note m = moveToFront_moves [OF assms(1) [unfolded xs(1)]]
  show ?thesis unfolding refines_def
    by (intro exI [of _ "a # as @ bs"] conjI m(1)) (use m(2) xs in \<open>simp add: entries_def same_data_def\<close>)
qed

lemma drop_refines:
  assumes "ttl_inv s xs" and "map_of (items s) k = Some a"
  shows "refines (removeNode (s\<lparr>items := AList.delete (n_key s a) (items s)\<rparr>) a) (lru_without k (entries s xs))"
proof -
  obtain as bs where xs: "xs = as @ a # bs" "n_key s a = k" "lru_without k (entries s xs) = entries s (as @ bs)"
    by (rule split_member [OF assms])
  note m = drop_node [OF assms(1) [unfolded xs(1)]]
  show ?thesis unfolding refines_def
    by (intro exI [of _ "as @ bs"] conjI m(1)) (use entries_same [OF m(2)] xs in simp)
qed

lemma start_cleanup_same:
  "refines (start_cleanup s now) es = refines s es" "maxSize (start_cleanup s now) = maxSize s"
proof -
  have "nx (start_cleanup s now) = nx s" "pv (start_cleanup s now) = pv s" "items (start_cleanup s now) = items s"
    "n_key (start_cleanup s now) = n_key s" "n_value (start_cleanup s now) = n_value s"
    "n_deadline (start_cleanup s now) = n_deadline s" "n_free (start_cleanup s now) = n_free s"
    by (auto simp: start_cleanup_def nx_def pv_def fun_eq_iff split: option.split)
  then show "refines (start_cleanup s now) es = refines s es"
    by (simp add: refines_def ttl_inv_def linked_def indexed_def entries_def)
  show "maxSize (start_cleanup s now) = maxSize s" by (simp add: start_cleanup_def)
qed

section \<open>Each operation refines the reference\<close>

lemma set_value_inv:
  fixes s :: "('k, 'v) ttl_map" and a :: nat and v :: 'v and d :: int
  assumes "ttl_inv s xs"
  defines "s' \<equiv> s\<lparr>n_value := (n_value s)(a := v), n_deadline := (n_deadline s)(a := d)\<rparr>"
  shows "ttl_inv s' xs" and "a \<notin> set ys \<Longrightarrow> entries s' ys = entries s ys"
proof -
  have "nx s' = nx s" "pv s' = pv s" by (auto simp: s'_def nx_def pv_def fun_eq_iff split: option.split)
  then show "ttl_inv s' xs" using assms(1) by (simp add: ttl_inv_def linked_def indexed_def s'_def)
  show "a \<notin> set ys \<Longrightarrow> entries s' ys = entries s ys" by (auto simp: entries_def s'_def)
qed

lemma alist_update_new: "map_of al k = None \<Longrightarrow> AList.update k v al = al @ [(k, v)]"
  by (induction al) (auto split: if_splits)

lemma new_node_inv:
  fixes s :: "('k, 'v) ttl_map" and k :: 'k and v :: 'v and d :: int
  assumes inv: "ttl_inv s xs" and k: "map_of (items s) k = None"
  defines "s1 \<equiv> s\<lparr>n_key := (n_key s)(n_free s := k), n_value := (n_value s)(n_free s := v),
                  n_deadline := (n_deadline s)(n_free s := d), n_free := n_free s + 1\<rparr>"
  defines "s2 \<equiv> addToFront s1 (n_free s)"
  shows "ttl_inv (s2\<lparr>items := AList.update k (n_free s) (items s2)\<rparr>) (n_free s # xs)"
    and "entries (s2\<lparr>items := AList.update k (n_free s) (items s2)\<rparr>) (n_free s # xs) = (k, v, d) # entries s xs"
proof -
  have ix: "indexed s xs" and l: "linked s xs" using inv by (simp_all add: ttl_inv_def)
  have n: "n_free s \<notin> set xs" using ix by (auto simp: indexed_def)
  have "nx s1 = nx s" "pv s1 = pv s" by (auto simp: s1_def nx_def pv_def fun_eq_iff split: option.split)
  then have "linked s1 xs" using l by (simp add: linked_def)
  then have l2: "linked s2 (n_free s # xs)" unfolding s2_def by (rule linked_add [OF _ n])
  have keys: "n_key s b \<noteq> k" if "b \<in> set xs" for b
    using indexed_lookup [OF ix, of k b] that k by auto
  have fld: "items s2 = items s" "n_key s2 = (n_key s)(n_free s := k)" "n_free s2 = n_free s + 1"
    "n_value s2 = (n_value s)(n_free s := v)" "n_deadline s2 = (n_deadline s)(n_free s := d)"
    by (simp_all add: s2_def s1_def)
  have upd: "AList.update k (n_free s) (items s) = items s @ [(k, n_free s)]"
    by (rule alist_update_new [OF k])
  have "distinct (map fst (items s @ [(k, n_free s)]))"
    using ix k by (auto simp: indexed_def map_of_eq_None_iff)
  moreover have "(n_key s2 b, b) = (n_key s b, b)" if "b \<in> set xs" for b using that n by (auto simp: fld)
  then have "(\<lambda>a. (n_key s2 a, a)) ` set xs = (\<lambda>a. (n_key s a, a)) ` set xs" by (rule image_cong [OF refl])
  moreover have "inj_on (n_key s2) (set (n_free s # xs))"
    using ix n keys by (auto simp: indexed_def inj_on_def fld)
  ultimately have "indexed (s2\<lparr>items := AList.update k (n_free s) (items s2)\<rparr>) (n_free s # xs)"
    using ix by (auto simp: indexed_def fld upd)
  then show "ttl_inv (s2\<lparr>items := AList.update k (n_free s) (items s2)\<rparr>) (n_free s # xs)"
    using l2 by (simp add: ttl_inv_def)
  show "entries (s2\<lparr>items := AList.update k (n_free s) (items s2)\<rparr>) (n_free s # xs) = (k, v, d) # entries s xs"
    using n by (auto simp: entries_def fld)
qed

lemma ttl_Set_refines:
  assumes "refines s es" and "0 < maxSize s"
  obtains s' where "ttl_Set s k v d now = Some s'" "refines s' (lru_set (maxSize s) k v d es)" "maxSize s' = maxSize s"
proof -
  obtain xs where inv: "ttl_inv s xs" and es: "es = entries s xs" using assms(1) by (auto simp: refines_def)
  note look = map_of_entries [OF inv, of k]
  show thesis
  proof (cases "map_of (items s) k")
    case (Some a)
    let ?s = "s\<lparr>n_value := (n_value s)(a := v), n_deadline := (n_deadline s)(a := d)\<rparr>"
    note u = set_value_inv [OF inv, where a = a and v = v and d = d]
    obtain as bs where xs: "xs = as @ a # bs" "n_key s a = k" "lru_without k (entries s xs) = entries s (as @ bs)"
      by (rule split_member [OF inv Some])
    have "a \<notin> set (as @ bs)" using linked_distinct [of s xs] inv xs(1) by (auto simp: ttl_inv_def)
    then have "lru_without k (entries ?s xs) = lru_without k (entries s xs)"
      using xs(2) u(2) [of as] u(2) [of bs] by (simp add: xs(1) lru_without_def)
    then have "refines (moveToFront ?s a) ((k, v, d) # lru_without k (entries s xs))"
      using moveToFront_refines [OF u(1), of k a] Some by simp
    moreover have "maxSize (moveToFront ?s a) = maxSize s" by (simp add: moveToFront_def)
    ultimately show thesis using that Some look es by (simp add: ttl_Set_def lru_set_def)
  next
    case None
    obtain s1 where s1: "evict (maxSize s) s = Some s1" "ttl_inv s1 (take (nat (maxSize s - 1)) xs)" "same_data s s1"
      by (rule evict_returns [OF inv assms(2)])
    have "map_of (items s1) k \<noteq> Some b" for b
      using indexed_lookup [of s1 "take (nat (maxSize s - 1)) xs" k b] indexed_lookup [of s xs k b] s1(2,3) inv None
      by (auto simp: ttl_inv_def same_data_def dest: in_set_takeD)
    then have "map_of (items s1) k = None" by (cases "map_of (items s1) k") auto
    note n = new_node_inv [OF s1(2) this, where v = v and d = d]
    have "take (nat (maxSize s - 1)) (entries s xs) = entries s1 (take (nat (maxSize s - 1)) xs)"
      using s1(3) by (simp add: entries_def same_data_def take_map)
    then have "lru_set (maxSize s) k v d es = (k, v, d) # entries s1 (take (nat (maxSize s - 1)) xs)"
      using None look es by (simp add: lru_set_def)
    with n have "refines (the (ttl_Set s k v d now)) (lru_set (maxSize s) k v d es)"
      unfolding ttl_Set_def None s1(1) option.case Let_def option.sel start_cleanup_same(1) unfolding refines_def by metis
    moreover have "ttl_Set s k v d now \<noteq> None" "maxSize (the (ttl_Set s k v d now)) = maxSize s"
      using s1 None by (simp_all add: ttl_Set_def Let_def start_cleanup_same same_data_def)
    ultimately show thesis using that by fastforce
  qed
qed

lemma ttl_Get_refines:
  assumes "refines s es"
  obtains s' where "ttl_Get s k now = (fst (lru_get k now es), s')" "refines s' (snd (lru_get k now es))" "maxSize s' = maxSize s"
proof -
  obtain xs where inv: "ttl_inv s xs" and es: "es = entries s xs" using assms(1) by (auto simp: refines_def)
  note look = map_of_entries [OF inv, of k]
  show thesis
  proof (cases "map_of (items s) k")
    case None
    then show thesis using that look es assms by (simp add: ttl_Get_def get_read_def lru_get_def)
  next
    case (Some a)
    note m = moveToFront_refines [OF inv Some] and d = drop_refines [OF inv Some]
    have same: "n_value (moveToFront s a) = n_value s" "maxSize (moveToFront s a) = maxSize s"
      by (simp_all add: moveToFront_def)
    show thesis
    proof (cases "expired (n_deadline s a) now")
      case True
      then show thesis using that look es d Some by (simp add: ttl_Get_def get_read_def get_finish_def lru_get_def)
    next
      case False
      then show thesis
        using that look es m Some same by (simp add: ttl_Get_def get_read_def get_finish_def lru_get_def Let_def)
    qed
  qed
qed

lemma ttl_Delete_refines:
  assumes "refines s es"
  shows "refines (ttl_Delete s k now) (lru_without k es)" and "maxSize (ttl_Delete s k now) = maxSize s"
proof -
  obtain xs where inv: "ttl_inv s xs" and es: "es = entries s xs" using assms(1) by (auto simp: refines_def)
  show "maxSize (ttl_Delete s k now) = maxSize s"
    by (simp add: ttl_Delete_def Let_def start_cleanup_same split: option.split)
  show "refines (ttl_Delete s k now) (lru_without k es)"
  proof (cases "map_of (items s) k")
    case None
    then have "map_of es k = None" using map_of_entries [OF inv, of k] es by simp
    then have "lru_without k es = es" by (auto simp: lru_without_def filter_id_conv map_of_eq_None_iff)
    then show ?thesis using assms None by (simp add: ttl_Delete_def start_cleanup_same)
  next
    case (Some a)
    then show ?thesis using drop_refines [OF inv Some] es by (simp add: ttl_Delete_def start_cleanup_same)
  qed
qed

lemma ttl_Resize_refines:
  assumes "refines s es" and "length es \<le> nat (maxSize s)" and "0 \<le> n"
  obtains s' where "ttl_Resize s n = Some s'" "refines s' (take (nat n) es)" "maxSize s' = n"
proof -
  have resized: "refines (s\<lparr>maxSize := n\<rparr>) es = refines s es" for s :: "('a, 'b) ttl_map" and es
  proof -
    have "nx (s\<lparr>maxSize := n\<rparr>) = nx s" "pv (s\<lparr>maxSize := n\<rparr>) = pv s"
      by (auto simp: nx_def pv_def fun_eq_iff split: option.split)
    then show ?thesis by (simp add: refines_def ttl_inv_def linked_def indexed_def entries_def)
  qed
  obtain xs where inv: "ttl_inv s xs" and es: "es = entries s xs" using assms(1) by (auto simp: refines_def)
  show thesis
  proof (cases "n < maxSize s")
    case True
    obtain s1 where s1: "evict (n + 1) s = Some s1" "ttl_inv s1 (take (nat n) xs)" "same_data s s1"
      using evict_returns [OF inv, of "n + 1"] assms(3) by auto
    have "refines s1 (take (nat n) es)"
      unfolding refines_def using s1(2,3) es
      by (intro exI [of _ "take (nat n) xs"]) (simp add: entries_def same_data_def take_map)
    then show thesis using that True s1 resized by (simp add: ttl_Resize_def)
  next
    case False
    then have "take (nat n) es = es" using assms(2) by simp
    then show thesis using that False resized assms(1) by (simp add: ttl_Resize_def)
  qed
qed

lemma cleanup_remove_refines:
  assumes "refines s es"
  shows "refines (cleanup_remove s keys now) (filter (\<lambda>(k, v, d). \<not> (k \<in> set keys \<and> expired d now)) es)
    \<and> maxSize (cleanup_remove s keys now) = maxSize s"
  using assms
proof (induction keys arbitrary: s es)
  case (Cons k keys)
  obtain xs where inv: "ttl_inv s xs" and es: "es = entries s xs" using Cons.prems by (auto simp: refines_def)
  note look = map_of_entries [OF inv, of k]
  let ?del = "\<lambda>a. removeNode (s\<lparr>items := AList.delete (n_key s a) (items s)\<rparr>) a"
  show ?case
  proof (cases "map_of (items s) k")
    case None
    then have "filter (\<lambda>(k', v, d). \<not> (k' \<in> set (k # keys) \<and> expired d now)) es
        = filter (\<lambda>(k, v, d). \<not> (k \<in> set keys \<and> expired d now)) es"
      using look es weak_map_of_SomeI by (intro filter_cong) fastforce+
    then show ?thesis using Cons.IH [OF Cons.prems] None by simp
  next
    case (Some a)
    have dist: "distinct (map fst es)"
      unfolding es by (rule entries_distinct [OF inv])
    have d: "d = n_deadline s a" if "(k, v, d) \<in> set es" for v d
      using map_of_is_SomeI [OF dist that] look es Some by simp
    show ?thesis
    proof (cases "expired (n_deadline s a) now")
      case True
      have "filter (\<lambda>(k', v, d). \<not> (k' \<in> set (k # keys) \<and> expired d now)) es
          = filter (\<lambda>(k, v, d). \<not> (k \<in> set keys \<and> expired d now)) (lru_without k es)"
        using d True by (auto simp: lru_without_def intro!: filter_cong)
      then show ?thesis using Cons.IH [OF drop_refines [OF inv Some]] True Some es by simp
    next
      case False
      then have "filter (\<lambda>(k', v, d). \<not> (k' \<in> set (k # keys) \<and> expired d now)) es
          = filter (\<lambda>(k, v, d). \<not> (k \<in> set keys \<and> expired d now)) es"
        using d by (intro filter_cong) auto
      then show ?thesis using Cons.IH [OF Cons.prems] False Some by simp
    qed
  qed
qed simp

definition lru_clean :: "int \<Rightarrow> ('k, 'v) lru \<Rightarrow> ('k, 'v) lru" where
  "lru_clean now es = filter (\<lambda>(k, v, d). \<not> expired d now) es"

lemma cleanupExpired_refines:
  assumes "refines s es" and order: "\<forall>m. set (order m) = set m"
  shows "refines (cleanupExpired s order now) (lru_clean now es)" and "maxSize (cleanupExpired s order now) = maxSize s"
proof -
  obtain xs where inv: "ttl_inv s xs" and es: "es = entries s xs" using assms(1) by (auto simp: refines_def)
  let ?keys = "cleanup_scan s order now"
  have "k \<in> set ?keys" if "(k, v, d) \<in> set es" "expired d now" for k v d
    using that inv order unfolding es
    by (auto simp: cleanup_scan_def ttl_inv_def indexed_def entries_def intro!: rev_image_eqI)
  then have "lru_clean now es = filter (\<lambda>(k, v, d). \<not> (k \<in> set ?keys \<and> expired d now)) es"
    by (auto simp: lru_clean_def intro!: filter_cong)
  moreover have "refines (s\<lparr>cleaning := b\<rparr>) es = refines s es" for s :: "('a, 'b) ttl_map" and es b
  proof -
    have "nx (s\<lparr>cleaning := b\<rparr>) = nx s" "pv (s\<lparr>cleaning := b\<rparr>) = pv s"
      by (auto simp: nx_def pv_def fun_eq_iff split: option.split)
    then show ?thesis by (simp add: refines_def ttl_inv_def linked_def indexed_def entries_def)
  qed
  moreover have "cleanupExpired s order now = (cleanup_remove s ?keys now)\<lparr>cleaning := False\<rparr>"
    by (cases ?keys) (simp_all add: cleanupExpired_def)
  ultimately show "refines (cleanupExpired s order now) (lru_clean now es)" "maxSize (cleanupExpired s order now) = maxSize s"
    using cleanup_remove_refines [OF assms(1)] by simp_all
qed

section \<open>Runs\<close>

datatype ('k, 'v) ttl_op =
    TSet 'k 'v int
  | TGet 'k
  | TDelete 'k
  | TResize int
  | TCleanup "('k \<times> nat) list \<Rightarrow> ('k \<times> nat) list"

text \<open>One operation at a time: what a \<open>Get\<close> returns, and the next state.\<close>

fun ttl_step :: "('k, 'v) ttl_map \<Rightarrow> ('k, 'v) ttl_op \<times> int \<Rightarrow> ('v option \<times> ('k, 'v) ttl_map) option" where
  "ttl_step s (TSet k v d, now) = map_option (Pair None) (ttl_Set s k v d now)"
| "ttl_step s (TGet k, now) = Some (ttl_Get s k now)"
| "ttl_step s (TDelete k, now) = Some (None, ttl_Delete s k now)"
| "ttl_step s (TResize n, now) = map_option (Pair None) (ttl_Resize s n)"
| "ttl_step s (TCleanup order, now) = Some (None, cleanupExpired s order now)"

fun ttl_run :: "('k, 'v) ttl_map \<Rightarrow> (('k, 'v) ttl_op \<times> int) list \<Rightarrow> ('v option list \<times> ('k, 'v) ttl_map) option" where
  "ttl_run s [] = Some ([], s)"
| "ttl_run s (op # ops) =
     (case ttl_step s op of
        None \<Rightarrow> None
      | Some (out, s) \<Rightarrow> map_option (apfst (Cons out)) (ttl_run s ops))"

fun lru_step :: "int \<times> ('k, 'v) lru \<Rightarrow> ('k, 'v) ttl_op \<times> int \<Rightarrow> 'v option \<times> int \<times> ('k, 'v) lru" where
  "lru_step (limit, es) (TSet k v d, now) = (None, limit, lru_set limit k v d es)"
| "lru_step (limit, es) (TGet k, now) = (let (out, es) = lru_get k now es in (out, limit, es))"
| "lru_step (limit, es) (TDelete k, now) = (None, limit, lru_without k es)"
| "lru_step (limit, es) (TResize n, now) = (None, n, take (nat n) es)"
| "lru_step (limit, es) (TCleanup order, now) = (None, limit, lru_clean now es)"

fun lru_run :: "int \<times> ('k, 'v) lru \<Rightarrow> (('k, 'v) ttl_op \<times> int) list \<Rightarrow> 'v option list \<times> int \<times> ('k, 'v) lru" where
  "lru_run l [] = ([], l)"
| "lru_run l (op # ops) = (let (out, l) = lru_step l op in apfst (Cons out) (lru_run l ops))"

text \<open>Sizes are positive, and a loop over the map meets each entry.\<close>

fun admissible :: "('k, 'v) ttl_op \<Rightarrow> bool" where
  "admissible (TResize n) \<longleftrightarrow> 0 < n"
| "admissible (TCleanup order) \<longleftrightarrow> (\<forall>m. set (order m) = set m)"
| "admissible _ \<longleftrightarrow> True"

definition represents :: "('k, 'v) ttl_map \<Rightarrow> int \<times> ('k, 'v) lru \<Rightarrow> bool" where
  "represents s l \<longleftrightarrow> refines s (snd l) \<and> maxSize s = fst l \<and> 0 < fst l \<and> length (snd l) \<le> nat (fst l)"

lemma refines_distinct: "refines s es \<Longrightarrow> distinct (map fst es)"
  by (auto simp: refines_def entries_distinct)

lemma lru_without_shorter:
  assumes "map_of es k \<noteq> None"
  shows "length (lru_without k es) < length es"
proof -
  from assms obtain e where "e \<in> set es" "\<not> fst e \<noteq> k" by (auto simp: map_of_eq_None_iff)
  then show ?thesis unfolding lru_without_def by (rule length_filter_less)
qed

lemma lru_step_fits:
  assumes "admissible op" and "0 < fst l" and "length (snd l) \<le> nat (fst l)"
  shows "0 < fst (snd (lru_step l (op, now)))"
    and "length (snd (snd (lru_step l (op, now)))) \<le> nat (fst (snd (lru_step l (op, now))))"
proof -
  obtain limit es where l: "l = (limit, es)" by (cases l)
  show "0 < fst (snd (lru_step l (op, now)))" using assms by (cases op) (auto simp: l split: prod.split)
  note short = lru_without_shorter [of es]
  show "length (snd (snd (lru_step l (op, now)))) \<le> nat (fst (snd (lru_step l (op, now))))"
  proof (cases op)
    case (TSet k v d)
    then show ?thesis using assms short [of k] by (auto simp: l lru_set_def)
  next
    case (TGet k)
    then show ?thesis using assms short [of k] by (auto simp: l lru_get_def split: option.split)
  next
    case (TDelete k)
    then show ?thesis using assms by (auto simp: l lru_without_def intro: le_trans [OF length_filter_le])
  next
    case (TCleanup order)
    then show ?thesis using assms by (auto simp: l lru_clean_def intro: le_trans [OF length_filter_le])
  qed (use assms in \<open>auto simp: l\<close>)
qed

lemma ttl_step_represents:
  assumes "represents s l" and "admissible op"
  obtains s' where "ttl_step s (op, now) = Some (fst (lru_step l (op, now)), s')"
    "represents s' (snd (lru_step l (op, now)))"
proof -
  obtain limit es where l: "l = (limit, es)" by (cases l)
  have r: "refines s es" "maxSize s = limit" "0 < limit" "length es \<le> nat limit"
    using assms(1) by (simp_all add: represents_def l)
  note fits = lru_step_fits [OF assms(2), of l now]
  have fin: thesis if "ttl_step s (op, now) = Some (fst (lru_step l (op, now)), s')"
    "refines s' (snd (snd (lru_step l (op, now))))" "maxSize s' = fst (snd (lru_step l (op, now)))" for s'
    using \<open>\<And>s'. ttl_step s (op, now) = Some (fst (lru_step l (op, now)), s') \<Longrightarrow> represents s' (snd (lru_step l (op, now))) \<Longrightarrow> thesis\<close>
      that fits r by (simp add: represents_def l)
  show thesis
  proof (cases op)
    case (TSet k v d)
    obtain s' where "ttl_Set s k v d now = Some s'" "refines s' (lru_set limit k v d es)" "maxSize s' = limit"
      using ttl_Set_refines [OF r(1)] r(2,3) by metis
    then show thesis using fin [of s'] TSet by (simp add: l)
  next
    case (TGet k)
    obtain s' where "ttl_Get s k now = (fst (lru_get k now es), s')" "refines s' (snd (lru_get k now es))" "maxSize s' = limit"
      using ttl_Get_refines [OF r(1)] r(2) by metis
    then show thesis using fin [of s'] TGet by (simp add: l split_beta)
  next
    case (TDelete k)
    then show thesis using fin [of "ttl_Delete s k now"] ttl_Delete_refines [OF r(1), of k now] r(2) by (simp add: l)
  next
    case (TResize n)
    then have "0 \<le> n" using assms(2) by simp
    then obtain s' where "ttl_Resize s n = Some s'" "refines s' (take (nat n) es)" "maxSize s' = n"
      using ttl_Resize_refines [OF r(1)] r(2,4) by metis
    then show thesis using fin [of s'] TResize by (simp add: l)
  next
    case (TCleanup order)
    then have "\<forall>m. set (order m) = set m" using assms(2) by simp
    from cleanupExpired_refines [OF r(1) this, of now] show thesis
      using fin [of "cleanupExpired s order now"] TCleanup r(2) by (simp add: l)
  qed
qed

lemma ttl_run_represents:
  assumes "represents s l" and "\<forall>(op, now) \<in> set ops. admissible op"
  shows "\<exists>s'. ttl_run s ops = Some (fst (lru_run l ops), s') \<and> represents s' (snd (lru_run l ops))"
  using assms
proof (induction ops arbitrary: s l)
  case (Cons p ops)
  obtain op now where p: "p = (op, now)" by (cases p)
  have "admissible op" using Cons.prems(2) p by simp
  then obtain s1 where s1: "ttl_step s p = Some (fst (lru_step l p), s1)" "represents s1 (snd (lru_step l p))"
    using ttl_step_represents [OF Cons.prems(1)] p by metis
  obtain s' where "ttl_run s1 ops = Some (fst (lru_run (snd (lru_step l p)) ops), s')"
    "represents s' (snd (lru_run (snd (lru_step l p)) ops))"
    using Cons.IH [OF s1(2)] Cons.prems(2) by auto
  then show ?case using s1(1) by (simp add: split_beta)
qed simp

lemma ttl_New_represents: "0 < limit \<Longrightarrow> represents (ttl_New k0 v0 limit now) (limit, [])"
  by (auto simp: represents_def refines_def ttl_New_def ttl_inv_def linked_def indexed_def ring_def
      intro!: exI [of _ "[]"])

text \<open>C16: From a map of positive size, with positive sizes in every \<open>Resize\<close>, every sequence of calls
  returns, each \<open>Get\<close> returns what the list of entries ordered by their last use says, and the
  linked nodes and the index represent that list, which has at most \<open>maxSize\<close> entries: the evicted
  entry is always the least recently used one, and an expired entry is never returned.
\<close>

theorem ttl_runs_refine:
  assumes "0 < limit" and "\<forall>(op, now) \<in> set ops. admissible op"
  shows "\<exists>s. ttl_run (ttl_New k0 v0 limit t0) ops = Some (fst (lru_run (limit, []) ops), s)
    \<and> represents s (snd (lru_run (limit, []) ops))"
  by (rule ttl_run_represents [OF ttl_New_represents [OF assms(1)] assms(2)])

theorem ttl_runs_refine_witness:
  "fst (lru_run (2, []) [(TSet 1 10 0, 0), (TSet 2 20 5, 1), (TGet 1, 2), (TSet 3 30 0, 3), (TGet 2, 4), (TGet (1::nat), 5),
      (TCleanup rev, 6), (TResize 1, 7)]) = [None, None, Some (10::nat), None, None, Some 10, None, None]
    \<and> (\<exists>s. ttl_run (ttl_New 0 0 2 0) [(TSet 1 10 0, 0), (TSet 2 20 5, 1), (TGet 1, 2), (TSet 3 30 0, 3), (TGet 2, 4),
            (TGet (1::nat), 5), (TCleanup rev, 6), (TResize 1, 7)]
          = Some ([None, None, Some (10::nat), None, None, Some 10, None, None], s)
        \<and> represents s (1, [(1, 10, 0)]))"
  using ttl_runs_refine [of 2 "[(TSet 1 10 0, 0), (TSet 2 20 5, 1), (TGet 1, 2), (TSet 3 30 0, 3), (TGet 2, 4),
            (TGet (1::nat), 5), (TCleanup rev, 6), (TResize 1, 7)]" "0::nat" "0::nat" 0]
  by (simp add: lru_set_def lru_get_def lru_without_def lru_clean_def expired_def)

section \<open>Loops that do not end\<close>

lemma evict_ends_below: "evict limit s = Some s' \<Longrightarrow> int (length (items s')) < limit"
proof (induction rule: evict.raw_induct [of "\<lambda>limit s s'. int (length (items s')) < limit", rotated, consumes 1])
  case (1 f limit s s')
  then show ?case by (auto split: if_splits)
qed

lemma evict_stuck:
  assumes "m_tail s = None" and "limit \<le> int (length (items s))"
  shows "evict limit s = None"
proof (rule ccontr)
  assume "evict limit s \<noteq> None"
  then obtain s' where "evict limit s = Some s'" by auto
  then have "\<not> (m_tail s = None \<and> limit \<le> int (length (items s)))"
  proof (induction rule: evict.raw_induct [of "\<lambda>limit s s'. \<not> (m_tail s = None \<and> limit \<le> int (length (items s)))", rotated, consumes 1])
    case (1 f limit s s')
    show ?case
    proof
      assume stuck: "m_tail s = None \<and> limit \<le> int (length (items s))"
      then have "f limit s = Some s'" using 1(2) by (simp add: removeOldest_def)
      then show False using 1(1) stuck by blast
    qed
  qed
  then show False using assms by simp
qed

text \<open>C17: In a map whose size is not positive, \<open>Set\<close> of a key that is not there never returns, and neither
  does \<open>Resize\<close> from a larger size to a negative one: the loops wait for a length below zero, with the
  lock held.
\<close>

theorem nonpositive_size_hangs:
  "(maxSize s \<le> 0 \<longrightarrow> map_of (items s) k = None \<longrightarrow> ttl_Set s k v d now = None)
    \<and> (n < 0 \<longrightarrow> n < maxSize s \<longrightarrow> ttl_Resize s n = None)"
proof -
  have none: "evict limit s = None" if "limit \<le> 0" for limit
    using evict_ends_below [of limit s] that by (cases "evict limit s") force+
  then show ?thesis by (simp add: ttl_Set_def ttl_Resize_def)
qed

theorem nonpositive_size_hangs_witness:
  "ttl_Set (ttl_New 0 0 0 0) (1::nat) (10::nat) 0 0 = None \<and> ttl_Resize (ttl_New (0::nat) (0::nat) 1 0) (- 1) = None"
  using nonpositive_size_hangs [of "ttl_New 0 0 0 0" "1::nat" "10::nat" 0 0 0]
    nonpositive_size_hangs [of "ttl_New (0::nat) (0::nat) 1 0" 0 0 0 0 "- 1"]
  by (simp add: ttl_New_def)

text \<open>C18: \<open>Get\<close> looks the node up under the read lock and moves it to the front under a lock it takes
  later.  With one slot, a \<open>Delete\<close> of the key and a \<open>Set\<close> of another one in between leave the index and
  the list with different nodes; the next \<open>Set\<close> of a third key then loops forever, with the lock held.
\<close>

theorem racing_Get_hangs:
  assumes "ttl_Set (ttl_New k0 v0 1 t0) a va 0 t1 = Some s1" and "get_read s1 a = Some node"
    and "ttl_Set (ttl_Delete s1 a t2) b vb 0 t3 = Some s2" and "get_finish s2 a node t4 = (out, s3)" and "a \<noteq> b" and "c \<noteq> b"
  shows "out = Some va \<and> ttl_Set s3 c vc d t5 = None"
proof -
  have s1: "items s1 = [(a, 0)]" "m_head s1 = Some 0" "m_tail s1 = Some 0" "n_next s1 0 = None" "n_prev s1 0 = None"
    "n_free s1 = 1" "maxSize s1 = 1" "n_deadline s1 0 = 0" "n_value s1 0 = va" "n_key s1 0 = a"
    using assms(1) by (auto simp: ttl_Set_def ttl_New_def evict.simps addToFront_def start_cleanup_def Let_def split: if_splits)
  have node: "node = 0" using assms(2) s1 by (simp add: get_read_def)
  let ?s = "ttl_Delete s1 a t2"
  have del: "items ?s = []" "m_head ?s = None" "m_tail ?s = None" "n_next ?s 0 = None" "n_prev ?s 0 = None"
    "n_free ?s = 1" "maxSize ?s = 1" "n_deadline ?s 0 = 0" "n_value ?s 0 = va" "n_key ?s 0 = a"
    using s1 by (simp_all add: ttl_Delete_def removeNode_def start_cleanup_def Let_def split: if_splits)
  have s2: "items s2 = [(b, 1)]" "m_head s2 = Some 1" "m_tail s2 = Some 1" "n_next s2 0 = None" "n_prev s2 0 = None"
    "maxSize s2 = 1" "n_deadline s2 0 = 0" "n_value s2 0 = va" "n_key s2 0 = a"
    using assms(3) del by (auto simp: ttl_Set_def evict.simps addToFront_def start_cleanup_def Let_def split: if_splits)
  have s3: "out = Some va" "s3 = moveToFront s2 0" using assms(4) s2
    by (auto simp: node get_finish_def expired_def moveToFront_def)
  have l: "items s3 = [(b, 1)]" "m_tail s3 = Some 0" "n_prev s3 0 = None" "n_next s3 0 = None" "maxSize s3 = 1" "n_key s3 0 = a"
    using s2 by (simp_all add: s3(2) moveToFront_def removeNode_def addToFront_def)
  have "evict 1 s3 = evict 1 (removeOldest s3)" using l by (subst evict.simps) simp
  also have "\<dots> = None"
    using l assms(5) by (intro evict_stuck) (simp_all add: removeOldest_def removeNode_def)
  finally show ?thesis using l assms(6) s3(1) by (simp add: ttl_Set_def)
qed

theorem racing_Get_hangs_witness:
  "\<exists>s1 s2 s3. ttl_Set (ttl_New 0 0 1 0) 1 10 0 0 = Some s1 \<and> get_read s1 1 = Some 0
    \<and> ttl_Set (ttl_Delete s1 1 0) (2::nat) (20::nat) 0 0 = Some s2 \<and> get_finish s2 1 0 0 = (Some 10, s3)
    \<and> ttl_Set s3 3 30 0 0 = None"
proof -
  let ?s1 = "the (ttl_Set (ttl_New 0 0 1 0) (1::nat) (10::nat) 0 0)"
  let ?s2 = "the (ttl_Set (ttl_Delete ?s1 1 0) 2 20 0 0)"
  let ?s3 = "snd (get_finish ?s2 1 0 0)"
  note defs = ttl_Set_def ttl_New_def evict.simps addToFront_def start_cleanup_def Let_def ttl_Delete_def removeNode_def
    get_finish_def expired_def moveToFront_def get_read_def
  have c: "ttl_Set (ttl_New 0 0 1 0) 1 10 0 0 = Some ?s1" "get_read ?s1 1 = Some 0"
    "ttl_Set (ttl_Delete ?s1 1 0) 2 20 0 0 = Some ?s2" "get_finish ?s2 1 0 0 = (Some 10, ?s3)"
    by (simp_all add: defs)
  from racing_Get_hangs [OF c, of 3 30 0 0] have "ttl_Set ?s3 3 30 0 0 = None" by simp
  with c show ?thesis by blast
qed

end
