(* ===== verification/Protect.thy ===== *)
theory Protect
  imports Go_Prelude
begin

text \<open>
  Reference counting: the key counter (\<open>src/keycounter/keycounter.go\<close>) and the protector that counts how
  often each address is protected (\<open>src/protect\<close>).  A Go map from keys to \<open>int\<close> is a partial function; the
  wrapped protector, an interface value, is a record of functions on a state of its own.
\<close>

section \<open>Counting in a Go map\<close>

text \<open>Reading an absent key gives zero; \<open>m[k]++\<close> and \<open>m[k] -= 1; if m[k] == 0 { delete(m, k) }\<close>.\<close>

definition count :: "('k \<Rightarrow> int option) \<Rightarrow> 'k \<Rightarrow> int" where
  "count m k = (case m k of Some n \<Rightarrow> n | None \<Rightarrow> 0)"

definition Inc :: "('k \<Rightarrow> int option) \<Rightarrow> 'k \<Rightarrow> ('k \<Rightarrow> int option)" where
  "Inc m k = m(k \<mapsto> int64 (count m k + 1))"

definition Dec :: "('k \<Rightarrow> int option) \<Rightarrow> 'k \<Rightarrow> ('k \<Rightarrow> int option)" where
  "Dec m k = (let m = m(k \<mapsto> int64 (count m k - 1)) in if count m k = 0 then m(k := None) else m)"

definition KeyCounter_New :: "'k \<Rightarrow> int option" where
  "KeyCounter_New = Map.empty"

definition KeyCounter_Count :: "('k \<Rightarrow> int option) \<Rightarrow> nat" where
  "KeyCounter_Count m = card (dom m)"

text \<open>A counter map is positive when it holds exactly the keys that are counted.\<close>

definition positive :: "('k \<Rightarrow> int option) \<Rightarrow> bool" where
  "positive m \<longleftrightarrow> (\<forall>k n. m k = Some n \<longrightarrow> 0 < n \<and> n < 2 ^ 63)"

lemma positive_empty [simp]: "positive Map.empty"
  by (simp add: positive_def)

lemma count_empty [simp]: "count Map.empty k = 0"
  by (simp add: count_def)

lemma count_upd [simp]: "count (m(k \<mapsto> n)) = (count m)(k := n)" "count (m(k := None)) = (count m)(k := 0)"
  by (auto simp: count_def fun_eq_iff)

lemma positive_dom: "positive m \<Longrightarrow> dom m = {k. 0 < count m k}"
  by (auto simp: positive_def count_def split: option.splits)

lemma count_bounds: "positive m \<Longrightarrow> 0 \<le> count m k \<and> count m k < 2 ^ 63"
  by (force simp: positive_def count_def split: option.split)

lemma Inc_counts:
  assumes "positive m" and "count m k < 2 ^ 63 - 1"
  shows "positive (Inc m k)" and "count (Inc m k) = (count m)(k := count m k + 1)"
proof -
  have n: "int64 (count m k + 1) = count m k + 1"
    using count_bounds [OF assms(1), of k] assms(2) by (intro int64_id) (simp add: is_int64_def)
  show "positive (Inc m k)"
    using assms count_bounds [OF assms(1), of k] by (auto simp: Inc_def positive_def n)
  show "count (Inc m k) = (count m)(k := count m k + 1)"
    by (simp add: Inc_def n)
qed

lemma Dec_counts:
  assumes "positive m" and "0 < count m k"
  shows "positive (Dec m k)" and "count (Dec m k) = (count m)(k := count m k - 1)"
proof -
  have n: "int64 (count m k - 1) = count m k - 1"
    using count_bounds [OF assms(1), of k] assms(2) by (intro int64_id) (simp add: is_int64_def)
  show "positive (Dec m k)"
    using assms count_bounds [OF assms(1), of k] by (auto simp: Dec_def Let_def positive_def n)
  show "count (Dec m k) = (count m)(k := count m k - 1)"
    by (auto simp: fun_eq_iff Dec_def Let_def n)
qed

lemma KeyCounter_Count_positive: "positive m \<Longrightarrow> KeyCounter_Count m = card {k. 0 < count m k}"
  by (simp add: KeyCounter_Count_def positive_dom)

text \<open>Counting over a list of distinct keys.\<close>

lemma fold_Inc:
  assumes "positive m" and "distinct ks" and "\<forall>k \<in> set ks. count m k < 2 ^ 63 - 1"
  shows "positive (fold (\<lambda>k m. Inc m k) ks m)
    \<and> count (fold (\<lambda>k m. Inc m k) ks m) = (\<lambda>k. count m k + (if k \<in> set ks then 1 else 0))"
  using assms
proof (induction ks arbitrary: m)
  case (Cons k ks)
  note i = Inc_counts [of m k]
  have "\<forall>x \<in> set ks. count (Inc m k) x < 2 ^ 63 - 1" using Cons.prems i by auto
  then show ?case using Cons.IH [of "Inc m k"] Cons.prems i by (auto simp: fun_eq_iff)
qed simp

lemma fold_Dec:
  assumes "positive m" and "distinct ks" and "\<forall>k \<in> set ks. 0 < count m k"
  shows "positive (fold (\<lambda>k m. Dec m k) ks m)
    \<and> count (fold (\<lambda>k m. Dec m k) ks m) = (\<lambda>k. count m k - (if k \<in> set ks then 1 else 0))"
  using assms
proof (induction ks arbitrary: m)
  case (Cons k ks)
  note d = Dec_counts [of m k]
  have "\<forall>x \<in> set ks. 0 < count (Dec m k) x" using Cons.prems d by auto
  then show ?case using Cons.IH [of "Dec m k"] Cons.prems d by (auto simp: fun_eq_iff)
qed simp

section \<open>Protectors\<close>

record ('a, 's, 'e) Protector =
  protect_call :: "'a list \<Rightarrow> 's \<Rightarrow> 'e option \<times> 's"
  unprotect_call :: "'a list \<Rightarrow> 's \<Rightarrow> 'e option \<times> 's"

definition Dummy :: "('a, 's, 'e) Protector" where
  "Dummy = \<lparr>protect_call = (\<lambda>_ s. (None, s)), unprotect_call = (\<lambda>_ s. (None, s))\<rparr>"

definition TryProtecSlice :: "('a, 's, 'e) Protector \<Rightarrow> 'a list \<Rightarrow> 's \<Rightarrow> 'e option \<times> 's" where
  "TryProtecSlice p ips s = (case protect_call p ips s of (Some err, s) \<Rightarrow> (Some err, s) | (None, s) \<Rightarrow> (None, s))"

definition TryUnprotecSlice :: "('a, 's, 'e) Protector \<Rightarrow> 'a list \<Rightarrow> 's \<Rightarrow> 'e option \<times> 's" where
  "TryUnprotecSlice p ips s = (case unprotect_call p ips s of (Some err, s) \<Rightarrow> (Some err, s) | (None, s) \<Rightarrow> (None, s))"

definition TryProtect :: "('a, 's, 'e) Protector \<Rightarrow> 'a list \<Rightarrow> 's \<Rightarrow> 'e option \<times> 's" where
  "TryProtect p ips s = TryProtecSlice p ips s"

definition TryUnprotect :: "('a, 's, 'e) Protector \<Rightarrow> 'a list \<Rightarrow> 's \<Rightarrow> 'e option \<times> 's" where
  "TryUnprotect p ips s = TryUnprotecSlice p ips s"

text \<open>The counter with the state of the protector it wraps.\<close>

record ('a, 's) ProtectCounter =
  protected :: "'a \<Rightarrow> int option"
  inner :: 's

definition WithProtectCounter :: "'s \<Rightarrow> ('a, 's) ProtectCounter" where
  "WithProtectCounter s = \<lparr>protected = Map.empty, inner = s\<rparr>"

definition ProtectAddresses ::
  "('a, 's, 'e) Protector \<Rightarrow> 'a list \<Rightarrow> ('a, 's) ProtectCounter \<Rightarrow> 'e option \<times> ('a, 's) ProtectCounter" where
  "ProtectAddresses p addrs pc =
     (let unprotected = filter (\<lambda>addr. protected pc addr = None) addrs in
      case protect_call p unprotected (inner pc) of
        (Some err, s) \<Rightarrow> (Some err, pc\<lparr>inner := s\<rparr>)
      | (None, s) \<Rightarrow> (None, pc\<lparr>inner := s, protected := fold (\<lambda>addr m. Inc m addr) addrs (protected pc)\<rparr>))"

definition UnprotectAddresses ::
  "('a, 's, 'e) Protector \<Rightarrow> 'a list \<Rightarrow> ('a, 's) ProtectCounter \<Rightarrow> 'e option \<times> ('a, 's) ProtectCounter" where
  "UnprotectAddresses p addrs pc =
     (let unprotect = filter (\<lambda>addr. count (protected pc) addr = 1) addrs;
          (err, s) = unprotect_call p unprotect (inner pc) in
      (err, pc\<lparr>inner := s, protected := fold (\<lambda>addr m. Dec m addr) addrs (protected pc)\<rparr>))"

text \<open>The order in which the loop over the map meets the addresses is an argument; the error is logged.\<close>

definition UnprotectAll :: "('a, 's, 'e) Protector \<Rightarrow> 'a list \<Rightarrow> ('a, 's) ProtectCounter \<Rightarrow> ('a, 's) ProtectCounter" where
  "UnprotectAll p order pc =
     (let (err, s) = unprotect_call p order (inner pc) in pc\<lparr>inner := s, protected := Map.empty\<rparr>)"

section \<open>What the wrapped protector holds\<close>

text \<open>
  \<open>holds\<close> reads the protected addresses off the state of the wrapped protector: a call that succeeds
  adds or removes its addresses, a call that fails changes nothing.
\<close>

definition is_protector :: "('a, 's, 'e) Protector \<Rightarrow> ('s \<Rightarrow> 'a set) \<Rightarrow> bool" where
  "is_protector p holds \<longleftrightarrow>
     (\<forall>as s. let (err, s') = protect_call p as s in holds s' = (if err = None then holds s \<union> set as else holds s))
     \<and> (\<forall>as s. let (err, s') = unprotect_call p as s in holds s' = (if err = None then holds s - set as else holds s))"

lemma protect_holds:
  "is_protector p holds \<Longrightarrow> protect_call p as s = (err, s') \<Longrightarrow>
     holds s' = (if err = None then holds s \<union> set as else holds s)"
  unfolding is_protector_def by (metis (mono_tags, lifting) case_prod_conv)

lemma unprotect_holds:
  "is_protector p holds \<Longrightarrow> unprotect_call p as s = (err, s') \<Longrightarrow>
     holds s' = (if err = None then holds s - set as else holds s)"
  unfolding is_protector_def by (metis (mono_tags, lifting) case_prod_conv)

datatype 'a protect_op = PProtect "'a list" | PUnprotect "'a list"

fun protect_step ::
  "('a, 's, 'e) Protector \<Rightarrow> 'a protect_op \<Rightarrow> ('a, 's) ProtectCounter \<Rightarrow> 'e option \<times> ('a, 's) ProtectCounter" where
  "protect_step p (PProtect addrs) pc = ProtectAddresses p addrs pc"
| "protect_step p (PUnprotect addrs) pc = UnprotectAddresses p addrs pc"

fun protect_run ::
  "('a, 's, 'e) Protector \<Rightarrow> 'a protect_op list \<Rightarrow> ('a, 's) ProtectCounter \<Rightarrow> 'e option list \<times> ('a, 's) ProtectCounter" where
  "protect_run p [] pc = ([], pc)"
| "protect_run p (op # ops) pc =
     (let (err, pc) = protect_step p op pc; (errs, pc) = protect_run p ops pc in (err # errs, pc))"

text \<open>The claims that the callers hold: a \<open>ProtectAddresses\<close> that succeeds makes one on each address, an
  \<open>UnprotectAddresses\<close> gives one back whether or not the wrapped protector reports an error.\<close>

fun claims_after :: "'a protect_op \<Rightarrow> 'e option \<Rightarrow> ('a \<Rightarrow> nat) \<Rightarrow> ('a \<Rightarrow> nat)" where
  "claims_after (PProtect addrs) err c = (if err = None then (\<lambda>a. if a \<in> set addrs then c a + 1 else c a) else c)"
| "claims_after (PUnprotect addrs) err c = (\<lambda>a. if a \<in> set addrs then c a - 1 else c a)"

fun op_ok :: "('a \<Rightarrow> nat) \<Rightarrow> 'a protect_op \<Rightarrow> bool" where
  "op_ok c (PProtect addrs) \<longleftrightarrow> distinct addrs"
| "op_ok c (PUnprotect addrs) \<longleftrightarrow> distinct addrs \<and> (\<forall>a \<in> set addrs. 0 < c a)"

fun run_ok :: "('a \<Rightarrow> nat) \<Rightarrow> ('a protect_op \<times> 'e option) list \<Rightarrow> bool" where
  "run_ok c [] \<longleftrightarrow> True"
| "run_ok c ((op, err) # ops) \<longleftrightarrow> op_ok c op \<and> run_ok (claims_after op err c) ops"

fun claims :: "('a \<Rightarrow> nat) \<Rightarrow> ('a protect_op \<times> 'e option) list \<Rightarrow> 'a \<Rightarrow> nat" where
  "claims c [] = c"
| "claims c ((op, err) # ops) = claims (claims_after op err c) ops"

fun is_unprotect :: "'a protect_op \<Rightarrow> bool" where
  "is_unprotect (PUnprotect addrs) \<longleftrightarrow> True"
| "is_unprotect (PProtect addrs) \<longleftrightarrow> False"

section \<open>Runs\<close>

definition counts_claims ::
  "('s \<Rightarrow> 'a set) \<Rightarrow> ('a, 's) ProtectCounter \<Rightarrow> ('a \<Rightarrow> nat) \<Rightarrow> nat \<Rightarrow> bool \<Rightarrow> bool" where
  "counts_claims holds pc c n exact \<longleftrightarrow>
     positive (protected pc) \<and> count (protected pc) = (\<lambda>a. int (c a)) \<and> (\<forall>a. c a \<le> n)
     \<and> {a. 0 < c a} \<subseteq> holds (inner pc) \<and> (exact \<longrightarrow> holds (inner pc) = {a. 0 < c a})"

lemma absent_iff: "positive m \<Longrightarrow> m a = None \<longleftrightarrow> count m a = 0"
  by (force simp: positive_def count_def split: option.split)

lemma ProtectAddresses_counts:
  assumes "is_protector p holds" and inv: "counts_claims holds pc c n exact" and "distinct addrs" and "n < 2 ^ 63 - 1"
    and "ProtectAddresses p addrs pc = (err, pc')"
  shows "counts_claims holds pc' (claims_after (PProtect addrs) err c) (Suc n) exact"
proof -
  let ?un = "filter (\<lambda>addr. protected pc addr = None) addrs"
  obtain err' s where call: "protect_call p ?un (inner pc) = (err', s)" by fastforce
  note h = protect_holds [OF assms(1) call]
  have pos: "positive (protected pc)" and cnt: "count (protected pc) = (\<lambda>a. int (c a))" and n: "\<forall>a. c a \<le> n"
    and sub: "{a. 0 < c a} \<subseteq> holds (inner pc)" and ex: "exact \<longrightarrow> holds (inner pc) = {a. 0 < c a}"
    using inv by (auto simp: counts_claims_def)
  have un: "set ?un = {a \<in> set addrs. c a = 0}" by (simp add: absent_iff [OF pos] cnt)
  have le: "c a \<le> Suc n" for a using n by (simp add: le_SucI)
  let ?c = "\<lambda>a. if a \<in> set addrs then c a + 1 else c a"
  show ?thesis
  proof (cases err')
    case None
    have "count (protected pc) a < 2 ^ 63 - 1" for a
      using spec [OF n, of a] assms(4) by (simp add: cnt)
    then have "positive (fold (\<lambda>k m. Inc m k) addrs (protected pc))
      \<and> count (fold (\<lambda>k m. Inc m k) addrs (protected pc)) = (\<lambda>k. count (protected pc) k + (if k \<in> set addrs then 1 else 0))"
      by (intro fold_Inc [OF pos assms(3)]) simp
    then have f: "positive (protected pc')" "count (protected pc') = (\<lambda>a. int (?c a))" "err = None" "inner pc' = s"
      using assms(5) call None by (auto simp: ProtectAddresses_def cnt fun_eq_iff)
    have held: "{a. 0 < ?c a} = {a. 0 < c a} \<union> {a \<in> set addrs. c a = 0}" by auto
    have "?c a \<le> Suc n" for a using spec [OF n, of a] by simp
    moreover have "{a. 0 < ?c a} \<subseteq> holds s \<and> (exact \<longrightarrow> holds s = {a. 0 < ?c a})"
      unfolding held using h un sub ex None by auto
    ultimately show ?thesis using f unfolding counts_claims_def claims_after.simps by simp
  next
    case (Some e)
    then show ?thesis
      using assms(5) call h inv le by (auto simp: ProtectAddresses_def counts_claims_def)
  qed
qed

lemma UnprotectAddresses_counts:
  assumes "is_protector p holds" and inv: "counts_claims holds pc c n exact" and "distinct addrs" and "\<forall>a \<in> set addrs. 0 < c a"
    and "UnprotectAddresses p addrs pc = (err, pc')"
  shows "counts_claims holds pc' (claims_after (PUnprotect addrs) err c) (Suc n) (exact \<and> err = None)"
proof -
  let ?un = "filter (\<lambda>addr. count (protected pc) addr = 1) addrs"
  obtain err' s where call: "unprotect_call p ?un (inner pc) = (err', s)" by fastforce
  note h = unprotect_holds [OF assms(1) call]
  have pos: "positive (protected pc)" and cnt: "count (protected pc) = (\<lambda>a. int (c a))" and n: "\<forall>a. c a \<le> n"
    and sub: "{a. 0 < c a} \<subseteq> holds (inner pc)" and ex: "exact \<longrightarrow> holds (inner pc) = {a. 0 < c a}"
    using inv by (auto simp: counts_claims_def)
  let ?c = "\<lambda>a. if a \<in> set addrs then c a - 1 else c a"
  have un: "set ?un = {a \<in> set addrs. c a = 1}" by (simp add: cnt)
  have "positive (fold (\<lambda>k m. Dec m k) addrs (protected pc))
      \<and> count (fold (\<lambda>k m. Dec m k) addrs (protected pc)) = (\<lambda>k. count (protected pc) k - (if k \<in> set addrs then 1 else 0))"
    by (intro fold_Dec [OF pos assms(3)]) (use assms(4) cnt in simp)
  then have f: "positive (protected pc')" "count (protected pc') = (\<lambda>a. int (?c a))" "err = err'" "inner pc' = s"
    using assms(4,5) call cnt by (auto simp: UnprotectAddresses_def fun_eq_iff)
  have held: "{a. 0 < ?c a} = {a. 0 < c a} - {a \<in> set addrs. c a = 1}" using assms(4) by auto
  moreover have "?c a \<le> Suc n" for a using spec [OF n, of a] by auto
  moreover have "{a. 0 < ?c a} \<subseteq> holds s \<and> (exact \<and> err' = None \<longrightarrow> holds s = {a. 0 < ?c a})"
    unfolding held using h un sub ex by auto
  ultimately show ?thesis using f unfolding counts_claims_def claims_after.simps by simp
qed

lemma protect_run_counts:
  assumes "is_protector p holds" and "counts_claims holds pc c n exact" and "protect_run p ops pc = (errs, pc')"
    and "run_ok c (zip ops errs)" and "n + length ops < 2 ^ 63"
  shows "length errs = length ops
    \<and> counts_claims holds pc' (claims c (zip ops errs)) (n + length ops)
        (exact \<and> (\<forall>(op, err) \<in> set (zip ops errs). is_unprotect op \<longrightarrow> err = None))"
  using assms(2-5)
proof (induction ops arbitrary: pc c n exact errs)
  case (Cons op ops)
  obtain err pc1 where st: "protect_step p op pc = (err, pc1)" by fastforce
  obtain errs1 where r: "protect_run p ops pc1 = (errs1, pc')" "errs = err # errs1"
    using Cons.prems(2) st by (auto split: prod.splits)
  have ok: "op_ok c op" "run_ok (claims_after op err c) (zip ops errs1)" using Cons.prems(3) r by auto
  have "counts_claims holds pc1 (claims_after op err c) (Suc n) (exact \<and> (is_unprotect op \<longrightarrow> err = None))"
  proof (cases op)
    case (PProtect addrs)
    have "n < 2 ^ 63 - 1" using Cons.prems(4) by simp
    then show ?thesis
      using ProtectAddresses_counts [OF assms(1) Cons.prems(1)] st ok(1) PProtect by simp
  next
    case (PUnprotect addrs)
    then show ?thesis using UnprotectAddresses_counts [OF assms(1) Cons.prems(1)] st ok(1) by simp
  qed
  from Cons.IH [OF this r(1) ok(2)] show ?case using Cons.prems(4) r(2) by (simp add: conj_assoc)
qed simp


text \<open>A protector that keeps its addresses in a list, for examples.\<close>

definition list_protector :: "('a, 'a list, string) Protector" where
  "list_protector = \<lparr>protect_call = (\<lambda>as s. (None, as @ s)), unprotect_call = (\<lambda>as s. (None, filter (\<lambda>a. a \<notin> set as) s))\<rparr>"

lemma list_protector_holds: "is_protector list_protector set"
  by (auto simp: is_protector_def list_protector_def)


text \<open>outside these conditions the counter loses track of the wrapped protector.  Two claims given back
  in one call that names the address twice leave it protected forever although nobody claims it;
  and an address that is unprotected without a claim is not protected by the next call that claims it.\<close>

theorem miscounted_addresses:
  assumes "is_protector p holds" and "protect_call p [a] s = (None, s1)" and "protect_call p [] s1 = (None, s2)"
    and "unprotect_call p [] s2 = (None, s3)" and "unprotect_call p [] s = (None, t1)" and "protect_call p [] t1 = (None, t2)"
    and "holds s = {}"
  shows "(let (errs, pc) = protect_run p [PProtect [a], PProtect [a], PUnprotect [a, a]] (WithProtectCounter s) in
      errs = [None, None, None] \<and> protected pc = Map.empty \<and> a \<in> holds (inner pc))
    \<and> (let (errs, pc) = protect_run p [PUnprotect [a], PProtect [a]] (WithProtectCounter s) in
      errs = [None, None] \<and> a \<notin> holds (inner pc))"
proof -
  have h: "holds s1 = {a}" "holds s2 = {a}" "holds s3 = {a}" "holds t1 = {}" "holds t2 = {}"
    using protect_holds [OF assms(1,2)] protect_holds [OF assms(1,3)] unprotect_holds [OF assms(1,4)]
      unprotect_holds [OF assms(1,5)] protect_holds [OF assms(1,6)] assms(7) by auto
  have i: "int64 1 = 1" "int64 2 = 2" "int64 0 = 0" "int64 (- 1) = - 1"
    by (simp_all add: int64_def)
  have "ProtectAddresses p [a] (WithProtectCounter s) = (None, \<lparr>protected = [a \<mapsto> 1], inner = s1\<rparr>)"
    using assms(2) by (simp add: ProtectAddresses_def WithProtectCounter_def Inc_def i)
  moreover have "ProtectAddresses p [a] \<lparr>protected = [a \<mapsto> 1], inner = s1\<rparr> = (None, \<lparr>protected = [a \<mapsto> 2], inner = s2\<rparr>)"
    using assms(3) by (simp add: ProtectAddresses_def Inc_def i)
  moreover have "UnprotectAddresses p [a, a] \<lparr>protected = [a \<mapsto> 2], inner = s2\<rparr> = (None, \<lparr>protected = Map.empty, inner = s3\<rparr>)"
    using assms(4) by (simp add: UnprotectAddresses_def Dec_def i)
  moreover have "UnprotectAddresses p [a] (WithProtectCounter s) = (None, \<lparr>protected = [a \<mapsto> - 1], inner = t1\<rparr>)"
    using assms(5) by (simp add: UnprotectAddresses_def WithProtectCounter_def Dec_def i)
  moreover have "ProtectAddresses p [a] \<lparr>protected = [a \<mapsto> - 1], inner = t1\<rparr> = (None, \<lparr>protected = [a \<mapsto> 0], inner = t2\<rparr>)"
    using assms(6) by (simp add: ProtectAddresses_def Inc_def i)
  ultimately show ?thesis using h by simp
qed

theorem miscounted_addresses_witness:
  "(let (errs, pc) = protect_run list_protector [PProtect [7], PProtect [7], PUnprotect [7, 7::nat]] (WithProtectCounter []) in
      errs = [None, None, None] \<and> protected pc = Map.empty \<and> 7 \<in> set (inner pc))
    \<and> (let (errs, pc) = protect_run list_protector [PUnprotect [7], PProtect [7::nat]] (WithProtectCounter []) in
      errs = [None, None] \<and> 7 \<notin> set (inner pc))"
  by (rule miscounted_addresses [OF list_protector_holds, of 7 "[]" "[7]" "[7]" "[7]" "[]" "[]"])
    (simp_all add: list_protector_def)

end
