(* ===== verification/Connmgr.thy ===== *)
theory Connmgr
  imports Go_Prelude
begin

text \<open>
  The registry of connections (\<open>src/connmgr\<close>): numbers are handed out round robin, and a number stays with
  its connection until it is unregistered.  \<open>CloseAll\<close> replaces the map by a new one, so the maps live in a
  heap and the manager holds the address of the current one; \<open>Register\<close> loads that address once and then
  loops, which is why its loop takes the address as an argument.  A loop that does not end is \<open>None\<close>.
\<close>

section \<open>Numbers\<close>

definition connMinimalID :: int where "connMinimalID = 1024"
definition connMaximalID :: int where "connMaximalID = 2147483647"
definition maxConns :: int where "maxConns = connMaximalID - connMinimalID + 1"

record idType =
  current :: int
  id_min :: int
  id_max :: int

definition newId :: "int \<Rightarrow> int \<Rightarrow> idType" where
  "newId lo hi = \<lparr>current = lo, id_min = lo, id_max = hi\<rparr>"

definition shift :: "idType \<Rightarrow> int \<times> idType" where
  "shift i =
     (let c = current i;
          i = i\<lparr>current := int64 (current i + 1)\<rparr>;
          i = (if current i > id_max i then i\<lparr>current := id_min i\<rparr> else i) in
      (c, i))"

section \<open>The manager\<close>

datatype conn_error = ErrNotExist | ErrOutOfResources

record 'c Instance =
  pmaps :: "nat \<Rightarrow> int \<Rightarrow> 'c option"
  pmap :: nat
  next_map :: nat
  id :: idType

definition NewConnMgr :: "'c Instance" where
  "NewConnMgr = \<lparr>pmaps = (\<lambda>_. Map.empty), pmap = 0, next_map = 1, id = newId connMinimalID connMaximalID\<rparr>"

definition Lookup :: "'c Instance \<Rightarrow> int \<Rightarrow> (conn_error, 'c) outcome" where
  "Lookup m i = (case pmaps m (pmap m) i of None \<Rightarrow> Err ErrNotExist | Some c \<Rightarrow> Ok c)"

partial_function (option) register_loop :: "nat \<Rightarrow> 'c \<Rightarrow> 'c Instance \<Rightarrow> (int \<times> 'c Instance) option" where
  "register_loop connById c m =
     (let (i, ids) = shift (Instance.id m); m = m\<lparr>Instance.id := ids\<rparr> in
      if pmaps m connById i \<noteq> None then register_loop connById c m
      else Some (i, m\<lparr>pmaps := (pmaps m)(connById := (pmaps m connById)(i \<mapsto> c))\<rparr>))"

definition Register :: "'c \<Rightarrow> 'c Instance \<Rightarrow> (int \<times> 'c Instance) option" where
  "Register c m = register_loop (pmap m) c m"

definition Unregister :: "int \<Rightarrow> 'c Instance \<Rightarrow> conn_error option \<times> 'c Instance" where
  "Unregister i m =
     (let connById = pmap m in
      (if pmaps m connById i = None then Some ErrNotExist else None,
       m\<lparr>pmaps := (pmaps m)(connById := (pmaps m connById)(i := None))\<rparr>))"

text \<open>The connections that are closed, in the order in which \<open>Range\<close> meets the keys.\<close>

definition CloseAll :: "int list \<Rightarrow> 'c Instance \<Rightarrow> 'c list \<times> 'c Instance" where
  "CloseAll order m =
     (let connById = pmap m;
          m = m\<lparr>pmaps := (pmaps m)(next_map m := Map.empty), pmap := next_map m, next_map := next_map m + 1\<rparr> in
      (List.map_filter (pmaps m connById) order, m))"

section \<open>Handing out numbers\<close>

definition ids_ok :: "idType \<Rightarrow> bool" where
  "ids_ok i \<longleftrightarrow> id_min i = connMinimalID \<and> id_max i = connMaximalID \<and> current i \<in> {connMinimalID..connMaximalID}"

definition all_ids :: "int set" where
  "all_ids = {connMinimalID..connMaximalID}"

lemma shift_next:
  assumes "ids_ok i"
  shows "shift i = (current i, i\<lparr>current := (if current i = connMaximalID then connMinimalID else current i + 1)\<rparr>)"
proof -
  have "int64 (current i + 1) = current i + 1"
    using assms by (intro int64_id) (simp add: ids_ok_def is_int64_def connMinimalID_def connMaximalID_def)
  then show ?thesis using assms by (auto simp: shift_def Let_def ids_ok_def)
qed

lemma shift_ok: "ids_ok i \<Longrightarrow> ids_ok (snd (shift i))"
  by (auto simp: shift_next) (auto simp: ids_ok_def connMinimalID_def connMaximalID_def)

text \<open>How many numbers lie between the current one and another one, going round.\<close>

definition distance :: "int \<Rightarrow> int \<Rightarrow> nat" where
  "distance c f = nat ((f - c) mod maxConns)"

lemma distance_next:
  assumes "ids_ok i" and "f \<in> all_ids" and "current i \<noteq> f"
  shows "distance (current (snd (shift i))) f < distance (current i) f"
proof -
  define c where "c = current i"
  have c: "connMinimalID \<le> c" "c \<le> connMaximalID" "connMinimalID \<le> f" "f \<le> connMaximalID" "c \<noteq> f"
    using assms by (auto simp: ids_ok_def all_ids_def c_def)
  have d: "distance c f = nat (if c < f then f - c else f - c + maxConns)"
  proof (cases "c < f")
    case False
    have "(f - c) mod maxConns = (f - c + maxConns) mod maxConns" by simp
    also have "\<dots> = f - c + maxConns" using False c by (intro mod_pos_pos_trivial) (simp_all add: maxConns_def)
    finally show ?thesis using False by (simp add: distance_def)
  qed (use c in \<open>simp add: distance_def maxConns_def\<close>)
  show ?thesis
  proof (cases "c = connMaximalID")
    case True
    have "distance connMinimalID f = nat (f - connMinimalID)" using c by (simp add: distance_def maxConns_def)
    then show ?thesis using d c True by (simp add: shift_next [OF assms(1)] c_def maxConns_def)
  next
    case False
    have "distance (c + 1) f = nat (if c < f then f - (c + 1) else f - (c + 1) + maxConns)"
    proof (cases "c < f")
      case False
      have "(f - (c + 1)) mod maxConns = (f - (c + 1) + maxConns) mod maxConns" by simp
      also have "\<dots> = f - (c + 1) + maxConns"
        using False c \<open>c \<noteq> connMaximalID\<close> by (intro mod_pos_pos_trivial) (simp_all add: maxConns_def)
      finally show ?thesis using False by (simp add: distance_def)
    qed (use c in \<open>simp add: distance_def maxConns_def\<close>)
    then show ?thesis using d c False by (simp add: shift_next [OF assms(1)] c_def maxConns_def)
  qed
qed

lemma register_loop_step:
  "register_loop r c m =
     (if pmaps m r (fst (shift (Instance.id m))) \<noteq> None
      then register_loop r c (m\<lparr>Instance.id := snd (shift (Instance.id m))\<rparr>)
      else Some (fst (shift (Instance.id m)),
                 m\<lparr>Instance.id := snd (shift (Instance.id m)),
                   pmaps := (pmaps m)(r := (pmaps m r)(fst (shift (Instance.id m)) \<mapsto> c))\<rparr>))"
  by (subst register_loop.simps) (simp add: split_beta Let_def)

lemma register_loop_returns:
  assumes "ids_ok (Instance.id m)" and "f \<in> all_ids" and "pmaps m r f = None"
  obtains i ids where "register_loop r c m = Some (i, m\<lparr>Instance.id := ids, pmaps := (pmaps m)(r := (pmaps m r)(i \<mapsto> c))\<rparr>)"
    "i \<in> all_ids" "pmaps m r i = None" "ids_ok ids"
  using assms
proof (induction "distance (current (Instance.id m)) f" arbitrary: m thesis rule: less_induct)
  case less
  let ?i = "current (Instance.id m)" and ?m = "m\<lparr>Instance.id := snd (shift (Instance.id m))\<rparr>"
  have i: "fst (shift (Instance.id m)) = ?i" "?i \<in> all_ids" "ids_ok (snd (shift (Instance.id m)))"
    using less.prems(2) shift_ok by (simp_all add: shift_next ids_ok_def all_ids_def)
  show ?case
  proof (cases "pmaps m r ?i")
    case None
    then show ?thesis
      using less.prems(1) [of ?i "snd (shift (Instance.id m))"] i by (simp add: register_loop_step [of r c m])
  next
    case (Some c')
    then have "?i \<noteq> f" using less.prems(4) by auto
    then have d: "distance (current (Instance.id ?m)) f < distance (current (Instance.id m)) f"
      using distance_next [OF less.prems(2,3)] by simp
    obtain i' ids where
      "register_loop r c ?m = Some (i', ?m\<lparr>Instance.id := ids, pmaps := (pmaps ?m)(r := (pmaps ?m r)(i' \<mapsto> c))\<rparr>)"
      "i' \<in> all_ids" "pmaps ?m r i' = None" "ids_ok ids"
      by (rule less.hyps [OF d]) (use i less.prems in simp_all)
    then show ?thesis using less.prems(1) Some i by (simp add: register_loop_step [of r c m])
  qed
qed

lemma register_loop_busy:
  assumes "ids_ok (Instance.id m)" and "\<forall>i \<in> all_ids. pmaps m r i \<noteq> None"
  shows "register_loop r c m = None"
proof (rule ccontr)
  let ?P = "\<lambda>r c m y. ids_ok (Instance.id m) \<longrightarrow> (\<exists>i \<in> all_ids. pmaps m r i = None)"
  assume "register_loop r c m \<noteq> None"
  then obtain y where "register_loop r c m = Some y" by auto
  then have "?P r c m y"
  proof (induction rule: register_loop.raw_induct [of ?P, rotated, consumes 1])
    case (1 f r c m y)
    show ?case
    proof
      assume ok: "ids_ok (Instance.id m)"
      then have i: "shift (Instance.id m) = (current (Instance.id m), snd (shift (Instance.id m)))"
        "current (Instance.id m) \<in> all_ids" by (simp_all add: shift_next ids_ok_def all_ids_def)
      show "\<exists>i \<in> all_ids. pmaps m r i = None"
      proof (cases "pmaps m r (current (Instance.id m))")
        case (Some c')
        have "f r c (m\<lparr>Instance.id := snd (shift (Instance.id m))\<rparr>) = Some y"
          using 1(2) Some by (subst (asm) i(1)) (simp add: Let_def)
        from 1(1) [OF this] show ?thesis using shift_ok [OF ok] by simp
      qed (use i(2) in blast)
    qed
  qed
  then show False using assms by blast
qed

section \<open>Runs\<close>

datatype 'c conn_op = MRegister 'c | MUnregister int | MCloseAll "int list"

text \<open>One call: the connections it closes, and the next state.\<close>

fun conn_step :: "'c conn_op \<Rightarrow> 'c Instance \<Rightarrow> ('c list \<times> 'c Instance) option" where
  "conn_step (MRegister c) m = map_option (\<lambda>(i, m). ([], m)) (Register c m)"
| "conn_step (MUnregister i) m = Some ([], snd (Unregister i m))"
| "conn_step (MCloseAll order) m = Some (CloseAll order m)"

fun conn_run :: "'c conn_op list \<Rightarrow> 'c Instance \<Rightarrow> ('c list \<times> 'c Instance) option" where
  "conn_run [] m = Some ([], m)"
| "conn_run (op # ops) m =
     (case conn_step op m of
        None \<Rightarrow> None
      | Some (closed, m) \<Rightarrow> map_option (apfst (append closed)) (conn_run ops m))"

definition mgr_ok :: "'c Instance \<Rightarrow> bool" where
  "mgr_ok m \<longleftrightarrow> ids_ok (Instance.id m) \<and> pmap m < next_map m"

lemma NewConnMgr_ok: "mgr_ok NewConnMgr"
  by (simp add: mgr_ok_def NewConnMgr_def newId_def ids_ok_def connMinimalID_def connMaximalID_def)

text \<open>What a \<open>Register\<close> that returns does, also on a map that is not the current one.\<close>

lemma register_loop_result:
  assumes "ids_ok (Instance.id m)" and "register_loop r c m = Some (i, m')"
  shows "i \<in> all_ids \<and> pmaps m r i = None \<and> ids_ok (Instance.id m')
    \<and> m' = m\<lparr>Instance.id := Instance.id m', pmaps := (pmaps m)(r := (pmaps m r)(i \<mapsto> c))\<rparr>"
proof -
  obtain f where "f \<in> all_ids" "pmaps m r f = None"
    using register_loop_busy [OF assms(1)] assms(2) by (metis option.distinct(1))
  from register_loop_returns [OF assms(1) this, of c] show ?thesis using assms(2) by fastforce
qed

lemma conn_step_ok: "mgr_ok m \<Longrightarrow> conn_step op m = Some (closed, m') \<Longrightarrow> mgr_ok m'"
proof (cases op)
  case (MRegister c)
  assume ok: "mgr_ok m" and st: "conn_step op m = Some (closed, m')"
  then obtain i where r: "register_loop (pmap m) c m = Some (i, m')" using MRegister by (auto simp: Register_def)
  have "ids_ok (Instance.id m)" using ok by (simp add: mgr_ok_def)
  from register_loop_result [OF this r] obtain ids where "ids_ok ids" "Instance.id m' = ids" "pmap m' = pmap m" "next_map m' = next_map m"
    by (metis Instance.select_convs(2,3) Instance.surjective Instance.update_convs(1,4))
  then show "mgr_ok m'" using ok by (simp add: mgr_ok_def)
qed (auto simp: mgr_ok_def Unregister_def CloseAll_def Let_def)

lemma conn_run_ok: "mgr_ok m \<Longrightarrow> conn_run ops m = Some (closed, m') \<Longrightarrow> mgr_ok m'"
  by (induction ops arbitrary: m closed) (auto split: option.splits dest: conn_step_ok)

text \<open>C20: \<open>Register\<close> hands out a number between 1024 and 2147483647 that no registered connection has, and
  changes no other number; it returns whenever one is free, and never when all of them are taken
  (\<open>ErrOutOfResources\<close> is never reported).\<close>

theorem Register_fresh_unless_full:
  assumes "conn_run ops NewConnMgr = Some (closed, m)"
  shows "if \<forall>i \<in> {1024..2147483647}. is_ok (Lookup m i) then Register c m = None
    else \<exists>i m'. Register c m = Some (i, m') \<and> i \<in> {1024..2147483647} \<and> Lookup m i = Err ErrNotExist
      \<and> Lookup m' i = Ok c \<and> (\<forall>j. j \<noteq> i \<longrightarrow> Lookup m' j = Lookup m j)"
proof -
  have ok: "ids_ok (Instance.id m)" using conn_run_ok [OF NewConnMgr_ok assms] by (simp add: mgr_ok_def)
  have range: "all_ids = {1024..2147483647}" by (simp add: all_ids_def connMinimalID_def connMaximalID_def)
  have busy: "is_ok (Lookup m i) \<longleftrightarrow> pmaps m (pmap m) i \<noteq> None" for i
    by (auto simp: Lookup_def split: option.split)
  show ?thesis
  proof (cases "\<forall>i \<in> {1024..2147483647}. is_ok (Lookup m i)")
    case True
    then show ?thesis using register_loop_busy [OF ok] by (simp add: busy Register_def range)
  next
    case False
    then obtain f where "f \<in> all_ids" "pmaps m (pmap m) f = None" by (auto simp: busy range)
    from register_loop_returns [OF ok this] obtain i ids where
      r: "register_loop (pmap m) c m = Some (i, m\<lparr>Instance.id := ids, pmaps := (pmaps m)(pmap m := (pmaps m (pmap m))(i \<mapsto> c))\<rparr>)"
        "i \<in> all_ids" "pmaps m (pmap m) i = None" by blast
    have "\<exists>i m'. Register c m = Some (i, m') \<and> i \<in> all_ids \<and> Lookup m i = Err ErrNotExist
      \<and> Lookup m' i = Ok c \<and> (\<forall>j. j \<noteq> i \<longrightarrow> Lookup m' j = Lookup m j)"
      unfolding Register_def r(1)
      by (rule exI [of _ i], rule exI, intro conjI, rule refl) (use r in \<open>simp_all add: Lookup_def\<close>)
    then show ?thesis unfolding if_not_P [OF False] range .
  qed
qed

theorem Register_fresh_unless_full_witness:
  "\<exists>m. conn_run [MRegister True, MUnregister 1024] NewConnMgr = Some ([], m) \<and> (\<exists>i m'. Register False m = Some (i, m') \<and> Lookup m' i = Ok False)"
proof -
  have r: "register_loop 0 True NewConnMgr = Some (1024, NewConnMgr\<lparr>Instance.id := \<lparr>current = 1025, id_min = 1024, id_max = 2147483647\<rparr>,
      pmaps := (\<lambda>_. Map.empty)(0 := [1024 \<mapsto> True])\<rparr>)"
    by (subst register_loop_step)
      (simp add: NewConnMgr_def shift_def newId_def connMinimalID_def connMaximalID_def int64_def)
  let ?m = "snd (Unregister 1024 (NewConnMgr\<lparr>Instance.id := \<lparr>current = 1025, id_min = 1024, id_max = 2147483647\<rparr>,
      pmaps := (\<lambda>_. Map.empty)(0 := [1024 \<mapsto> True])\<rparr>))"
  have "pmap (NewConnMgr :: bool Instance) = 0" by (simp add: NewConnMgr_def)
  then have run: "conn_run [MRegister True, MUnregister 1024] NewConnMgr = Some ([], ?m)" using r by (simp add: Register_def)
  have "Lookup ?m 1024 = Err ErrNotExist" by (simp add: Lookup_def Unregister_def NewConnMgr_def)
  then have "\<not> is_ok (Lookup ?m 1024)" by simp
  then have "\<not> (\<forall>i \<in> {1024..2147483647}. is_ok (Lookup ?m i))" by force
  then show ?thesis using Register_fresh_unless_full [OF run, of False] run by (auto split: if_splits)
qed

text \<open>A connection stays out of a map that it is not registered in.\<close>

definition forgotten :: "'c \<Rightarrow> 'c Instance \<Rightarrow> bool" where
  "forgotten c m \<longleftrightarrow> mgr_ok m \<and> c \<notin> ran (pmaps m (pmap m))"

lemma conn_step_forgotten:
  assumes "forgotten c m" and "conn_step op m = Some (closed, m')" and "op \<noteq> MRegister c"
  shows "forgotten c m' \<and> c \<notin> set closed"
proof -
  have ok: "mgr_ok m'" using assms conn_step_ok by (auto simp: forgotten_def)
  show ?thesis
  proof (cases op)
    case (MRegister c')
    then obtain i where r: "register_loop (pmap m) c' m = Some (i, m')" and [simp]: "closed = []"
      using assms(2) by (auto simp: Register_def)
    have "ids_ok (Instance.id m)" using assms(1) by (simp add: forgotten_def mgr_ok_def)
    from register_loop_result [OF this r] have "pmap m' = pmap m" "pmaps m' (pmap m) = (pmaps m (pmap m))(i \<mapsto> c')"
      by (metis Instance.select_convs(1,2) Instance.surjective Instance.update_convs(1,4) fun_upd_same)+
    then show ?thesis using ok assms MRegister by (auto simp: forgotten_def ran_def)
  next
    case (MUnregister i)
    then show ?thesis using ok assms by (auto simp: forgotten_def Unregister_def ran_def Let_def split: if_splits)
  next
    case (MCloseAll order)
    have "c \<notin> set (List.map_filter (pmaps m (pmap m)) order)"
      using assms(1) by (auto simp: forgotten_def set_map_filter ran_def)
    then show ?thesis using ok assms MCloseAll by (auto simp: forgotten_def CloseAll_def mgr_ok_def)
  qed
qed

lemma conn_run_forgotten:
  "forgotten c m \<Longrightarrow> conn_run ops m = Some (closed, m') \<Longrightarrow> MRegister c \<notin> set ops \<Longrightarrow> forgotten c m' \<and> c \<notin> set closed"
proof (induction ops arbitrary: m closed)
  case (Cons op ops)
  obtain closed1 m1 closed2 where "conn_step op m = Some (closed1, m1)" "conn_run ops m1 = Some (closed2, m')" "closed = closed1 @ closed2"
    using Cons.prems(2) by (auto split: option.splits)
  then show ?case using conn_step_forgotten [OF Cons.prems(1)] Cons.IH [of m1] Cons.prems(3) by auto
qed simp

text \<open>a connection whose \<open>Register\<close> has loaded the map before a \<open>CloseAll\<close> and stores it afterwards gets a
  number like any other, but no \<open>Lookup\<close> ever finds it and no later \<open>CloseAll\<close> closes it.\<close>

theorem racing_Register_lost:
  assumes "conn_run ops NewConnMgr = Some (cl, m)" and "CloseAll order m = (cl1, m1)"
    and "register_loop (pmap m) c m1 = Some (i, m2)"
    and "conn_run ops2 m2 = Some (cl2, m3)" and "MRegister c \<notin> set ops2"
  shows "c \<notin> set cl2 \<and> Lookup m3 j \<noteq> Ok c"
proof -
  have ok: "mgr_ok m" by (rule conn_run_ok [OF NewConnMgr_ok assms(1)])
  have m1: "mgr_ok m1" "pmap m1 = next_map m" "pmaps m1 (next_map m) = Map.empty"
    using ok assms(2) by (auto simp: CloseAll_def mgr_ok_def Let_def)
  have "ids_ok (Instance.id m1)" using m1 by (simp add: mgr_ok_def)
  from register_loop_result [OF this assms(3)] have m2: "pmap m2 = pmap m1" "next_map m2 = next_map m1" "ids_ok (Instance.id m2)"
    "pmaps m2 = (pmaps m1)(pmap m := (pmaps m1 (pmap m))(i \<mapsto> c))"
    by (metis Instance.select_convs(1-3) Instance.surjective Instance.update_convs(1,4))+
  have "pmap m \<noteq> next_map m" using ok by (simp add: mgr_ok_def)
  then have "forgotten c m2" using m1 m2 by (simp add: forgotten_def mgr_ok_def)
  from conn_run_forgotten [OF this assms(4,5)] have "forgotten c m3" "c \<notin> set cl2" by auto
  then show ?thesis by (auto simp: forgotten_def Lookup_def ran_def split: option.split)
qed

theorem racing_Register_lost_witness:
  "\<exists>i m2. register_loop 0 True (snd (CloseAll [] NewConnMgr)) = Some (i, m2) \<and> Lookup m2 i \<noteq> Ok True"
proof -
  let ?m1 = "snd (CloseAll [] (NewConnMgr :: bool Instance))"
  let ?m2 = "?m1\<lparr>Instance.id := \<lparr>current = 1025, id_min = 1024, id_max = 2147483647\<rparr>, pmaps := (\<lambda>_. Map.empty)(0 := [1024 \<mapsto> True])\<rparr>"
  have r: "register_loop 0 True ?m1 = Some (1024, ?m2)"
    by (subst register_loop_step)
      (simp add: CloseAll_def NewConnMgr_def shift_def newId_def connMinimalID_def connMaximalID_def int64_def fun_eq_iff)
  have "pmap (NewConnMgr :: bool Instance) = 0" by (simp add: NewConnMgr_def)
  with r have "register_loop (pmap (NewConnMgr :: bool Instance)) True ?m1 = Some (1024, ?m2)" by simp
  from racing_Register_lost [OF _ _ this, of "[]" "[]" "[]" "fst (CloseAll [] NewConnMgr)" "[]" "[]" ?m2 1024]
  have "Lookup ?m2 1024 \<noteq> Ok True" by simp
  with r show ?thesis by blast
qed

end
