(* ===== verification/Go_Time.thy ===== *)
theory Go_Time
  imports Go_Prelude
begin

text \<open>
  Times and durations of Go's \<open>time\<close> package: a \<open>time.Time\<close> is the number of nanoseconds since the zero
  time, a \<open>time.Duration\<close> a 64-bit number of nanoseconds, and \<open>Time.Sub\<close> saturates.
\<close>

definition max_duration :: int where "max_duration = 2 ^ 63 - 1"
definition min_duration :: int where "min_duration = - (2 ^ 63)"

definition time_sub :: "int \<Rightarrow> int \<Rightarrow> int" where
  "time_sub t u = max min_duration (min max_duration (t - u))"

definition Microsecond :: int where "Microsecond = 1000"
definition Millisecond :: int where "Millisecond = 1000000"
definition Second :: int where "Second = 1000000000"

text \<open>Comparing a saturated difference with a duration.\<close>

lemma time_sub_less: "is_int64 d \<Longrightarrow> time_sub t u < d \<Longrightarrow> t - u < d"
  by (auto simp: time_sub_def max_duration_def min_duration_def is_int64_def)

lemma less_time_sub: "is_int64 d \<Longrightarrow> d < time_sub t u \<Longrightarrow> d < t - u"
  by (auto simp: time_sub_def max_duration_def min_duration_def is_int64_def split: if_splits)

lemma time_sub_exact: "is_int64 (t - u) \<Longrightarrow> time_sub t u = t - u"
  by (auto simp: time_sub_def max_duration_def min_duration_def is_int64_def)

end
