(* ===== verification/Shaper.thy ===== *)
theory Shaper
  imports Go_Time
begin

text \<open>
  The rate shaper (\<open>src/shaper\<close>).  The clock reading of a call
  and the answer of its \<open>select\<close> between the context and the timer are arguments.
\<close>

section \<open>The time bucket\<close>

record TimeBucket =
  depth :: int
  burst :: int
  kiBps :: int

definition NewTimeBucket :: "int \<Rightarrow> int \<Rightarrow> (unit, TimeBucket) outcome" where
  "NewTimeBucket speedKiBps burstKiB =
     (if speedKiBps \<le> 0 \<or> burstKiB \<le> 0 then Crash ''speedKiBps and burstBytes must be positive''
      else Ok \<lparr>depth = 0,
               burst = int64 (Millisecond * go_div (int64 (burstKiB * 2 ^ 10)) speedKiBps),
               kiBps = speedKiBps\<rparr>)"

text \<open>The part of \<open>Shape\<close> that changes the bucket: the new bucket, and the time to wait if there is one.\<close>

definition reserve :: "TimeBucket \<Rightarrow> int \<Rightarrow> int \<Rightarrow> int option \<times> TimeBucket" where
  "reserve s len now =
     (let s = (if time_sub now (depth s) > burst s then s\<lparr>depth := now - burst s\<rparr> else s);
          need = int64 (Microsecond * go_div (int64 (len * 2 ^ 10)) (kiBps s));
          s = s\<lparr>depth := depth s + need\<rparr> in
      (if now > depth s then None else Some (time_sub (depth s) now), s))"

text \<open>The nil bucket lets everything pass; \<open>finished\<close> says that the context ends before the timer.\<close>

definition Shape :: "TimeBucket option \<Rightarrow> int \<Rightarrow> int \<Rightarrow> bool \<Rightarrow> bool \<times> TimeBucket option" where
  "Shape s len now finished =
     (case s of
        None \<Rightarrow> (True, None)
      | Some s \<Rightarrow>
          (case reserve s len now of
             (None, s) \<Rightarrow> (True, Some s)
           | (Some await, s) \<Rightarrow> (\<not> finished, Some s)))"

definition NoShape :: "int \<Rightarrow> bool" where
  "NoShape len = True"

section \<open>The rate\<close>

text \<open>The time that a length costs, and the time at which a call lets its data go: at once, or after the
  wait.\<close>

definition cost :: "int \<Rightarrow> int \<Rightarrow> int" where
  "cost speed len = 1000 * (len * 1024 div speed)"

definition release :: "int \<Rightarrow> int option \<Rightarrow> int" where
  "release now await = (case await of None \<Rightarrow> now | Some d \<Rightarrow> now + d)"

fun shape_run :: "TimeBucket \<Rightarrow> (int \<times> int) list \<Rightarrow> int list \<times> TimeBucket" where
  "shape_run s [] = ([], s)"
| "shape_run s ((now, len) # calls) =
     (let (await, s) = reserve s len now; (rs, s) = shape_run s calls in (release now await # rs, s))"

text \<open>The clock does not go backwards, lengths are not negative and the whole traffic costs less than
  \<open>2 ^ 62\<close> nanoseconds, some 146 years.\<close>

fun calls_ok :: "int \<Rightarrow> (int \<times> int) list \<Rightarrow> bool" where
  "calls_ok t [] \<longleftrightarrow> True"
| "calls_ok t ((now, len) # calls) \<longleftrightarrow> t \<le> now \<and> 0 \<le> len \<and> calls_ok now calls"

definition total :: "(int \<times> int) list \<Rightarrow> int" where
  "total calls = (\<Sum>(now, len) \<leftarrow> calls. len)"

lemma total_simps [simp]: "total [] = 0" "total ((now, len) # calls) = len + total calls"
  by (simp_all add: total_def)

lemma total_nonneg: "calls_ok t calls \<Longrightarrow> 0 \<le> total calls"
  by (induction t calls rule: calls_ok.induct) auto

lemma total_append [simp]: "total (xs @ ys) = total xs + total ys"
  by (simp add: total_def)

definition bucket_ok :: "TimeBucket \<Rightarrow> bool" where
  "bucket_ok s \<longleftrightarrow> 0 < kiBps s \<and> 0 \<le> burst s \<and> burst s < 2 ^ 62"

lemma cost_bounds: "0 < speed \<Longrightarrow> 0 \<le> len \<Longrightarrow> 0 \<le> cost speed len \<and> cost speed len \<le> 1024000 * len"
proof -
  assume speed: "0 < speed" "0 \<le> len"
  then have "len * 1024 div speed \<le> len * 1024 div 1" by (intro zdiv_mono2) auto
  then show ?thesis using speed by (simp add: cost_def pos_imp_zdiv_nonneg_iff)
qed

lemma reserve_cases:
  assumes "bucket_ok s" and "0 \<le> len" and "1024000 * len < 2 ^ 62" and "depth s - now < 2 ^ 62"
  defines "d \<equiv> max (depth s) (now - burst s) + cost (kiBps s) len"
  shows "reserve s len now = (if now > d then None else Some (min max_duration (d - now)), s\<lparr>depth := d\<rparr>)"
proof -
  have l: "int64 (len * 2 ^ 10) = len * 1024" using assms(2,3) by (simp add: is_int64_def)
  have c: "go_div (len * 1024) (kiBps s) = len * 1024 div kiBps s"
    using assms(1,2) by (intro go_div_nonneg) (simp_all add: bucket_ok_def)
  have "cost (kiBps s) len < 2 ^ 62" "0 \<le> cost (kiBps s) len"
    using cost_bounds [of "kiBps s" len] assms(1-3) by (auto simp: bucket_ok_def)
  then have n: "int64 (Microsecond * go_div (int64 (len * 2 ^ 10)) (kiBps s)) = cost (kiBps s) len"
    unfolding l c Microsecond_def cost_def [symmetric] by (intro int64_id) (simp add: is_int64_def)
  have sub: "time_sub now (depth s) > burst s \<longleftrightarrow> now - burst s > depth s"
    using assms(1,4) by (auto simp: time_sub_def max_duration_def min_duration_def bucket_ok_def)
  have "d - now \<ge> 0 \<Longrightarrow> time_sub d now = min max_duration (d - now)"
    by (simp add: time_sub_def min_duration_def max_duration_def)
  then show ?thesis
    unfolding reserve_def Let_def sub using n by (auto simp: d_def max_def)
qed

text \<open>One call, in a bucket that is at most \<open>C\<close> nanoseconds ahead of the clock.\<close>

lemma reserve_release:
  assumes "bucket_ok s" and "0 \<le> len" and "depth s \<le> t + C" and "t \<le> now" and "0 \<le> C" and "C + 1024000 * len < 2 ^ 62"
  obtains await d where "reserve s len now = (await, s\<lparr>depth := d\<rparr>)" "release now await = max now d"
    "d = max (depth s) (now - burst s) + cost (kiBps s) len" "d \<le> now + (C + 1024000 * len)" "bucket_ok (s\<lparr>depth := d\<rparr>)"
proof -
  let ?d = "max (depth s) (now - burst s) + cost (kiBps s) len"
  have c: "0 \<le> cost (kiBps s) len" "cost (kiBps s) len \<le> 1024000 * len"
    using cost_bounds [of "kiBps s" len] assms(1,2) by (auto simp: bucket_ok_def)
  have d: "?d \<le> now + (C + 1024000 * len)" using assms(1,3-5) c by (simp add: bucket_ok_def max_def)
  have r: "reserve s len now = (if now > ?d then None else Some (min max_duration (?d - now)), s\<lparr>depth := ?d\<rparr>)"
    by (rule reserve_cases) (use assms in simp_all)
  have "?d - now < max_duration" using d assms(6) by (simp add: max_duration_def)
  then have "release now (if now > ?d then None else Some (min max_duration (?d - now))) = max now ?d"
    by (simp add: release_def max_def min_def)
  then show thesis using that [OF r] d assms(1) by (simp add: bucket_ok_def)
qed

fun last_time :: "int \<Rightarrow> (int \<times> int) list \<Rightarrow> int" where
  "last_time t [] = t"
| "last_time t ((now, len) # calls) = last_time now calls"

definition costs :: "int \<Rightarrow> (int \<times> int) list \<Rightarrow> int" where
  "costs speed calls = (\<Sum>(now, len) \<leftarrow> calls. cost speed len)"

lemma costs_simps [simp]: "costs speed [] = 0" "costs speed ((now, len) # calls) = cost speed len + costs speed calls"
  by (simp_all add: costs_def)

definition reserved :: "TimeBucket \<Rightarrow> TimeBucket \<Rightarrow> bool" where
  "reserved s s' \<longleftrightarrow> bucket_ok s' \<and> burst s' = burst s \<and> kiBps s' = kiBps s"

lemma shape_run_window:
  assumes "bucket_ok s" and "depth s \<le> t + C" and "0 \<le> C" and "calls_ok t calls" and "C + 1024000 * total calls < 2 ^ 62"
    and "shape_run s calls = (rs, s')"
  shows "length rs = length calls \<and> reserved s s' \<and> depth s' \<le> last_time t calls + (C + 1024000 * total calls)
    \<and> depth s + costs (kiBps s) calls \<le> depth s' \<and> (calls \<noteq> [] \<longrightarrow> depth s' \<le> last rs)
    \<and> sorted rs \<and> (\<forall>r \<in> set rs. max t (depth s) \<le> r)"
  using assms
proof (induction calls arbitrary: s t C rs)
  case (Cons p calls)
  obtain now len where p: "p = (now, len)" by (cases p)
  have ok: "t \<le> now" "0 \<le> len" "calls_ok now calls" and tot: "0 \<le> total calls"
    using Cons.prems(4) p total_nonneg by auto
  obtain await d where r: "reserve s len now = (await, s\<lparr>depth := d\<rparr>)" "release now await = max now d"
    "d = max (depth s) (now - burst s) + cost (kiBps s) len" "d \<le> now + (C + 1024000 * len)" "bucket_ok (s\<lparr>depth := d\<rparr>)"
    by (rule reserve_release [of s len t C now]) (use Cons.prems ok tot p in auto)
  obtain rs1 where rs: "shape_run (s\<lparr>depth := d\<rparr>) calls = (rs1, s')" "rs = max now d # rs1"
    using Cons.prems(6) r(1,2) p by (auto split: prod.splits)
  have d: "depth s \<le> d" using r(3) cost_bounds [of "kiBps s" len] Cons.prems(1) ok(2) by (simp add: bucket_ok_def max_def)
  have "C + 1024000 * len + 1024000 * total calls < 2 ^ 62" using Cons.prems(5) p by simp
  then have "length rs1 = length calls \<and> reserved (s\<lparr>depth := d\<rparr>) s' \<and> depth s' \<le> last_time now calls + (C + 1024000 * len + 1024000 * total calls)
    \<and> d + costs (kiBps s) calls \<le> depth s' \<and> (calls \<noteq> [] \<longrightarrow> depth s' \<le> last rs1)
    \<and> sorted rs1 \<and> (\<forall>r \<in> set rs1. max now d \<le> r)"
    using Cons.IH [OF r(5) _ _ ok(3) _ rs(1), of "C + 1024000 * len"] r(4) ok(2) Cons.prems(3) by simp
  moreover have "calls = [] \<Longrightarrow> depth s' = d" using rs(1) by auto
  moreover have "depth s + cost (kiBps s) len \<le> d" using r(3) by simp
  moreover have "max t (depth s) \<le> max now d" using ok(1) d by (rule max.mono)
  ultimately show ?case
    using rs(2) p by (auto simp: reserved_def)
qed (simp add: reserved_def)

lemma shape_run_append:
  "shape_run s (xs @ ys) = (let (rs, s') = shape_run s xs; (rs', s'') = shape_run s' ys in (rs @ rs', s''))"
  by (induction s xs rule: shape_run.induct) (auto split: prod.splits)

lemma calls_ok_append: "calls_ok t (xs @ ys) \<longleftrightarrow> calls_ok t xs \<and> calls_ok (last_time t xs) ys"
  by (induction t xs rule: calls_ok.induct) auto

lemma NewTimeBucket_ok:
  assumes "NewTimeBucket speed burstKiB = Ok s" and "1024000000 * burstKiB < 2 ^ 62"
  shows "bucket_ok s \<and> kiBps s = speed \<and> depth s = 0"
proof -
  have pos: "0 < speed" "0 < burstKiB" using assms(1) by (auto simp: NewTimeBucket_def split: if_splits)
  have "int64 (burstKiB * 2 ^ 10) = burstKiB * 1024" using pos assms(2) by (simp add: is_int64_def)
  then have g: "go_div (int64 (burstKiB * 1024)) speed = burstKiB * 1024 div speed"
    using pos by (simp add: go_div_nonneg)
  have "burstKiB * 1024 div speed \<le> burstKiB * 1024 div 1" using pos by (intro zdiv_mono2) auto
  moreover have "0 \<le> burstKiB * 1024 div speed" using pos by (simp add: pos_imp_zdiv_nonneg_iff)
  ultimately have "0 \<le> Millisecond * (burstKiB * 1024 div speed)" "Millisecond * (burstKiB * 1024 div speed) < 2 ^ 62"
    using assms(2) by (simp_all add: Millisecond_def)
  moreover from this have "int64 (Millisecond * (burstKiB * 1024 div speed)) = Millisecond * (burstKiB * 1024 div speed)"
    by (intro int64_id) (simp add: is_int64_def)
  ultimately show ?thesis using assms(1) pos by (auto simp: NewTimeBucket_def bucket_ok_def g split: if_splits)
qed

text \<open>C21: the shaper keeps the rate: in any sequence of calls on a new bucket, the time that the calls of any
  stretch of it cost is at most the burst plus the time from the first call of the stretch to the
  moment its last call lets its data go; and data goes in the order of the calls.\<close>

theorem shaper_rate_bound:
  assumes "NewTimeBucket speed burstKiB = Ok s" and "1024000000 * burstKiB < 2 ^ 62"
    and "calls_ok 0 calls" and "1024000 * total calls < 2 ^ 62"
    and "calls = pre @ (now, len) # mid @ post" and "shape_run s calls = (rs, s')"
  shows "costs speed ((now, len) # mid) \<le> burst s + (rs ! (length pre + length mid) - now) \<and> sorted rs"
proof -
  note s = NewTimeBucket_ok [OF assms(1,2)]
  let ?w = "(now, len) # mid"
  obtain rs1 s1 where r1: "shape_run s pre = (rs1, s1)" by fastforce
  obtain rs2 s2 where r2: "shape_run s1 ?w = (rs2, s2)" by fastforce
  obtain rs3 where rs: "rs = rs1 @ rs2 @ rs3"
    using assms(5,6) r1 r2 shape_run_append [of s pre "?w @ post"] shape_run_append [of s1 ?w post]
    by (auto simp: split_beta simp del: shape_run.simps)
  have ok: "calls_ok 0 pre" "calls_ok (last_time 0 pre) ?w" "calls_ok (last_time 0 (pre @ ?w)) post"
    using assms(3,5) calls_ok_append [of 0 pre "?w @ post"] calls_ok_append [of "last_time 0 pre" ?w post]
      calls_ok_append [of 0 "pre @ ?w" post] by (auto simp del: calls_ok.simps)
  have tot: "0 \<le> total post" "0 \<le> total mid" "0 \<le> len" "total calls = total pre + len + total mid + total post" "0 \<le> total pre"
    using total_nonneg [OF ok(3)] total_nonneg [of now mid] total_nonneg [OF ok(1)] ok(2) assms(5) by auto
  have sorted: "sorted rs"
    using shape_run_window [of s 0 0 calls rs s'] s assms(3,4,6) by simp
  have w1: "length rs1 = length pre" "reserved s s1" "depth s1 \<le> last_time 0 pre + 1024000 * total pre"
    using shape_run_window [OF _ _ _ ok(1) _ r1, of 0] s tot assms(4) by auto
  obtain await d where r: "reserve s1 len now = (await, s1\<lparr>depth := d\<rparr>)" "release now await = max now d"
    "d = max (depth s1) (now - burst s1) + cost (kiBps s1) len" "d \<le> now + (1024000 * total pre + 1024000 * len)"
    "bucket_ok (s1\<lparr>depth := d\<rparr>)"
    by (rule reserve_release [of s1 len "last_time 0 pre" "1024000 * total pre" now])
      (use w1 ok(2) tot assms(4) in \<open>auto simp: reserved_def\<close>)
  obtain rs4 where rs4: "shape_run (s1\<lparr>depth := d\<rparr>) mid = (rs4, s2)" "rs2 = max now d # rs4"
    using r2 r(1,2) by (auto split: prod.splits)
  have "length rs4 = length mid \<and> d + costs (kiBps s1) mid \<le> depth s2 \<and> (mid \<noteq> [] \<longrightarrow> depth s2 \<le> last rs4)"
    using shape_run_window [OF r(5) _ _ _ _ rs4(1), of now "1024000 * total pre + 1024000 * len"] r(4) ok(2) tot assms(4) by simp
  moreover from this have "rs2 \<noteq> []" "length rs2 = Suc (length mid)" using rs4(2) by simp_all
  then have "rs ! (length pre + length mid) = last rs2"
    unfolding rs by (simp add: w1(1) [symmetric] nth_append last_conv_nth)
  moreover have "mid = [] \<Longrightarrow> depth s2 = d" using rs4(1) by auto
  ultimately have "now - burst s1 + cost (kiBps s1) len + costs (kiBps s1) mid \<le> rs ! (length pre + length mid)"
    using r(3) rs4(2) by (cases "mid = []") auto
  then show ?thesis using w1(2) s sorted by (simp add: reserved_def)
qed

theorem shaper_rate_bound_witness:
  "\<exists>s rs s'. NewTimeBucket 1 1 = Ok s \<and> shape_run s [(0, 1000), (5, 1000), (7, 1000)] = (rs, s')
    \<and> 2 * 1024000000 \<le> burst s + (rs ! 2 - 5)"
proof -
  let ?s = "\<lparr>depth = 0, burst = 1024000000, kiBps = 1\<rparr>"
  have s: "NewTimeBucket 1 1 = Ok ?s" by (simp add: NewTimeBucket_def int64_def go_div_def Millisecond_def)
  obtain rs s' where r: "shape_run ?s [(0, 1000), (5, 1000), (7, 1000)] = (rs, s')" by fastforce
  have "costs 1 [(5, 1000), (7, 1000)] \<le> burst ?s + (rs ! (length [(0::int, 1000::int)] + length [(7::int, 1000::int)]) - 5) \<and> sorted rs"
    by (rule shaper_rate_bound [OF s _ _ _ _ r, where post = "[]"]) simp_all
  moreover have "length [(0::int, 1000::int)] + length [(7::int, 1000::int)] = 2" by simp
  ultimately have "costs 1 [(5, 1000), (7, 1000)] \<le> burst ?s + (rs ! 2 - 5)" by metis
  then show ?thesis using s r by (simp add: cost_def)
qed

end
