(* ===== verification/Statutils.thy ===== *)
theory Statutils
  imports Go_Prelude "HOL-Library.Multiset"
begin

text \<open>
  The moving average (\<open>src/statutils/avg.go\<close>): a ring of at most \<open>size\<close> values.  The capacity of the
  slice, which \<open>append\<close> within the capacity keeps, is a field.
\<close>

record AvgValue =
  vals :: "int list"
  vals_cap :: nat
  ring_i :: int

definition NewAvgValue :: "int \<Rightarrow> AvgValue" where
  "NewAvgValue n = (let n = (if n \<le> 0 then 10 else n) in \<lparr>vals = [], vals_cap = nat n, ring_i = - 1\<rparr>)"

definition Avg :: "AvgValue \<Rightarrow> int" where
  "Avg s = (if vals s = [] then 0 else go_div (fold (\<lambda>val sum. int64 (sum + val)) (vals s) 0) (int (length (vals s))))"

definition Push :: "AvgValue \<Rightarrow> int \<Rightarrow> int \<times> AvgValue" where
  "Push s val =
     (let s = (if ring_i s + 1 = int (vals_cap s) then s\<lparr>ring_i := - 1\<rparr> else s);
          s = s\<lparr>ring_i := ring_i s + 1\<rparr>;
          s = (if ring_i s = int (length (vals s)) then s\<lparr>vals := vals s @ [val]\<rparr>
               else s\<lparr>vals := (vals s)[nat (ring_i s) := val]\<rparr>) in
      (Avg s, s))"

section \<open>The average of the last values\<close>

definition last_n :: "nat \<Rightarrow> 'a list \<Rightarrow> 'a list" where
  "last_n n xs = drop (length xs - n) xs"

definition mean :: "int list \<Rightarrow> int" where
  "mean xs = (if xs = [] then 0 else go_div (int64 (sum_list xs)) (int (length xs)))"

lemma fold_int64: "fold (\<lambda>val sum. int64 (sum + val)) xs (int64 a) = int64 (a + sum_list xs)"
  by (induction xs arbitrary: a) (simp_all add: add.assoc)

lemma Avg_mean: "Avg s = mean (vals s)"
  using fold_int64 [of "vals s" 0] by (simp add: Avg_def mean_def int64_def)

lemma mean_mset: "mset xs = mset ys \<Longrightarrow> mean xs = mean ys"
  unfolding mean_def by (metis mset_eq_length sum_mset_sum_list mset_zero_iff)

text \<open>The values are the last ones, rotated: the oldest one follows the newest one.\<close>

definition holds_last :: "AvgValue \<Rightarrow> int list \<Rightarrow> bool" where
  "holds_last s xs \<longleftrightarrow>
     0 < vals_cap s \<and> length (vals s) = min (vals_cap s) (length xs)
     \<and> (if length xs \<le> vals_cap s then vals s = xs \<and> ring_i s = int (length xs) - 1
        else 0 \<le> ring_i s \<and> ring_i s < int (vals_cap s)
          \<and> rotate (nat (ring_i s + 1)) (vals s) = last_n (vals_cap s) xs)"

lemma holds_last_ring:
  assumes "holds_last s xs" and "vals_cap s \<le> length xs"
  shows "0 \<le> ring_i s \<and> ring_i s < int (vals_cap s) \<and> rotate (nat (ring_i s + 1)) (vals s) = last_n (vals_cap s) xs"
  using assms by (cases "length xs = vals_cap s") (auto simp: holds_last_def last_n_def)

lemma last_n_snoc: "0 < n \<Longrightarrow> n \<le> length xs \<Longrightarrow> last_n n (xs @ [x]) = tl (last_n n xs) @ [x]"
  by (simp add: last_n_def tl_drop drop_Suc [symmetric] Suc_diff_le)

lemma rotate_update:
  assumes "j < length xs"
  shows "rotate (Suc j) (xs[j := v]) = tl (rotate j xs) @ [v]"
proof -
  have xs: "xs = take j xs @ xs ! j # drop (Suc j) xs" using assms by (rule id_take_nth_drop)
  have l: "length (take j xs) = j" using assms by simp
  have "rotate j xs = xs ! j # drop (Suc j) xs @ take j xs"
    by (subst xs) (use rotate_append [of "take j xs" "xs ! j # drop (Suc j) xs"] l in simp)
  moreover have "xs[j := v] = (take j xs @ [v]) @ drop (Suc j) xs" using assms by (simp add: upd_conv_take_nth_drop)
  then have "rotate (Suc j) (xs[j := v]) = drop (Suc j) xs @ take j xs @ [v]"
    using rotate_append [of "take j xs @ [v]" "drop (Suc j) xs"] l by simp
  ultimately show ?thesis by simp
qed

lemma Push_holds:
  assumes "holds_last s xs"
  shows "holds_last (snd (Push s x)) (xs @ [x]) \<and> vals_cap (snd (Push s x)) = vals_cap s"
proof (cases "length xs < vals_cap s")
  case True
  then have "vals s = xs" "ring_i s = int (length xs) - 1" "0 < vals_cap s" using assms by (simp_all add: holds_last_def)
  then show ?thesis using True by (auto simp: Push_def holds_last_def Let_def)
next
  case False
  then have r: "0 \<le> ring_i s" "ring_i s < int (vals_cap s)" "rotate (nat (ring_i s + 1)) (vals s) = last_n (vals_cap s) xs"
    and len: "length (vals s) = vals_cap s" "0 < vals_cap s"
    using holds_last_ring [OF assms] assms by (auto simp: holds_last_def)
  define j where "j = (if ring_i s + 1 = int (vals_cap s) then 0 else nat (ring_i s + 1))"
  have j: "j < length (vals s)" using r(2) len by (auto simp: j_def)
  have rot: "rotate j (vals s) = last_n (vals_cap s) xs"
    using r(3) len by (auto simp: j_def rotate_conv_mod [of "nat (ring_i s + 1)"])
  have "snd (Push s x) = s\<lparr>ring_i := int j, vals := (vals s)[j := x]\<rparr>"
    using r(1,2) len j by (auto simp: Push_def Let_def j_def)
  moreover have "rotate (Suc j) ((vals s)[j := x]) = last_n (vals_cap s) (xs @ [x])"
    using rotate_update [OF j] rot last_n_snoc [of "vals_cap s" xs x] False len by simp
  ultimately show ?thesis using False len j by (auto simp: holds_last_def nat_add_distrib)
qed

fun push_all :: "AvgValue \<Rightarrow> int list \<Rightarrow> int list \<times> AvgValue" where
  "push_all s [] = ([], s)"
| "push_all s (x # xs) = (let (a, s) = Push s x; (as, s) = push_all s xs in (a # as, s))"

lemma mset_rotate: "mset (rotate n xs) = mset xs"
  unfolding rotate_drop_take by (metis append_take_drop_id mset_append union_commute)

lemma holds_last_mean: "holds_last s xs \<Longrightarrow> Avg s = mean (last_n (vals_cap s) xs)"
proof (cases "length xs \<le> vals_cap s")
  case False
  assume h: "holds_last s xs"
  then have "mset (last_n (vals_cap s) xs) = mset (vals s)"
    using holds_last_ring [OF h] False by (metis mset_rotate nle_le)
  then show ?thesis unfolding Avg_mean by (rule mean_mset [symmetric])
qed (simp add: holds_last_def Avg_mean last_n_def)

text \<open>\<open>Push\<close> returns the average of the last \<open>size\<close> values (ten when the size is not positive).\<close>

lemma push_all_means:
  assumes "holds_last s ys" and "vals_cap s = n"
  shows "fst (push_all s xs) = map (\<lambda>k. mean (last_n n (ys @ take (Suc k) xs))) [0..<length xs]"
  using assms
proof (induction xs arbitrary: s ys)
  case (Cons x xs)
  note p = Push_holds [OF Cons.prems(1), of x]
  have "fst (Push s x) = Avg (snd (Push s x))" by (simp add: Push_def Let_def)
  then have a: "fst (Push s x) = mean (last_n n (ys @ [x]))" using holds_last_mean [of "snd (Push s x)"] p Cons.prems(2) by simp
  have "fst (push_all s (x # xs)) = mean (last_n n (ys @ [x])) # map (\<lambda>k. mean (last_n n ((ys @ [x]) @ take (Suc k) xs))) [0..<length xs]"
    using Cons.IH [of "snd (Push s x)" "ys @ [x]"] p Cons.prems(2) a by (simp add: split_beta)
  also have "\<dots> = map (\<lambda>k. mean (last_n n (ys @ take (Suc k) (x # xs)))) [0..<length (x # xs)]"
    by (simp add: upt_conv_Cons map_Suc_upt [symmetric] comp_def del: upt_Suc)
  finally show ?case .
qed simp

lemma NewAvgValue_holds: "holds_last (NewAvgValue n) []" "vals_cap (NewAvgValue n) = nat (if n \<le> 0 then 10 else n)"
  by (auto simp: NewAvgValue_def holds_last_def Let_def)

text \<open>C22: the ring is a moving average: each \<open>Push\<close> returns the average, rounded towards zero, of the last
  \<open>size\<close> values pushed, or of all of them while there are fewer; a size that is not positive means ten.\<close>

theorem Push_moving_average:
  "fst (push_all (NewAvgValue n) xs)
     = map (\<lambda>k. mean (last_n (nat (if n \<le> 0 then 10 else n)) (take (Suc k) xs))) [0..<length xs]"
  using push_all_means [OF NewAvgValue_holds(1), OF NewAvgValue_holds(2)] by simp

end
