(* ===== verification/Xlimits.thy ===== *)
theory Xlimits
  imports Xerror "HOL-Library.Multiset"
begin

text \<open>
  Limits per consumer (\<open>src/xlimits\<close>).  The semaphores of \<open>golang.org/x/sync\<close> and the expiring table of
  \<open>cache2go\<close> are arguments, records of functions.  Consumers are reached through pointers that callers
  keep, so they live in a heap; a caller of \<open>Acquire\<close> goes through \<open>take\<close>, then waits, and other callers
  move in between.
\<close>

section \<open>The blocker\<close>

text \<open>\<open>try_acquire\<close> takes one unit if there is one, and gives \<open>None\<close> while the caller has to wait.\<close>

record 's semaphores =
  NewWeighted :: "int \<Rightarrow> 's"
  try_acquire :: "'s \<Rightarrow> 's option"
  release :: "'s \<Rightarrow> 's"

record 's Blocker =
  maxConn :: int
  consumers :: "string \<Rightarrow> nat option"
  c_limit :: "nat \<Rightarrow> 's"
  c_usage :: "nat \<Rightarrow> int"
  c_free :: nat

definition NewBlocker :: "'s \<Rightarrow> int \<Rightarrow> 's Blocker" where
  "NewBlocker s0 maxc = \<lparr>maxConn = maxc, consumers = Map.empty, c_limit = (\<lambda>_. s0), c_usage = (\<lambda>_. 0), c_free = 0\<rparr>"

definition take_consumer :: "'s semaphores \<Rightarrow> string \<Rightarrow> 's Blocker \<Rightarrow> nat \<times> 's Blocker" where
  "take_consumer sem i s =
     (let (c, s) =
        (case consumers s i of
           Some c \<Rightarrow> (c, s)
         | None \<Rightarrow>
             (let c = c_free s in
              (c, s\<lparr>c_free := c + 1, c_limit := (c_limit s)(c := NewWeighted sem (maxConn s)),
                    c_usage := (c_usage s)(c := 0), consumers := (consumers s)(i \<mapsto> c)\<rparr>))) in
      (c, s\<lparr>c_usage := (c_usage s)(c := int64 (c_usage s c + 1))\<rparr>))"

definition put :: "string \<Rightarrow> 's Blocker \<Rightarrow> 's Blocker" where
  "put i s =
     (case consumers s i of
        None \<Rightarrow> s
      | Some c \<Rightarrow>
          (let s = s\<lparr>c_usage := (c_usage s)(c := int64 (c_usage s c - 1))\<rparr> in
           if c_usage s c = 0 then s\<lparr>consumers := (consumers s)(i := None)\<rparr> else s))"

text \<open>The second half of \<open>Acquire\<close>: the context ended with an error, or the semaphore grants a unit; \<open>None\<close>
  while neither has happened.\<close>

definition acquire_end ::
  "'s semaphores \<Rightarrow> string \<Rightarrow> nat \<Rightarrow> go_error option \<Rightarrow> 's Blocker \<Rightarrow> ((go_error, nat) outcome \<times> 's Blocker) option" where
  "acquire_end sem i c ended s =
     (case ended of
        Some err \<Rightarrow> Some (Err (EUnavailable ''unavailable'' (Some err)), put i s)
      | None \<Rightarrow>
          map_option (\<lambda>l. (Ok c, s\<lparr>c_limit := (c_limit s)(c := l)\<rparr>)) (try_acquire sem (c_limit s c)))"

definition Acquire ::
  "'s semaphores \<Rightarrow> string \<Rightarrow> go_error option \<Rightarrow> 's Blocker \<Rightarrow> ((go_error, nat) outcome \<times> 's Blocker) option" where
  "Acquire sem i ended s = (let (c, s) = take_consumer sem i s in acquire_end sem i c ended s)"

definition release_limit :: "'s semaphores \<Rightarrow> nat \<Rightarrow> 's Blocker \<Rightarrow> 's Blocker" where
  "release_limit sem c s = s\<lparr>c_limit := (c_limit s)(c := release sem (c_limit s c))\<rparr>"

definition Release :: "'s semaphores \<Rightarrow> string \<Rightarrow> nat \<Rightarrow> 's Blocker \<Rightarrow> 's Blocker" where
  "Release sem i c s = put i (release_limit sem c s)"

section \<open>Callers\<close>

text \<open>The callers that wait in \<open>Acquire\<close>, that hold a unit, and that are between the two halves of \<open>Release\<close>.\<close>

record 's blocker_sys =
  blk :: "'s Blocker"
  waiting :: "(string \<times> nat) multiset"
  holding :: "(string \<times> nat) multiset"
  leaving :: "(string \<times> nat) multiset"

inductive blocker_step :: "'s semaphores \<Rightarrow> 's blocker_sys \<Rightarrow> 's blocker_sys \<Rightarrow> bool" for sem where
  start: "take_consumer sem i (blk y) = (c, b) \<Longrightarrow>
    blocker_step sem y (y\<lparr>blk := b, waiting := add_mset (i, c) (waiting y)\<rparr>)"
| granted: "(i, c) \<in># waiting y \<Longrightarrow> acquire_end sem i c None (blk y) = Some (Ok c', b) \<Longrightarrow>
    blocker_step sem y (y\<lparr>blk := b, waiting := waiting y - {#(i, c)#}, holding := add_mset (i, c') (holding y)\<rparr>)"
| refused: "(i, c) \<in># waiting y \<Longrightarrow> acquire_end sem i c (Some err) (blk y) = Some (Err e, b) \<Longrightarrow>
    blocker_step sem y (y\<lparr>blk := b, waiting := waiting y - {#(i, c)#}\<rparr>)"
| give_back: "(i, c) \<in># holding y \<Longrightarrow>
    blocker_step sem y (y\<lparr>blk := release_limit sem c (blk y), holding := holding y - {#(i, c)#},
                          leaving := add_mset (i, c) (leaving y)\<rparr>)"
| leave: "(i, c) \<in># leaving y \<Longrightarrow>
    blocker_step sem y (y\<lparr>blk := put i (blk y), leaving := leaving y - {#(i, c)#}\<rparr>)"

inductive blocker_reach :: "'s semaphores \<Rightarrow> 's \<Rightarrow> int \<Rightarrow> nat \<Rightarrow> 's blocker_sys \<Rightarrow> bool" for sem s0 maxc where
  initially: "blocker_reach sem s0 maxc 0 \<lparr>blk = NewBlocker s0 maxc, waiting = {#}, holding = {#}, leaving = {#}\<rparr>"
| next_step: "blocker_reach sem s0 maxc n y \<Longrightarrow> blocker_step sem y z \<Longrightarrow> blocker_reach sem s0 maxc (Suc n) z"

section \<open>Sharing\<close>

text \<open>What is documented of a weighted semaphore: units held, and its size.\<close>

definition is_semaphore :: "'s semaphores \<Rightarrow> ('s \<Rightarrow> int) \<Rightarrow> ('s \<Rightarrow> int) \<Rightarrow> bool" where
  "is_semaphore sem held cap \<longleftrightarrow>
     (\<forall>n. held (NewWeighted sem n) = 0 \<and> cap (NewWeighted sem n) = n)
     \<and> (\<forall>s s'. try_acquire sem s = Some s' \<longrightarrow> held s' = held s + 1 \<and> cap s' = cap s \<and> held s' \<le> cap s')
     \<and> (\<forall>s. 0 < held s \<longrightarrow> held (release sem s) = held s - 1 \<and> cap (release sem s) = cap s)"

definition callers :: "(string \<times> nat) multiset \<Rightarrow> string \<Rightarrow> nat" where
  "callers A i = size (filter_mset (\<lambda>p. fst p = i) A)"

definition consumer_ok ::
  "('s \<Rightarrow> int) \<Rightarrow> ('s \<Rightarrow> int) \<Rightarrow> 's Blocker \<Rightarrow> (string \<times> nat) multiset \<Rightarrow> (string \<times> nat) multiset \<Rightarrow> string \<Rightarrow> nat \<Rightarrow> bool" where
  "consumer_ok held cap b A H i c \<longleftrightarrow>
     c < c_free b \<and> c_usage b c = int (callers A i) \<and> 0 < callers A i
     \<and> cap (c_limit b c) = maxConn b \<and> held (c_limit b c) = int (callers H i) \<and> int (callers H i) \<le> maxConn b"

definition shares ::
  "('s \<Rightarrow> int) \<Rightarrow> ('s \<Rightarrow> int) \<Rightarrow> 's Blocker \<Rightarrow> (string \<times> nat) multiset \<Rightarrow> (string \<times> nat) multiset \<Rightarrow> nat \<Rightarrow> bool" where
  "shares held cap b A H n \<longleftrightarrow>
     (\<forall>p \<in># A. consumers b (fst p) = Some (snd p)) \<and> H \<subseteq># A \<and> size A \<le> n \<and> 0 \<le> maxConn b
     \<and> (\<forall>i j c. consumers b i = Some c \<longrightarrow> consumers b j = Some c \<longrightarrow> i = j)
     \<and> (\<forall>i c. consumers b i = Some c \<longrightarrow> consumer_ok held cap b A H i c)"

lemma callers_add [simp]: "callers (add_mset p A) i = callers A i + (if fst p = i then 1 else 0)"
  by (simp add: callers_def)

lemma callers_remove: "p \<in># A \<Longrightarrow> callers (A - {#p#}) i = callers A i - (if fst p = i then 1 else 0)"
  by (auto dest!: multi_member_split)

lemma callers_pos: "0 < callers A i \<longleftrightarrow> (\<exists>c. (i, c) \<in># A)"
  by (auto simp: callers_def multiset_eq_iff nonempty_has_size [symmetric] elim!: multi_nonempty_split)

lemma callers_le: "callers A i \<le> size A"
  by (simp add: callers_def size_filter_mset_lesseq)

lemma callers_mono: "H \<subseteq># A \<Longrightarrow> callers H i \<le> callers A i"
  by (simp add: callers_def size_mset_mono multiset_filter_mono)

lemma sharesD:
  assumes "shares held cap b A H n"
  shows "(i, c) \<in># A \<Longrightarrow> consumers b i = Some c" "consumers b i = Some c \<Longrightarrow> consumer_ok held cap b A H i c"
    "consumers b i = Some c \<Longrightarrow> consumers b j = Some c \<Longrightarrow> i = j" "H \<subseteq># A" "size A \<le> n" "0 \<le> maxConn b"
  using assms unfolding shares_def by fastforce+

lemma consumers_iff: "shares held cap b A H n \<Longrightarrow> consumers b i \<noteq> None \<longleftrightarrow> (\<exists>c. (i, c) \<in># A)"
  using sharesD(1,2) callers_pos unfolding consumer_ok_def by (metis not_None_eq)

lemma sharesI:
  assumes "\<And>i c. (i, c) \<in># A \<Longrightarrow> consumers b i = Some c" and "\<And>i c. consumers b i = Some c \<Longrightarrow> consumer_ok held cap b A H i c"
    and "\<And>i j c. consumers b i = Some c \<Longrightarrow> consumers b j = Some c \<Longrightarrow> i = j" and "H \<subseteq># A" and "size A \<le> n" and "0 \<le> maxConn b"
  shows "shares held cap b A H n"
  using assms unfolding shares_def by auto

lemma subset_add_mset: "H \<subseteq># A \<Longrightarrow> H \<subseteq># add_mset p A"
  by (simp add: subset_mset.order_trans [of H A])

lemma take_shares:
  assumes "is_semaphore sem held cap" and inv: "shares held cap b A H n" and "n + 1 < 2 ^ 63" and "take_consumer sem i b = (c, b')"
  shows "shares held cap b' (add_mset (i, c) A) H (n + 1)"
proof (cases "consumers b i")
  case (Some c')
  have c: "consumer_ok held cap b A H i c'" by (rule sharesD(2) [OF inv Some])
  have [simp]: "c' = c" and b': "b' = b\<lparr>c_usage := (c_usage b)(c := int64 (c_usage b c + 1))\<rparr>"
    using assms(4) Some by (auto simp: take_consumer_def)
  have "callers A i < 2 ^ 63 - 1" using callers_le [of A i] sharesD(5) [OF inv] assms(3) by linarith
  then have u: "int64 (c_usage b c + 1) = int (callers A i) + 1"
    using c by (simp add: consumer_ok_def is_int64_def)
  have other: "c1 \<noteq> c" if "consumers b j = Some c1" "j \<noteq> i" for j c1 using sharesD(3) [OF inv Some, of j] that by auto
  show ?thesis
  proof (rule sharesI)
    fix j c1 assume "consumers b' j = Some c1"
    then have j: "consumers b j = Some c1" by (simp add: b')
    show "consumer_ok held cap b' (add_mset (i, c) A) H j c1"
    proof (cases "j = i")
      case True
      then show ?thesis using c u j Some by (simp add: consumer_ok_def b')
    next
      case False
      then show ?thesis using sharesD(2) [OF inv j] other [OF j] by (simp add: consumer_ok_def b')
    qed
  next
    fix j c1 assume "(j, c1) \<in># add_mset (i, c) A"
    then show "consumers b' j = Some c1" using sharesD(1) [OF inv, of j c1] Some by (auto simp: b')
  next
    fix j k c1 assume "consumers b' j = Some c1" "consumers b' k = Some c1"
    then show "j = k" by (simp add: b' sharesD(3) [OF inv])
  qed (simp_all add: b' sharesD(5,6) [OF inv] subset_add_mset [OF sharesD(4) [OF inv]])
next
  case None
  have c: "c = c_free b" and b': "b' = b\<lparr>c_free := c + 1, c_limit := (c_limit b)(c := NewWeighted sem (maxConn b)),
      c_usage := (c_usage b)(c := 1), consumers := (consumers b)(i \<mapsto> c)\<rparr>"
    using assms(4) None by (auto simp: take_consumer_def Let_def int64_def)
  have none: "callers A i = 0" "callers H i = 0"
    using consumers_iff [OF inv, of i] None callers_pos [of A i] callers_mono [OF sharesD(4) [OF inv], of i] by auto
  have other: "c1 < c" if "consumers b j = Some c1" for j c1
    using sharesD(2) [OF inv that] by (simp add: consumer_ok_def c)
  show ?thesis
  proof (rule sharesI)
    fix j c1 assume j: "consumers b' j = Some c1"
    show "consumer_ok held cap b' (add_mset (i, c) A) H j c1"
    proof (cases "j = i")
      case True
      then show ?thesis
        using j none assms(1) sharesD(6) [OF inv] by (simp add: consumer_ok_def b' is_semaphore_def)
    next
      case False
      then have j: "consumers b j = Some c1" using j by (simp add: b')
      show ?thesis using sharesD(2) [OF inv j] other [OF j] False by (simp add: consumer_ok_def b' c)
    qed
  next
    fix j k c1 assume "consumers b' j = Some c1" "consumers b' k = Some c1"
    then show "j = k" using other [of j c1] other [of k c1] sharesD(3) [OF inv, of j c1 k] by (auto simp: b' split: if_splits)
  next
    fix j c1 assume "(j, c1) \<in># add_mset (i, c) A"
    then show "consumers b' j = Some c1" using sharesD(1) [OF inv, of j c1] None by (auto simp: b')
  qed (simp_all add: b' sharesD(5,6) [OF inv] subset_add_mset [OF sharesD(4) [OF inv]])
qed

lemma put_shares:
  assumes inv: "shares held cap b A H n" and m: "(i, c) \<in># A" and "H \<subseteq># A - {#(i, c)#}" and "n < 2 ^ 63"
  shows "shares held cap (put i b) (A - {#(i, c)#}) H n"
proof -
  have i: "consumers b i = Some c" by (rule sharesD(1) [OF inv m])
  have c: "consumer_ok held cap b A H i c" by (rule sharesD(2) [OF inv i])
  have "callers A i < 2 ^ 63" using callers_le [of A i] sharesD(5) [OF inv] assms(4) by linarith
  then have u: "int64 (c_usage b c - 1) = int (callers A i) - 1"
    using c by (simp add: consumer_ok_def is_int64_def)
  define last where "last \<longleftrightarrow> callers A i = 1"
  have b': "put i b = b\<lparr>c_usage := (c_usage b)(c := int (callers A i) - 1),
      consumers := (if last then (consumers b)(i := None) else consumers b)\<rparr>"
    by (auto simp: put_def i u last_def Let_def)
  note rm = callers_remove [OF m]
  have other: "c1 \<noteq> c" if "consumers b j = Some c1" "j \<noteq> i" for j c1 using sharesD(3) [OF inv i, of j] that by auto
  show ?thesis
  proof (rule sharesI)
    fix j c1 assume j: "(j, c1) \<in># A - {#(i, c)#}"
    have "consumers b j = Some c1" by (rule sharesD(1) [OF inv in_diffD [OF j]])
    moreover have "0 < callers (A - {#(i, c)#}) j" using j callers_pos by blast
    ultimately show "consumers (put i b) j = Some c1" using rm [of j] by (auto simp: b' last_def)
  next
    fix j c1 assume "consumers (put i b) j = Some c1"
    then have j: "consumers b j = Some c1" "\<not> (last \<and> j = i)" by (auto simp: b' split: if_splits)
    show "consumer_ok held cap (put i b) (A - {#(i, c)#}) H j c1"
    proof (cases "j = i")
      case True
      then show ?thesis using c j i rm [of i] by (auto simp: consumer_ok_def b' last_def)
    next
      case False
      then show ?thesis using sharesD(2) [OF inv j(1)] other [OF j(1)] rm [of j] by (simp add: consumer_ok_def b')
    qed
  next
    show "size (A - {#(i, c)#}) \<le> n" using sharesD(5) [OF inv] size_Diff1_le [of A "(i, c)"] by linarith
  next
    fix j k c1 assume "consumers (put i b) j = Some c1" "consumers (put i b) k = Some c1"
    then show "j = k" using sharesD(3) [OF inv, of j c1 k] by (simp add: b' split: if_splits)
  qed (simp_all add: b' assms(3) sharesD(6) [OF inv])
qed

lemma limit_shares:
  assumes inv: "shares held cap b A H n" and i: "consumers b i = Some c"
    and l: "cap l = maxConn b" "held l = int (callers H' i)" "int (callers H' i) \<le> maxConn b"
    and "H' \<subseteq># A" and "\<And>j. j \<noteq> i \<Longrightarrow> callers H' j = callers H j"
  shows "shares held cap (b\<lparr>c_limit := (c_limit b)(c := l)\<rparr>) A H' n"
proof (rule sharesI)
  fix j c1 assume "consumers (b\<lparr>c_limit := (c_limit b)(c := l)\<rparr>) j = Some c1"
  then have j: "consumers b j = Some c1" by simp
  then have "j \<noteq> i \<Longrightarrow> c1 \<noteq> c" using sharesD(3) [OF inv i, of j] by auto
  then show "consumer_ok held cap (b\<lparr>c_limit := (c_limit b)(c := l)\<rparr>) A H' j c1"
    using sharesD(2) [OF inv j] l i j assms(7) by (cases "j = i") (simp_all add: consumer_ok_def)
next
  fix j k c1 assume "consumers (b\<lparr>c_limit := (c_limit b)(c := l)\<rparr>) j = Some c1" "consumers (b\<lparr>c_limit := (c_limit b)(c := l)\<rparr>) k = Some c1"
  then show "j = k" using sharesD(3) [OF inv, of j c1 k] by simp
qed (simp_all add: assms(6) sharesD(1,5,6) [OF inv])

lemma shares_Suc: "shares held cap b A H n \<Longrightarrow> shares held cap b A H (n + 1)"
  by (simp add: shares_def)

lemma blocker_step_shares:
  assumes "is_semaphore sem held cap" and "blocker_step sem y z" and "n + 1 < 2 ^ 63"
    and inv: "shares held cap (blk y) (waiting y + holding y + leaving y) (holding y) n"
  shows "shares held cap (blk z) (waiting z + holding z + leaving z) (holding z) (n + 1)"
  using assms(2)
proof cases
  case (start i c b)
  then show ?thesis using take_shares [OF assms(1) inv assms(3) start(2)] by simp
next
  case (granted i c c' b)
  let ?A = "waiting y + holding y + leaving y"
  obtain l where l: "try_acquire sem (c_limit (blk y) c) = Some l" and b: "c' = c" "b = (blk y)\<lparr>c_limit := (c_limit (blk y))(c := l)\<rparr>"
    using granted(3) by (auto simp: acquire_end_def)
  have i: "consumers (blk y) i = Some c" using granted(2) by (intro sharesD(1) [OF inv]) simp
  have c: "consumer_ok held cap (blk y) ?A (holding y) i c" by (rule sharesD(2) [OF inv i])
  have A: "waiting y - {#(i, c)#} + add_mset (i, c) (holding y) + leaving y = ?A" using granted(2) by auto
  have h: "held l = held (c_limit (blk y) c) + 1" "cap l = cap (c_limit (blk y) c)" "held l \<le> cap l"
    using assms(1) l unfolding is_semaphore_def by blast+
  have "shares held cap b ?A (add_mset (i, c) (holding y)) n"
    unfolding b(2)
  proof (rule limit_shares [OF inv i])
    show "add_mset (i, c) (holding y) \<subseteq># ?A" using granted(2) by (auto dest!: multi_member_split simp: subset_mset.le_iff_add ac_simps)
  qed (use c h in \<open>auto simp: consumer_ok_def\<close>)
  moreover have "blk z = b" "holding z = add_mset (i, c) (holding y)" "waiting z + holding z + leaving z = ?A"
    using granted(1) A b(1) by simp_all
  ultimately show ?thesis by (simp only: shares_Suc)
next
  case (refused i c err e b)
  let ?A = "waiting y + holding y + leaving y"
  have b: "b = put i (blk y)" using refused(3) by (simp add: acquire_end_def)
  have A: "?A - {#(i, c)#} = waiting y - {#(i, c)#} + holding y + leaving y" using refused(2) by auto
  have sub: "holding y \<subseteq># ?A - {#(i, c)#}" unfolding A by simp
  have "shares held cap b (?A - {#(i, c)#}) (holding y) n"
    unfolding b by (rule put_shares [OF inv _ sub]) (use refused(2) assms(3) in simp_all)
  then show ?thesis using refused(1) A by (simp add: shares_def)
next
  case (give_back i c)
  let ?A = "waiting y + holding y + leaving y"
  have i: "consumers (blk y) i = Some c" using give_back(2) by (intro sharesD(1) [OF inv]) simp
  have c: "consumer_ok held cap (blk y) ?A (holding y) i c" by (rule sharesD(2) [OF inv i])
  have A: "waiting y + (holding y - {#(i, c)#}) + add_mset (i, c) (leaving y) = ?A" using give_back(2) by auto
  note rm = callers_remove [OF give_back(2)]
  have pos: "0 < callers (holding y) i" using give_back(2) callers_pos by blast
  have "shares held cap (release_limit sem c (blk y)) ?A (holding y - {#(i, c)#}) n"
    unfolding release_limit_def
  proof (rule limit_shares [OF inv i])
    show "holding y - {#(i, c)#} \<subseteq># ?A" by (rule subset_mset.order_trans [OF diff_subset_eq_self]) simp
  qed (use c assms(1) pos rm in \<open>auto simp: consumer_ok_def is_semaphore_def of_nat_diff\<close>)
  moreover have "blk z = release_limit sem c (blk y)" "holding z = holding y - {#(i, c)#}" "waiting z + holding z + leaving z = ?A"
    using give_back(1) A by simp_all
  ultimately show ?thesis by (simp only: shares_Suc)
next
  case (leave i c)
  let ?A = "waiting y + holding y + leaving y"
  have A: "?A - {#(i, c)#} = waiting y + holding y + (leaving y - {#(i, c)#})" using leave(2) by auto
  have sub: "holding y \<subseteq># ?A - {#(i, c)#}" unfolding A by simp
  have "shares held cap (put i (blk y)) (?A - {#(i, c)#}) (holding y) n"
    by (rule put_shares [OF inv _ sub]) (use leave(2) assms(3) in simp_all)
  then show ?thesis using leave(1) A by (simp add: shares_def)
qed

lemma blocker_reach_shares:
  assumes "is_semaphore sem held cap" and "0 \<le> maxc" and "blocker_reach sem s0 maxc n y" and "n < 2 ^ 63"
  shows "shares held cap (blk y) (waiting y + holding y + leaving y) (holding y) n \<and> maxConn (blk y) = maxc"
  using assms(3,4)
proof (induction rule: blocker_reach.induct)
  case initially
  then show ?case using assms(2) by (simp add: shares_def NewBlocker_def)
next
  case (next_step n y z)
  have "maxConn (blk z) = maxConn (blk y)"
    using next_step.hyps(2)
    by cases (auto simp: take_consumer_def acquire_end_def put_def release_limit_def Let_def split: option.splits if_splits)
  then show ?case using blocker_step_shares [OF assms(1) next_step.hyps(2)] next_step by auto
qed

text \<open>C23: at no moment do more than \<open>maxConn\<close> callers with the same id hold a unit, however the calls of
  \<open>Acquire\<close> and \<open>Release\<close> interleave: all callers of an id share one consumer for as long as one of
  them is there, and the blocker keeps a consumer exactly for the ids that have callers.\<close>

theorem blocker_limits_holders:
  assumes "is_semaphore sem held cap" and "0 \<le> maxc" and "blocker_reach sem s0 maxc n y" and "n < 2 ^ 63"
  shows "int (callers (holding y) i) \<le> maxc
    \<and> (\<forall>c. (i, c) \<in># waiting y + holding y + leaving y \<longrightarrow> consumers (blk y) i = Some c)
    \<and> (consumers (blk y) i = None \<longleftrightarrow> callers (waiting y + holding y + leaving y) i = 0)"
proof -
  note s = blocker_reach_shares [OF assms]
  have none: "consumers (blk y) i = None \<longleftrightarrow> callers (waiting y + holding y + leaving y) i = 0"
    using consumers_iff [OF conjunct1 [OF s], of i] unfolding callers_pos [symmetric] by auto
  moreover have "int (callers (holding y) i) \<le> maxc"
  proof (cases "consumers (blk y) i")
    case None
    then have "callers (holding y) i = 0"
      using none callers_mono [of "holding y" "waiting y + holding y + leaving y" i] by simp
    then show ?thesis using assms(2) by simp
  next
    case (Some c)
    then show ?thesis using s sharesD(2) [of held cap "blk y" _ "holding y" n i c] by (auto simp: consumer_ok_def)
  qed
  ultimately show ?thesis using s sharesD(1) by metis
qed

text \<open>Semaphores that count.\<close>

definition counting :: "(int \<times> int) semaphores" where
  "counting = \<lparr>NewWeighted = (\<lambda>n. (0, n)), try_acquire = (\<lambda>(h, n). if h < n then Some (h + 1, n) else None),
               release = (\<lambda>(h, n). (h - 1, n))\<rparr>"

lemma counting_semaphore: "is_semaphore counting fst snd"
  by (auto simp: is_semaphore_def counting_def split: if_splits)

theorem blocker_limits_holders_witness:
  "\<exists>y. blocker_reach counting (0, 0) 1 2 y \<and> callers (holding y) ''a'' = 1 \<and> int (callers (holding y) ''a'') \<le> 1"
proof -
  let ?y0 = "\<lparr>blk = NewBlocker (0, 0) 1, waiting = {#}, holding = {#}, leaving = {#}\<rparr> :: (int \<times> int) blocker_sys"
  let ?b = "snd (take_consumer counting ''a'' (blk ?y0))"
  let ?y1 = "?y0\<lparr>blk := ?b, waiting := add_mset (''a'', 0) (waiting ?y0)\<rparr>"
  have t: "take_consumer counting ''a'' (blk ?y0) = (0, ?b)"
    by (simp add: take_consumer_def NewBlocker_def)
  have "blocker_step counting ?y0 ?y1" by (rule blocker_step.start [OF t])
  then have r1: "blocker_reach counting (0, 0) 1 1 ?y1"
    using blocker_reach.next_step [OF blocker_reach.initially] by fastforce
  have "\<exists>b. acquire_end counting ''a'' 0 None (blk ?y1) = Some (Ok 0, b)"
    by (simp add: acquire_end_def take_consumer_def NewBlocker_def counting_def)
  then obtain b where a: "acquire_end counting ''a'' 0 None (blk ?y1) = Some (Ok 0, b)" by blast
  let ?y2 = "?y1\<lparr>blk := b, waiting := waiting ?y1 - {#(''a'', 0)#}, holding := add_mset (''a'', 0) (holding ?y1)\<rparr>"
  have "blocker_step counting ?y1 ?y2" by (rule blocker_step.granted [OF _ a]) simp
  then have "blocker_reach counting (0, 0) 1 2 ?y2"
    using blocker_reach.next_step [OF r1] by (simp add: numeral_2_eq_2)
  moreover have "callers (holding ?y2) ''a'' = 1" by (simp add: callers_def)
  ultimately show ?thesis using blocker_limits_holders [OF counting_semaphore, of 1 "(0, 0)" 2 ?y2 "''a''"] by auto
qed

section \<open>Recent events\<close>

text \<open>The table of \<open>cache2go\<close>: \<open>Value\<close> also keeps the item alive, hence its second result.  The items are
  pointers to counters, which the heap \<open>cells\<close> holds; a nil pointer is \<open>None\<close>.\<close>

record 't cache_table =
  tbl_value :: "string \<Rightarrow> 't \<Rightarrow> nat option option \<times> 't"
  tbl_add :: "string \<Rightarrow> int \<Rightarrow> nat option \<Rightarrow> 't \<Rightarrow> 't"
  tbl_delete :: "string \<Rightarrow> 't \<Rightarrow> 't"

record 't Recent =
  recent :: 't
  max_hits :: int
  period :: int
  cells :: "nat \<Rightarrow> int"
  cell_free :: nat

definition NewRecent :: "'t \<Rightarrow> int \<Rightarrow> int \<Rightarrow> 't Recent" where
  "NewRecent table maxh per = \<lparr>recent = table, max_hits = maxh, period = per, cells = (\<lambda>_. 0), cell_free = 0\<rparr>"

text \<open>The end of \<open>Hit\<close>, reached with no item or with a nil one: a new counter.\<close>

definition first_hit :: "'t cache_table \<Rightarrow> string \<Rightarrow> 't Recent \<Rightarrow> bool \<times> 't Recent" where
  "first_hit tbl ip r =
     (let cntr = cell_free r;
          r = r\<lparr>cells := (cells r)(cntr := 1), cell_free := cntr + 1\<rparr>;
          r = r\<lparr>recent := tbl_add tbl ip (period r) (Some cntr) (recent r)\<rparr> in
      (1 > max_hits r, r))"

definition Hit :: "'t cache_table \<Rightarrow> string \<Rightarrow> 't Recent \<Rightarrow> bool \<times> 't Recent" where
  "Hit tbl ip r =
     (if ip = [] then (False, r)
      else
        (let (cached, t) = tbl_value tbl ip (recent r); r = r\<lparr>recent := t\<rparr> in
         case cached of
           Some (Some cntr) \<Rightarrow>
             (let r = r\<lparr>cells := (cells r)(cntr := int64 (cells r cntr + 1))\<rparr> in (cells r cntr > max_hits r, r))
         | Some None \<Rightarrow> first_hit tbl ip r
         | None \<Rightarrow> first_hit tbl ip r))"

definition Undo :: "'t cache_table \<Rightarrow> string \<Rightarrow> 't Recent \<Rightarrow> int \<times> 't Recent" where
  "Undo tbl ip r =
     (if ip = [] then (0, r)
      else
        (let (cached, t) = tbl_value tbl ip (recent r); r = r\<lparr>recent := t\<rparr> in
         case cached of
           None \<Rightarrow> (0, r)
         | Some None \<Rightarrow> (0, r)
         | Some (Some cntr) \<Rightarrow>
             (let r = r\<lparr>cells := (cells r)(cntr := int64 (cells r cntr - 1))\<rparr>;
                  r = (if cells r cntr = 0 then r\<lparr>recent := tbl_delete tbl ip (recent r)\<rparr> else r) in
              (cells r cntr, r))))"

text \<open>While the item of an address is alive, \<open>Hit\<close> counts up from it and \<open>Undo\<close> takes a hit back.\<close>

lemma Hit_counts:
  assumes "ip \<noteq> []" and "tbl_value tbl ip (recent r) = (Some (Some a), t)" and "is_int64 (cells r a + 1)"
  shows "Hit tbl ip r = (cells r a + 1 > max_hits r, r\<lparr>recent := t, cells := (cells r)(a := cells r a + 1)\<rparr>)"
  using assms by (simp add: Hit_def)

lemma Hit_first:
  assumes "ip \<noteq> []" and "tbl_value tbl ip (recent r) = (None, t)"
  shows "fst (Hit tbl ip r) \<longleftrightarrow> max_hits r < 1" and "cells (snd (Hit tbl ip r)) (cell_free r) = 1"
    and "recent (snd (Hit tbl ip r)) = tbl_add tbl ip (period r) (Some (cell_free r)) t"
  using assms by (simp_all add: Hit_def first_hit_def Let_def)

lemma Undo_Hit:
  assumes "ip \<noteq> []" and "tbl_value tbl ip (recent r) = (Some (Some a), t)" and "tbl_value tbl ip t = (Some (Some a), t')"
    and "is_int64 (cells r a + 1)" and "is_int64 (cells r a)" and "cells r a \<noteq> 0"
  shows "Undo tbl ip (snd (Hit tbl ip r)) = (cells r a, r\<lparr>recent := t'\<rparr>)"
  using assms by (simp add: Hit_counts Undo_def Let_def)

end
