(* ===== verification/Go_Json.thy ===== *)
theory Go_Json
  imports Go_Encoding Go_Strings "HOL-Library.AList" "HOL-Library.List_Lexorder" "HOL-Library.Char_ord"
begin

text \<open>
  Values of Go's type \<open>any\<close> and their JSON form, as \<open>encoding/json\<close> writes and reads it.  A \<open>float64\<close> is a
  value of an arbitrary type, printed and read by functions that are arguments.  What matters to the
  library is kept: every integer type prints as a number, every number is read as a \<open>float64\<close>, the members
  of a map are sorted by key, and of two members with the same key the last one counts.
\<close>

datatype 'f any =
    ANil
  | ABool bool
  | AString string
  | AInt int
  | AInt64 int
  | AInt32 int
  | AUint int
  | AUint64 int
  | AUint32 int
  | AFloat64 'f
  | AArray "'f any list"
  | AObject "(string \<times> 'f any) list"

section \<open>Writing\<close>

function json_marshal :: "('f \<Rightarrow> string) \<Rightarrow> 'f any \<Rightarrow> string" where
  "json_marshal ff ANil = ''null''"
| "json_marshal ff (ABool b) = (if b then ''true'' else ''false'')"
| "json_marshal ff (AString s) = json_string s"
| "json_marshal ff (AInt i) = itoa_int i"
| "json_marshal ff (AInt64 i) = itoa_int i"
| "json_marshal ff (AInt32 i) = itoa_int i"
| "json_marshal ff (AUint i) = itoa_int i"
| "json_marshal ff (AUint64 i) = itoa_int i"
| "json_marshal ff (AUint32 i) = itoa_int i"
| "json_marshal ff (AFloat64 x) = ff x"
| "json_marshal ff (AArray xs) = CHR ''['' # join_char (CHR '','') (map (\<lambda>x. json_marshal ff x) xs) @ '']''"
| "json_marshal ff (AObject kvs) =
     CHR ''{'' # join_char (CHR '','') (map (\<lambda>p. json_string (fst p) @ CHR '':'' # json_marshal ff (snd p)) (sort_key fst kvs)) @ ''}''"
  by pat_completeness auto

lemma size_any_member: "p \<in> set kvs \<Longrightarrow> size (snd p) < size (AObject kvs)"
  by (induction kvs) (auto simp: less_Suc_eq_le split_beta le_less_trans trans_le_add1 trans_le_add2)

termination json_marshal
proof (relation "measure (\<lambda>(ff, v). size v)")
  show "\<And>ff xs x. x \<in> set xs \<Longrightarrow> ((ff, x), ff, AArray xs) \<in> measure (\<lambda>(ff, v). size v)"
    by (simp add: less_Suc_eq_le size_list_estimation')
  show "\<And>ff kvs p. p \<in> set (sort_key fst kvs) \<Longrightarrow> ((ff, snd p), ff, AObject kvs) \<in> measure (\<lambda>(ff, v). size v)"
    using size_any_member by fastforce
qed simp

section \<open>Reading\<close>

definition json_space :: "char \<Rightarrow> bool" where
  "json_space c \<longleftrightarrow> c \<in> {CHR 0x20, CHR 0x09, CHR 0x0A, CHR 0x0D}"

definition skip_ws :: "string \<Rightarrow> string" where
  "skip_ws s = dropWhile json_space s"

definition is_digit :: "char \<Rightarrow> bool" where
  "is_digit c \<longleftrightarrow> digit_val c \<noteq> None"

definition digits1 :: "string \<Rightarrow> (string \<times> string) option" where
  "digits1 s = (if takeWhile is_digit s = [] then None else Some (takeWhile is_digit s, dropWhile is_digit s))"

definition number_int :: "string \<Rightarrow> (string \<times> string) option" where
  "number_int s =
     (case s of
        [] \<Rightarrow> None
      | c # cs \<Rightarrow> if c = CHR ''0'' then Some ([c], cs) else digits1 s)"

definition number_frac :: "string \<Rightarrow> (string \<times> string) option" where
  "number_frac s =
     (case s of
        c # cs \<Rightarrow> if c = CHR ''.'' then map_option (apfst (Cons c)) (digits1 cs) else Some ([], s)
      | [] \<Rightarrow> Some ([], s))"

definition number_exp :: "string \<Rightarrow> (string \<times> string) option" where
  "number_exp s =
     (case s of
        c # cs \<Rightarrow>
          if c = CHR ''e'' \<or> c = CHR ''E''
          then (case cs of
                  d # ds \<Rightarrow>
                    if d = CHR ''+'' \<or> d = CHR ''-'' then map_option (apfst (append [c, d])) (digits1 ds)
                    else map_option (apfst (Cons c)) (digits1 cs)
                | [] \<Rightarrow> None)
          else Some ([], s)
      | [] \<Rightarrow> Some ([], s))"

definition read_unsigned :: "string \<Rightarrow> (string \<times> string) option" where
  "read_unsigned s =
     (case number_int s of
        None \<Rightarrow> None
      | Some (i, s) \<Rightarrow>
          (case number_frac s of
             None \<Rightarrow> None
           | Some (f, s) \<Rightarrow> map_option (\<lambda>(e, s). (i @ f @ e, s)) (number_exp s)))"

definition read_number :: "string \<Rightarrow> (string \<times> string) option" where
  "read_number s =
     (case s of
        c # cs \<Rightarrow> if c = CHR ''-'' then map_option (apfst (Cons c)) (read_unsigned cs) else read_unsigned s
      | [] \<Rightarrow> None)"

definition strip :: "string \<Rightarrow> string \<Rightarrow> string option" where
  "strip p s = (if take (length p) s = p then Some (drop (length p) s) else None)"

definition read_scalar :: "(string \<Rightarrow> 'f option) \<Rightarrow> string \<Rightarrow> ('f any \<times> string) option" where
  "read_scalar pf s =
     (case strip ''true'' s of
        Some r \<Rightarrow> Some (ABool True, r)
      | None \<Rightarrow>
          (case strip ''false'' s of
             Some r \<Rightarrow> Some (ABool False, r)
           | None \<Rightarrow>
               (case strip ''null'' s of
                  Some r \<Rightarrow> Some (ANil, r)
                | None \<Rightarrow>
                    (case read_number s of
                       None \<Rightarrow> None
                     | Some (lit, r) \<Rightarrow> map_option (\<lambda>x. (AFloat64 x, r)) (pf lit)))))"

definition object_of :: "(string \<times> 'f any) list \<Rightarrow> (string \<times> 'f any) list" where
  "object_of kvs = fold (\<lambda>(k, v) m. AList.update k v m) kvs []"

text \<open>The first argument but one bounds the nesting and the number of members; the length of the text is
  enough.\<close>

fun read_value :: "(string \<Rightarrow> 'f option) \<Rightarrow> nat \<Rightarrow> string \<Rightarrow> ('f any \<times> string) option"
and read_elems :: "(string \<Rightarrow> 'f option) \<Rightarrow> nat \<Rightarrow> string \<Rightarrow> ('f any list \<times> string) option"
and read_fields :: "(string \<Rightarrow> 'f option) \<Rightarrow> nat \<Rightarrow> string \<Rightarrow> ((string \<times> 'f any) list \<times> string) option" where
  "read_value pf 0 s = None"
| "read_value pf (Suc n) s =
     (case skip_ws s of
        [] \<Rightarrow> None
      | c # cs \<Rightarrow>
          if c = CHR ''{''
          then (if expect (CHR ''}'') (skip_ws cs) \<noteq> None then Some (AObject [], the (expect (CHR ''}'') (skip_ws cs)))
                else map_option (apfst (\<lambda>kvs. AObject (object_of kvs))) (read_fields pf n cs))
          else if c = CHR ''[''
          then (if expect (CHR '']'') (skip_ws cs) \<noteq> None then Some (AArray [], the (expect (CHR '']'') (skip_ws cs)))
                else map_option (apfst AArray) (read_elems pf n cs))
          else if c = CHR 0x22 then map_option (apfst AString) (json_unquote cs)
          else read_scalar pf (c # cs))"
| "read_elems pf 0 s = None"
| "read_elems pf (Suc n) s =
     (case read_value pf n s of
        None \<Rightarrow> None
      | Some (v, r) \<Rightarrow>
          (case skip_ws r of
             [] \<Rightarrow> None
           | c # cs \<Rightarrow>
               if c = CHR '']'' then Some ([v], cs)
               else if c = CHR '','' then map_option (apfst (Cons v)) (read_elems pf n cs)
               else None))"
| "read_fields pf 0 s = None"
| "read_fields pf (Suc n) s =
     (case read_string (skip_ws s) of
        None \<Rightarrow> None
      | Some (k, r) \<Rightarrow>
          (case expect (CHR '':'') (skip_ws r) of
             None \<Rightarrow> None
           | Some r \<Rightarrow>
               (case read_value pf n r of
                  None \<Rightarrow> None
                | Some (v, r) \<Rightarrow>
                    (case skip_ws r of
                       [] \<Rightarrow> None
                     | c # cs \<Rightarrow>
                         if c = CHR ''}'' then Some ([(k, v)], cs)
                         else if c = CHR '','' then map_option (apfst (Cons (k, v))) (read_fields pf n cs)
                         else None))))"

definition json_read :: "(string \<Rightarrow> 'f option) \<Rightarrow> string \<Rightarrow> 'f any option" where
  "json_read pf s =
     (case read_value pf (Suc (length s)) s of
        None \<Rightarrow> None
      | Some (v, r) \<Rightarrow> if skip_ws r = [] then Some v else None)"

section \<open>Round trip of flat objects\<close>

text \<open>Values without nesting whose integers have at most 64 bits, and what is read back for them.\<close>

fun flat :: "'f any \<Rightarrow> bool" where
  "flat (ABool b) \<longleftrightarrow> True"
| "flat (AString s) \<longleftrightarrow> ascii s"
| "flat (AInt i) \<longleftrightarrow> \<bar>i\<bar> < 2 ^ 64"
| "flat (AInt64 i) \<longleftrightarrow> \<bar>i\<bar> < 2 ^ 64"
| "flat (AInt32 i) \<longleftrightarrow> \<bar>i\<bar> < 2 ^ 64"
| "flat (AUint i) \<longleftrightarrow> \<bar>i\<bar> < 2 ^ 64"
| "flat (AUint64 i) \<longleftrightarrow> \<bar>i\<bar> < 2 ^ 64"
| "flat (AUint32 i) \<longleftrightarrow> \<bar>i\<bar> < 2 ^ 64"
| "flat _ \<longleftrightarrow> False"

fun reread :: "(string \<Rightarrow> 'f option) \<Rightarrow> 'f any \<Rightarrow> 'f any" where
  "reread pf (AInt i) = AFloat64 (the (pf (itoa_int i)))"
| "reread pf (AInt64 i) = AFloat64 (the (pf (itoa_int i)))"
| "reread pf (AInt32 i) = AFloat64 (the (pf (itoa_int i)))"
| "reread pf (AUint i) = AFloat64 (the (pf (itoa_int i)))"
| "reread pf (AUint64 i) = AFloat64 (the (pf (itoa_int i)))"
| "reread pf (AUint32 i) = AFloat64 (the (pf (itoa_int i)))"
| "reread pf v = v"

definition reads_integers :: "(string \<Rightarrow> 'f option) \<Rightarrow> bool" where
  "reads_integers pf \<longleftrightarrow> (\<forall>i. \<bar>i\<bar> < 2 ^ 64 \<longrightarrow> pf (itoa_int i) \<noteq> None)"

definition ends_value :: "string \<Rightarrow> bool" where
  "ends_value rest \<longleftrightarrow> (\<exists>cs. rest = CHR '','' # cs \<or> rest = CHR ''}'' # cs)"

lemma is_digit_itoa: "c \<in> set (itoa n) \<Longrightarrow> is_digit c"
  using itoa_range [of c n] by (simp add: is_digit_def digit_val_def)

lemma itoa_leading: "0 < n \<Longrightarrow> hd (itoa n) \<noteq> CHR ''0''"
proof (induction n rule: itoa.induct)
  case (1 n)
  show ?case
  proof (cases "n < 10")
    case True
    have "of_char (digit_char n) = (48 + n :: nat)" using True by simp
    then have "digit_char n \<noteq> CHR ''0''" using "1.prems" by auto
    then show ?thesis using True by (simp add: itoa.simps [of n])
  next
    case False
    then show ?thesis using 1 itoa_not_Nil [of "n div 10"] by (simp add: itoa.simps [of n])
  qed
qed

lemma digits1_itoa:
  assumes "ends_value rest"
  shows "digits1 (itoa n @ rest) = Some (itoa n, rest)"
proof -
  have "takeWhile is_digit rest = []" "dropWhile is_digit rest = rest"
    using assms by (auto simp: ends_value_def is_digit_def digit_val_def)
  moreover have "\<And>c. c \<in> set (itoa n) \<Longrightarrow> is_digit c" by (rule is_digit_itoa)
  ultimately show ?thesis using itoa_not_Nil [of n] by (simp add: digits1_def)
qed

lemma read_unsigned_itoa:
  assumes "ends_value rest"
  shows "read_unsigned (itoa n @ rest) = Some (itoa n, rest)"
proof -
  obtain c cs where s: "itoa n = c # cs" using itoa_not_Nil [of n] by (cases "itoa n") auto
  have "number_int (itoa n @ rest) = Some (itoa n, rest)"
  proof (cases "n = 0")
    case True
    have "char_of (of_char (CHR ''0'') :: nat) = CHR ''0''" by (simp only: char_of_char)
    then have "digit_char 0 = CHR ''0''" by (simp add: digit_char_def)
    then show ?thesis using True by (simp add: number_int_def itoa.simps [of 0])
  next
    case False
    then have "c \<noteq> CHR ''0''" using itoa_leading [of n] s by simp
    then show ?thesis using digits1_itoa [OF assms, of n] s by (simp add: number_int_def)
  qed
  moreover have "number_frac rest = Some ([], rest)" "number_exp rest = Some ([], rest)"
    using assms by (auto simp: ends_value_def number_frac_def number_exp_def)
  ultimately show ?thesis by (simp add: read_unsigned_def)
qed

lemma itoa_first:
  obtains c cs where "itoa n = c # cs" "48 \<le> (of_char c :: nat)" "(of_char c :: nat) \<le> 57"
proof (cases "itoa n")
  case (Cons c cs)
  then show thesis using that itoa_range [of c n] by simp
qed (use itoa_not_Nil in blast)

lemma read_number_itoa: "ends_value rest \<Longrightarrow> read_number (itoa_int i @ rest) = Some (itoa_int i, rest)"
proof (cases "i < 0")
  case True
  assume "ends_value rest"
  then show ?thesis using True by (simp add: itoa_int_def read_number_def read_unsigned_itoa)
next
  case False
  assume r: "ends_value rest"
  obtain c cs where c: "itoa (nat i) = c # cs" "48 \<le> (of_char c :: nat)" by (rule itoa_first)
  then have "c \<noteq> CHR ''-''" by auto
  then show ?thesis using False read_unsigned_itoa [OF r, of "nat i"] c by (simp add: itoa_int_def read_number_def)
qed

lemma itoa_int_first:
  obtains c cs where "itoa_int i = c # cs" "(of_char c :: nat) = 45 \<or> 48 \<le> (of_char c :: nat) \<and> (of_char c :: nat) \<le> 57"
proof (cases "i < 0")
  case False
  obtain c cs where "itoa (nat i) = c # cs" "48 \<le> (of_char c :: nat)" "(of_char c :: nat) \<le> 57" by (rule itoa_first)
  then show thesis using that False by (simp add: itoa_int_def)
qed (use that in \<open>simp add: itoa_int_def\<close>)

lemma read_value_integer:
  assumes "reads_integers pf" and "\<bar>i\<bar> < 2 ^ 64" and "ends_value rest"
  shows "read_value pf (Suc n) (itoa_int i @ rest) = Some (AFloat64 (the (pf (itoa_int i))), rest)"
proof -
  obtain c cs where c: "itoa_int i = c # cs" "(of_char c :: nat) = 45 \<or> 48 \<le> (of_char c :: nat) \<and> (of_char c :: nat) \<le> 57"
    by (rule itoa_int_first)
  then have ne: "\<not> json_space c" "c \<noteq> CHR ''{''" "c \<noteq> CHR ''[''" "c \<noteq> CHR 0x22" "c \<noteq> CHR ''t''" "c \<noteq> CHR ''f''" "c \<noteq> CHR ''n''"
    by (auto simp: json_space_def)
  obtain x where "pf (itoa_int i) = Some x" using assms(1,2) by (auto simp: reads_integers_def)
  then have "read_scalar pf (itoa_int i @ rest) = Some (AFloat64 x, rest)"
    using ne c(1) read_number_itoa [OF assms(3), of i] by (simp add: read_scalar_def strip_def)
  then show ?thesis using ne c(1) \<open>pf (itoa_int i) = Some x\<close> by (simp add: skip_ws_def)
qed

lemma read_value_flat:
  assumes "reads_integers pf" and "flat v" and "ends_value rest"
  shows "read_value pf (Suc n) (json_marshal ff v @ rest) = Some (reread pf v, rest)"
proof (cases v)
  case (ABool b)
  then show ?thesis by (auto simp: skip_ws_def json_space_def read_scalar_def strip_def)
next
  case (AString s)
  then have "ascii s" using assms(2) by simp
  from read_string_json [OF this, of rest] show ?thesis
    using AString by (simp add: json_string_def read_string_def expect_def skip_ws_def json_space_def)
qed (use assms read_value_integer in \<open>simp_all del: read_value.simps\<close>)

lemma skip_json_string: "skip_ws (json_string s @ rest) = json_string s @ rest"
  by (simp add: json_string_def skip_ws_def json_space_def)

lemma skip_punct:
  "skip_ws (CHR '':'' # s) = CHR '':'' # s" "skip_ws (CHR '','' # s) = CHR '','' # s" "skip_ws (CHR ''}'' # s) = CHR ''}'' # s"
  by (simp_all add: skip_ws_def json_space_def)

definition member_text :: "('f \<Rightarrow> string) \<Rightarrow> string \<times> 'f any \<Rightarrow> string" where
  "member_text ff p = json_string (fst p) @ CHR '':'' # json_marshal ff (snd p)"

lemma read_fields_member:
  assumes "reads_integers pf" and "ascii (fst p)" and "flat (snd p)" and "ends_value (c # r)"
  shows "read_fields pf (Suc (Suc m)) (member_text ff p @ c # r) =
    (if c = CHR ''}'' then Some ([(fst p, reread pf (snd p))], r)
     else map_option (apfst (Cons (fst p, reread pf (snd p)))) (read_fields pf (Suc m) r))"
proof -
  have "read_value pf (Suc m) (json_marshal ff (snd p) @ c # r) = Some (reread pf (snd p), c # r)"
    by (rule read_value_flat [OF assms(1,3,4)])
  moreover have "skip_ws (c # r) = c # r" "c = CHR ''}'' \<or> c = CHR '',''"
    using assms(4) skip_punct by (auto simp: ends_value_def)
  ultimately show ?thesis
    using assms(2)
    by (auto simp: member_text_def skip_json_string read_string_json skip_punct expect_def simp del: read_value.simps)
qed

lemma read_fields_flat:
  assumes "reads_integers pf" and "ms \<noteq> []" and "\<forall>p \<in> set ms. ascii (fst p) \<and> flat (snd p)" and "length ms < n"
  shows "read_fields pf n (join_char (CHR '','') (map (member_text ff) ms) @ CHR ''}'' # rest)
    = Some (map (\<lambda>p. (fst p, reread pf (snd p))) ms, rest)"
  using assms(2-4)
proof (induction ms arbitrary: n rule: induct_list012)
  case (2 p)
  obtain m where "n = Suc (Suc m)" using "2.prems"(3) by (auto dest!: less_imp_Suc_add)
  then show ?case
    using "2.prems"(2) read_fields_member [OF assms(1), of p "CHR ''}''" rest] by (simp add: ends_value_def del: read_fields.simps)
next
  case (3 p q ms)
  obtain m where n: "n = Suc (Suc m)" using "3.prems"(3) by (auto dest!: less_imp_Suc_add)
  have "read_fields pf (Suc m) (join_char (CHR '','') (map (member_text ff) (q # ms)) @ CHR ''}'' # rest)
    = Some (map (\<lambda>p. (fst p, reread pf (snd p))) (q # ms), rest)"
    using "3.IH"(2) [of "Suc m"] "3.prems" n by (simp del: read_fields.simps)
  then show ?case
    using "3.prems"(2) read_fields_member [OF assms(1), of p "CHR '',''"] by (simp add: n ends_value_def del: read_fields.simps)
qed simp

lemma object_of_distinct: "distinct (map fst kvs) \<Longrightarrow> object_of kvs = kvs"
proof -
  have new: "fold (\<lambda>(k, v) m. AList.update k v m) kvs m = m @ kvs" if "distinct (map fst (m @ kvs))" for m
    using that
  proof (induction kvs arbitrary: m)
    case (Cons p kvs)
    have "AList.update (fst p) (snd p) m = m @ [p]" if "fst p \<notin> fst ` set m"
      using that by (induction m) auto
    then show ?case using Cons.IH [of "m @ [p]"] Cons.prems by (auto simp: split_beta)
  qed simp
  then show "distinct (map fst kvs) \<Longrightarrow> object_of kvs = kvs" using new [of "[]"] by (simp add: object_of_def)
qed

lemma length_members: "length ms \<le> length (join_char (CHR '','') (map (member_text ff) ms))"
  by (induction ms rule: induct_list012) (simp_all add: member_text_def json_string_def)

lemma json_read_members:
  assumes "reads_integers pf" and "ms \<noteq> []" and "distinct (map fst ms)" and "\<forall>p \<in> set ms. ascii (fst p) \<and> flat (snd p)"
  shows "json_read pf (CHR ''{'' # join_char (CHR '','') (map (member_text ff) ms) @ ''}'')
    = Some (AObject (map (\<lambda>p. (fst p, reread pf (snd p))) ms))"
proof -
  let ?t = "join_char (CHR '','') (map (member_text ff) ms) @ ''}''"
  have r: "read_fields pf (Suc (length ?t)) ?t = Some (map (\<lambda>p. (fst p, reread pf (snd p))) ms, [])"
    using assms(4) length_members [of ms ff] by (intro read_fields_flat [OF assms(1,2)]) auto
  have "?t \<noteq> [] \<and> hd ?t = CHR 0x22"
    using assms(2) by (cases ms rule: remdups_adj.cases) (simp_all add: member_text_def json_string_def)
  then have "expect (CHR ''}'') (skip_ws ?t) = None"
    by (cases ?t) (auto simp: skip_ws_def json_space_def expect_def)
  moreover have "object_of (map (\<lambda>p. (fst p, reread pf (snd p))) ms) = map (\<lambda>p. (fst p, reread pf (snd p))) ms"
    using assms(3) by (intro object_of_distinct) (simp add: comp_def)
  ultimately have "read_value pf (Suc (length (CHR ''{'' # ?t))) (CHR ''{'' # ?t) = Some (AObject (map (\<lambda>p. (fst p, reread pf (snd p))) ms), [])"
    using r by (simp add: skip_ws_def json_space_def del: read_fields.simps)
  then show ?thesis unfolding json_read_def by (simp add: skip_ws_def del: read_value.simps)
qed

lemma json_read_flat:
  assumes "reads_integers pf" and "distinct (map fst kvs)" and "\<forall>p \<in> set kvs. ascii (fst p) \<and> flat (snd p)"
  shows "json_read pf (json_marshal ff (AObject kvs)) = Some (AObject (map (\<lambda>p. (fst p, reread pf (snd p))) (sort_key fst kvs)))"
proof (cases "kvs = []")
  case True
  then show ?thesis by (simp add: json_read_def skip_ws_def json_space_def expect_def)
next
  case False
  have form: "json_marshal ff (AObject kvs) = CHR ''{'' # join_char (CHR '','') (map (member_text ff) (sort_key fst kvs)) @ ''}''"
    by (simp add: member_text_def [abs_def])
  have "sort_key fst kvs \<noteq> []" using False by (metis set_sort set_empty)
  moreover have "distinct (map fst (sort_key fst kvs))" using assms(2) by (simp add: distinct_map inj_on_def)
  ultimately show ?thesis unfolding form using assms(3) by (intro json_read_members [OF assms(1)]) simp_all
qed

end
