(* ===== verification/Go_Base64.thy ===== *)
theory Go_Base64
  imports Go_Prelude
begin

text \<open>
  The standard base-64 encoding of \<open>encoding/base64\<close>, with padding, on strings of bytes.  Decoding skips
  carriage returns and line feeds, as the Go decoder does.
\<close>

definition b64_char :: "nat \<Rightarrow> char" where
  "b64_char d = char_of (if d < 26 then 65 + d else if d < 52 then 71 + d else if d < 62 then d - 4 else if d = 62 then 43 else 47)"

definition b64_val :: "char \<Rightarrow> nat option" where
  "b64_val c =
     (let n = of_char c :: nat in
      if 65 \<le> n \<and> n \<le> 90 then Some (n - 65)
      else if 97 \<le> n \<and> n \<le> 122 then Some (n - 71)
      else if 48 \<le> n \<and> n \<le> 57 then Some (n + 4)
      else if n = 43 then Some 62
      else if n = 47 then Some 63
      else None)"

abbreviation byte_of :: "char \<Rightarrow> nat" where
  "byte_of c \<equiv> of_char c"

fun b64_encode :: "string \<Rightarrow> string" where
  "b64_encode [] = []"
| "b64_encode [a] =
     [b64_char (byte_of a div 4), b64_char (byte_of a mod 4 * 16), CHR ''='', CHR ''='']"
| "b64_encode [a, b] =
     [b64_char (byte_of a div 4), b64_char (byte_of a mod 4 * 16 + byte_of b div 16), b64_char (byte_of b mod 16 * 4), CHR ''='']"
| "b64_encode (a # b # c # rest) =
     b64_char (byte_of a div 4) # b64_char (byte_of a mod 4 * 16 + byte_of b div 16)
       # b64_char (byte_of b mod 16 * 4 + byte_of c div 64) # b64_char (byte_of c mod 64) # b64_encode rest"

fun b64_groups :: "string \<Rightarrow> string option" where
  "b64_groups [] = Some []"
| "b64_groups (p # q # r # s # rest) =
     (case (b64_val p, b64_val q) of
        (Some p, Some q) \<Rightarrow>
          (let a = char_of (p * 4 + q div 16) in
           if r = CHR ''='' \<and> s = CHR ''='' then (if rest = [] then Some [a] else None)
           else
             (case b64_val r of
                None \<Rightarrow> None
              | Some r \<Rightarrow>
                  (let b = char_of (q mod 16 * 16 + r div 4) in
                   if s = CHR ''='' then (if rest = [] then Some [a, b] else None)
                   else
                     (case b64_val s of
                        None \<Rightarrow> None
                      | Some s \<Rightarrow>
                          (let c = char_of (r mod 4 * 64 + s) in map_option (\<lambda>t. a # b # c # t) (b64_groups rest))))))
      | _ \<Rightarrow> None)"
| "b64_groups _ = None"

definition b64_decode :: "string \<Rightarrow> string option" where
  "b64_decode s = b64_groups (filter (\<lambda>c. byte_of c \<noteq> 10 \<and> byte_of c \<noteq> 13) s)"

section \<open>Round trip\<close>

lemma of_b64_char:
  "d < 64 \<Longrightarrow> byte_of (b64_char d) = (if d < 26 then 65 + d else if d < 52 then 71 + d else if d < 62 then d - 4 else if d = 62 then 43 else 47)"
  by (simp add: b64_char_def)

lemma b64_val_char [simp]: "d < 64 \<Longrightarrow> b64_val (b64_char d) = Some d"
  by (auto simp: b64_val_def of_b64_char Let_def)

lemma b64_char_not_pad [simp]: "d < 64 \<Longrightarrow> b64_char d \<noteq> CHR ''=''"
  by (auto simp: of_b64_char dest!: arg_cong [where f = "of_char :: char \<Rightarrow> nat"] split: if_splits)

lemma b64_char_kept: "d < 64 \<Longrightarrow> byte_of (b64_char d) \<noteq> 10 \<and> byte_of (b64_char d) \<noteq> 13"
  by (auto simp: of_b64_char)

lemma byte_bound: "byte_of c < 256"
  by (rule nat_of_char_less_256)

lemma b64_sextets:
  "byte_of a div 4 < 64" "byte_of a mod 4 * 16 < 64" "byte_of a mod 4 * 16 + byte_of b div 16 < 64"
  "byte_of b mod 16 * 4 < 64" "byte_of b mod 16 * 4 + byte_of c div 64 < 64" "byte_of c mod 64 < 64"
proof -
  have "byte_of a mod 4 < 4" "byte_of b div 16 < 16" "byte_of b mod 16 < 16" "byte_of c div 64 < 4"
    using byte_bound [of b] byte_bound [of c] by (simp_all add: div_less_iff_less_mult)
  then show "byte_of a mod 4 * 16 < 64" "byte_of a mod 4 * 16 + byte_of b div 16 < 64"
    "byte_of b mod 16 * 4 < 64" "byte_of b mod 16 * 4 + byte_of c div 64 < 64" by linarith+
qed (use byte_bound [of a] in \<open>simp_all add: div_less_iff_less_mult\<close>)

lemma b64_digits [simp]:
  "byte_of b div 16 div 16 = 0" "byte_of b div 16 mod 16 = byte_of b div 16"
  "byte_of c div 64 div 4 = 0" "byte_of c div 64 mod 4 = byte_of c div 64"
  using byte_bound [of b] byte_bound [of c] by (simp_all add: div_less_iff_less_mult)

lemma b64_encode_kept: "filter (\<lambda>c. byte_of c \<noteq> 10 \<and> byte_of c \<noteq> 13) (b64_encode s) = b64_encode s"
  by (induction s rule: b64_encode.induct) (simp_all add: b64_char_kept b64_sextets)

lemma b64_groups_encode: "b64_groups (b64_encode s) = Some s"
  by (induction s rule: b64_encode.induct) (simp_all add: b64_sextets Let_def)

lemma b64_decode_encode: "b64_decode (b64_encode s) = Some s"
  by (simp add: b64_decode_def b64_encode_kept b64_groups_encode)

end
