(* ===== verification/Entitlements.thy ===== *)
theory Entitlements
  imports Go_Json Go_Base64
begin

text \<open>
  The entitlements of a user (\<open>src/entitlements/entity.go\<close>): a map from names to values of any type, and its
  JSON and base-64 forms.  The nil map is \<open>None\<close>; reading it is allowed, writing to it panics.
\<close>

type_synonym 'f entitlements = "(string \<times> 'f any) list option"

definition Wireguard :: string where "Wireguard = ''wireguard''"
definition IPRose :: string where "IPRose = ''iprose''"
definition Proxy :: string where "Proxy = ''proxy''"
definition ShapeDownstream_key :: string where "ShapeDownstream_key = ''shape_downstream''"
definition ShapeUpstream_key :: string where "ShapeUpstream_key = ''shape_upstream''"
definition Ads :: string where "Ads = ''ads''"
definition Restrictions_key :: string where "Restrictions_key = ''restrictions''"

definition lookup :: "'f entitlements \<Rightarrow> string \<Rightarrow> 'f any option" where
  "lookup s k = (case s of None \<Rightarrow> None | Some m \<Rightarrow> map_of m k)"

text \<open>\<open>s[k]\<close> is the nil interface when the key is absent.\<close>

definition index :: "'f entitlements \<Rightarrow> string \<Rightarrow> 'f any" where
  "index s k = (case lookup s k of None \<Rightarrow> ANil | Some v \<Rightarrow> v)"

definition assign :: "'f entitlements \<Rightarrow> string \<Rightarrow> 'f any \<Rightarrow> (string, 'f entitlements) outcome" where
  "assign s k v =
     (case s of None \<Rightarrow> Crash ''assignment to entry in nil map'' | Some m \<Rightarrow> Ok (Some (AList.update k v m)))"

section \<open>Conversions\<close>

fun asBool :: "'f any \<Rightarrow> bool \<times> bool" where
  "asBool (ABool v) = (v, True)"
| "asBool (AString v) = (if v = ''true'' then (True, True) else if v = ''false'' then (False, True) else (False, False))"
| "asBool _ = (False, False)"

fun asInt :: "'f any \<Rightarrow> int \<times> bool" where
  "asInt (AInt64 v) = (v, True)"
| "asInt (AInt32 v) = (v, True)"
| "asInt (AUint64 v) = (int64 v, True)"
| "asInt (AUint32 v) = (v, True)"
| "asInt (AUint v) = (int64 v, True)"
| "asInt (AInt v) = (v, True)"
| "asInt (AString v) = (case atoi v of None \<Rightarrow> (0, False) | Some i \<Rightarrow> (i, True))"
| "asInt _ = (0, False)"

section \<open>Accessors\<close>

definition SetWireguard :: "'f entitlements \<Rightarrow> bool \<Rightarrow> (string, 'f entitlements) outcome" where
  "SetWireguard s v = assign s Wireguard (ABool v)"

definition HasWireguard :: "'f entitlements \<Rightarrow> bool" where
  "HasWireguard s = fst (asBool (index s Wireguard))"

definition SetIPRose :: "'f entitlements \<Rightarrow> bool \<Rightarrow> (string, 'f entitlements) outcome" where
  "SetIPRose s v = assign s IPRose (ABool v)"

definition HasIPRose :: "'f entitlements \<Rightarrow> bool" where
  "HasIPRose s = fst (asBool (index s IPRose))"

definition SetProxy :: "'f entitlements \<Rightarrow> bool \<Rightarrow> (string, 'f entitlements) outcome" where
  "SetProxy s v = assign s Proxy (ABool v)"

definition HasProxy :: "'f entitlements \<Rightarrow> bool" where
  "HasProxy s = fst (asBool (index s Proxy))"

definition SetAds :: "'f entitlements \<Rightarrow> bool \<Rightarrow> (string, 'f entitlements) outcome" where
  "SetAds s v = assign s Ads (ABool v)"

definition HasAds :: "'f entitlements \<Rightarrow> bool" where
  "HasAds s = fst (asBool (index s Ads))"

definition IsPaid :: "'f entitlements \<Rightarrow> bool" where
  "IsPaid s \<longleftrightarrow> \<not> HasAds s"

definition IsFree :: "'f entitlements \<Rightarrow> bool" where
  "IsFree s \<longleftrightarrow> HasAds s"

definition SetShapeUpstream :: "'f entitlements \<Rightarrow> int \<Rightarrow> (string, 'f entitlements) outcome" where
  "SetShapeUpstream s v = assign s ShapeUpstream_key (AInt v)"

definition ShapeUpstream :: "'f entitlements \<Rightarrow> int \<times> bool" where
  "ShapeUpstream s = asInt (index s ShapeUpstream_key)"

definition SetShapeDownstream :: "'f entitlements \<Rightarrow> int \<Rightarrow> (string, 'f entitlements) outcome" where
  "SetShapeDownstream s v = assign s ShapeDownstream_key (AInt v)"

definition ShapeDownstream :: "'f entitlements \<Rightarrow> int \<times> bool" where
  "ShapeDownstream s = asInt (index s ShapeDownstream_key)"

definition Restrictions :: "'f entitlements \<Rightarrow> string \<times> bool" where
  "Restrictions s =
     (case lookup s Restrictions_key of
        None \<Rightarrow> ([], False)
      | Some v \<Rightarrow> (case v of AString restrictions \<Rightarrow> (restrictions, True) | _ \<Rightarrow> ([], False)))"

definition SetRestrictions :: "'f entitlements \<Rightarrow> string \<Rightarrow> (string, 'f entitlements) outcome" where
  "SetRestrictions s v = assign s Restrictions_key (AString v)"

section \<open>Text forms\<close>

definition JSON :: "('f \<Rightarrow> string) \<Rightarrow> 'f entitlements \<Rightarrow> (string, string) outcome" where
  "JSON ff s = Ok (json_marshal ff (case s of None \<Rightarrow> ANil | Some m \<Rightarrow> AObject m))"

definition Base64String :: "('f \<Rightarrow> string) \<Rightarrow> 'f entitlements \<Rightarrow> (string, string) outcome" where
  "Base64String ff s =
     (case JSON ff s of
        Ok j \<Rightarrow> Ok (b64_encode j)
      | Err e \<Rightarrow> Err e
      | Crash m \<Rightarrow> Crash m)"

text \<open>A JSON object fills the map, \<open>null\<close> makes it nil, anything else is an error.\<close>

definition ParseJSON :: "(string \<Rightarrow> 'f option) \<Rightarrow> string \<Rightarrow> (string, 'f entitlements) outcome" where
  "ParseJSON pf v =
     (case json_read pf v of
        None \<Rightarrow> Err ''invalid JSON''
      | Some (AObject m) \<Rightarrow> Ok (Some m)
      | Some ANil \<Rightarrow> Ok None
      | Some _ \<Rightarrow> Err ''cannot unmarshal into Entitlements'')"

definition FromBase64String :: "(string \<Rightarrow> 'f option) \<Rightarrow> string \<Rightarrow> (string, 'f entitlements) outcome" where
  "FromBase64String pf v =
     (case b64_decode v of None \<Rightarrow> Err ''illegal base64 data'' | Some j \<Rightarrow> ParseJSON pf j)"

definition AsMap :: "'f entitlements \<Rightarrow> 'f entitlements" where
  "AsMap s = s"

section \<open>Setting and getting\<close>

lemma index_update: "index (Some (AList.update k v m)) k' = (if k' = k then v else index (Some m) k')"
  by (simp add: index_def lookup_def update_conv' fun_upd_apply)

lemma lookup_update: "lookup (Some (AList.update k v m)) k' = (if k' = k then Some v else lookup (Some m) k')"
  by (simp add: lookup_def update_conv' fun_upd_apply)

lemmas key_defs = Wireguard_def IPRose_def Proxy_def ShapeDownstream_key_def ShapeUpstream_key_def Ads_def Restrictions_key_def

lemma set_then_has:
  "SetWireguard (Some m) b = Ok e \<Longrightarrow> HasWireguard e = b"
  "SetIPRose (Some m) b = Ok e \<Longrightarrow> HasIPRose e = b"
  "SetProxy (Some m) b = Ok e \<Longrightarrow> HasProxy e = b"
  "SetAds (Some m) b = Ok e \<Longrightarrow> IsFree e = b \<and> IsPaid e = (\<not> b)"
  "SetShapeUpstream (Some m) i = Ok e \<Longrightarrow> ShapeUpstream e = (i, True) \<and> ShapeDownstream e = ShapeDownstream (Some m)"
  "SetShapeDownstream (Some m) i = Ok e \<Longrightarrow> ShapeDownstream e = (i, True) \<and> ShapeUpstream e = ShapeUpstream (Some m)"
  "SetRestrictions (Some m) r = Ok e \<Longrightarrow> Restrictions e = (r, True)"
  by (auto simp: SetWireguard_def HasWireguard_def SetIPRose_def HasIPRose_def SetProxy_def HasProxy_def SetAds_def HasAds_def
      IsFree_def IsPaid_def SetShapeUpstream_def ShapeUpstream_def SetShapeDownstream_def ShapeDownstream_def
      SetRestrictions_def Restrictions_def assign_def index_update lookup_update key_defs)

section \<open>Through the text form\<close>

lemma map_of_sort_key: "distinct (map fst m) \<Longrightarrow> map_of (sort_key fst m) = map_of m"
proof -
  assume d: "distinct (map fst m)"
  moreover from d have "distinct (map fst (sort_key fst m))" by (simp add: distinct_map inj_on_def)
  ultimately show ?thesis by (intro map_of_inject_set [THEN iffD2]) simp_all
qed

lemma map_of_map_snd: "map_of (map (\<lambda>p. (fst p, f (snd p))) m) k = map_option f (map_of m k)"
  by (induction m) auto

lemma FromBase64String_flat:
  assumes "reads_integers pf" and "distinct (map fst m)" and "\<forall>p \<in> set m. ascii (fst p) \<and> flat (snd p)"
  obtains t e where "Base64String ff (Some m) = Ok t" "FromBase64String pf t = Ok e"
    "\<forall>k. lookup e k = map_option (reread pf) (map_of m k)"
proof -
  let ?e = "Some (map (\<lambda>p. (fst p, reread pf (snd p))) (sort_key fst m))"
  have "FromBase64String pf (b64_encode (json_marshal ff (AObject m))) = Ok ?e"
    using json_read_flat [OF assms, of ff] by (simp add: FromBase64String_def ParseJSON_def b64_decode_encode)
  moreover have "lookup ?e k = map_option (reread pf) (map_of m k)" for k
    by (simp add: lookup_def map_of_map_snd map_of_sort_key [OF assms(2)])
  ultimately show thesis using that by (simp add: Base64String_def JSON_def)
qed

lemma asBool_reread: "flat v \<Longrightarrow> asBool (reread pf v) = asBool v"
  by (cases v) auto

definition is_text :: "'f any \<Rightarrow> bool" where
  "is_text v \<longleftrightarrow> (\<exists>s. v = AString s)"

lemma asInt_reread: "flat v \<Longrightarrow> asInt (reread pf v) = (if is_text v then asInt v else (0, False))"
  by (cases v) (auto simp: is_text_def)

text \<open>C24: entitlements that are sent as text keep their flags and their restrictions, but lose their
  numbers: whatever was set by \<open>SetShapeUpstream\<close> or \<open>SetShapeDownstream\<close> is read back as a \<open>float64\<close>, which
  \<open>asInt\<close> does not know, so the receiver finds no limit.  Only limits given as strings survive.\<close>

theorem entitlements_lose_numbers:
  fixes ff :: "'f \<Rightarrow> string" and pf :: "string \<Rightarrow> 'f option"
  assumes "reads_integers pf" and "distinct (map fst m)" and "\<forall>p \<in> set m. ascii (fst p) \<and> flat (snd p)"
  shows "\<exists>text e. Base64String ff (Some m) = Ok text \<and> FromBase64String pf text = Ok e
    \<and> HasWireguard e = HasWireguard (Some m) \<and> HasIPRose e = HasIPRose (Some m) \<and> HasProxy e = HasProxy (Some m)
    \<and> IsPaid e = IsPaid (Some m) \<and> Restrictions e = Restrictions (Some m)
    \<and> ShapeUpstream e = (if is_text (index (Some m) ShapeUpstream_key) then ShapeUpstream (Some m) else (0, False))
    \<and> ShapeDownstream e = (if is_text (index (Some m) ShapeDownstream_key) then ShapeDownstream (Some m) else (0, False))"
proof -
  obtain t e where e: "Base64String ff (Some m) = Ok t" "FromBase64String pf t = Ok e"
    "\<forall>k. lookup e k = map_option (reread pf) (map_of m k)"
    by (rule FromBase64String_flat [OF assms, of ff])
  have flat: "flat v" if "map_of m k = Some v" for k v using assms(3) map_of_SomeD [OF that] by auto
  have m: "lookup (Some m) k = map_of m k" for k by (simp add: lookup_def)
  have b: "asBool (index e k) = asBool (index (Some m) k)" for k
    using flat [of k] by (auto simp: index_def e(3) asBool_reread m split: option.split)
  have i: "asInt (index e k) = (if is_text (index (Some m) k) then asInt (index (Some m) k) else (0, False))" for k
    using flat [of k] by (auto simp: index_def e(3) asInt_reread m is_text_def split: option.split)
  have r: "Restrictions e = Restrictions (Some m)"
  proof (cases "map_of m Restrictions_key")
    case (Some v)
    then show ?thesis using flat [OF Some] by (cases v) (auto simp: Restrictions_def e(3) m)
  qed (simp add: Restrictions_def e(3) m)
  show ?thesis
    by (rule exI [of _ t], rule exI [of _ e])
      (simp add: e(1,2) b i r HasWireguard_def HasIPRose_def HasProxy_def IsPaid_def HasAds_def ShapeUpstream_def ShapeDownstream_def)
qed

theorem entitlements_lose_numbers_witness:
  "\<exists>text e. Base64String (\<lambda>x. x) (Some [(''wireguard'', ABool True), (''shape_upstream'', AInt 512)]) = Ok text
    \<and> FromBase64String Some text = Ok e \<and> HasWireguard e \<and> ShapeUpstream e = (0, False)
    \<and> ShapeUpstream (Some [(''wireguard'', ABool True :: string any), (''shape_upstream'', AInt 512)]) = (512, True)"
proof -
  have "reads_integers Some" by (simp add: reads_integers_def)
  from entitlements_lose_numbers [OF this, of "[(''wireguard'', ABool True), (''shape_upstream'', AInt 512)]" "\<lambda>x. x"]
  show ?thesis
    by (auto simp: ascii_def key_defs index_def lookup_def is_text_def HasWireguard_def ShapeUpstream_def)
qed

end
