(* ===== verification/Capabilities.thy ===== *)
theory Capabilities
  imports Go_Strings
begin

text \<open>
  Sets of client capabilities and their text form (\<open>src/capabilities/capabilities.go\<close>).  A nil pointer to a
  set or to a string is \<open>None\<close>; \<open>strings.ToLower\<close> is modelled on the ASCII letters, which is enough to
  compare with an ASCII name.
\<close>

record Capability =
  cap_id :: string
  cap_name :: string

type_synonym CapabilitySet = "Capability list"

definition ErrUnknown :: string where "ErrUnknown = ''unknown capability''"

definition CapabilityGhost :: Capability where
  "CapabilityGhost = \<lparr>cap_id = ''gh'', cap_name = ''Ghost''\<rparr>"

definition ParseCapability :: "string \<Rightarrow> (string, Capability) outcome" where
  "ParseCapability str = (if ToLower str = ''gh'' then Ok CapabilityGhost else Err ErrUnknown)"

definition Is :: "Capability \<Rightarrow> Capability \<Rightarrow> bool" where
  "Is s other \<longleftrightarrow> cap_id s = cap_id other"

definition Capability_String :: "Capability \<Rightarrow> string" where
  "Capability_String s = cap_name s"

definition Contains :: "CapabilitySet option \<Rightarrow> Capability \<Rightarrow> bool" where
  "Contains s c = (case s of None \<Rightarrow> False | Some cs \<Rightarrow> list_ex (\<lambda>sc. Is sc c) cs)"

definition Set_cap :: "CapabilitySet \<Rightarrow> Capability \<Rightarrow> CapabilitySet" where
  "Set_cap s c = (if \<not> Contains (Some s) c then s @ [c] else s)"

definition NewCapabilitySet :: "Capability list \<Rightarrow> CapabilitySet" where
  "NewCapabilitySet caps = fold (\<lambda>c s. Set_cap s c) caps []"

fun parse_tokens :: "bool \<Rightarrow> string list \<Rightarrow> CapabilitySet \<Rightarrow> (string, CapabilitySet option) outcome" where
  "parse_tokens ignoreUnknown [] result = Ok (Some result)"
| "parse_tokens ignoreUnknown (t # ts) result =
     (case ParseCapability t of
        Ok c \<Rightarrow> parse_tokens ignoreUnknown ts (Set_cap result c)
      | _ \<Rightarrow> if ignoreUnknown then parse_tokens ignoreUnknown ts result else Err ErrUnknown)"

definition ParseCapabilitySetPtr :: "string option \<Rightarrow> bool \<Rightarrow> (string, CapabilitySet option) outcome" where
  "ParseCapabilitySetPtr str ignoreUnknown =
     (case str of None \<Rightarrow> Ok None | Some str \<Rightarrow> parse_tokens ignoreUnknown (split_char (CHR '','') str) [])"

definition ParseCapabilitySet :: "string \<Rightarrow> bool \<Rightarrow> (string, CapabilitySet option) outcome" where
  "ParseCapabilitySet str ignoreUnknown = ParseCapabilitySetPtr (Some str) ignoreUnknown"

definition MustParseCapabilitySetPtr :: "string option \<Rightarrow> CapabilitySet option" where
  "MustParseCapabilitySetPtr str = (case ParseCapabilitySetPtr str True of Ok c \<Rightarrow> c | _ \<Rightarrow> None)"

definition MustParseCapabilitySet :: "string \<Rightarrow> CapabilitySet option" where
  "MustParseCapabilitySet str = (case ParseCapabilitySet str True of Ok c \<Rightarrow> c | _ \<Rightarrow> None)"

definition CapabilitySet_String :: "CapabilitySet option \<Rightarrow> string" where
  "CapabilitySet_String s =
     (case s of
        None \<Rightarrow> []
      | Some [] \<Rightarrow> []
      | Some (c # cs) \<Rightarrow> fold (\<lambda>c result. result @ CHR '','' # cap_id c) cs (cap_id c))"

definition Stringp :: "CapabilitySet option \<Rightarrow> string option" where
  "Stringp s = Some (CapabilitySet_String s)"

section \<open>Sets\<close>

text \<open>No two members of a set have the same identifier.\<close>

definition set_ok :: "CapabilitySet \<Rightarrow> bool" where
  "set_ok s \<longleftrightarrow> distinct (map cap_id s)"

lemma Contains_iff: "Contains (Some s) c \<longleftrightarrow> cap_id c \<in> cap_id ` set s"
  by (auto simp: Contains_def list_ex_iff Is_def intro: rev_image_eqI)

lemma Set_cap_ok: "set_ok s \<Longrightarrow> set_ok (Set_cap s c)"
  by (auto simp: set_ok_def Set_cap_def Contains_iff)

lemma Contains_Set_cap: "Contains (Some (Set_cap s c)) d \<longleftrightarrow> Is c d \<or> Contains (Some s) d"
  by (auto simp: Set_cap_def Contains_iff Is_def)

lemma fold_Set_cap:
  "set_ok s \<Longrightarrow> set_ok (fold (\<lambda>c s. Set_cap s c) caps s)"
  "Contains (Some (fold (\<lambda>c s. Set_cap s c) caps s)) d \<longleftrightarrow> Contains (Some s) d \<or> (\<exists>c \<in> set caps. Is c d)"
  by (induction caps arbitrary: s) (auto simp: Set_cap_ok Contains_Set_cap)

lemma NewCapabilitySet_spec:
  "set_ok (NewCapabilitySet caps)" "Contains (Some (NewCapabilitySet caps)) d \<longleftrightarrow> (\<exists>c \<in> set caps. Is c d)"
  using fold_Set_cap(1) [of "[]" caps] fold_Set_cap(2) [of caps "[]" d]
  by (simp_all add: NewCapabilitySet_def set_ok_def Contains_def)

section \<open>Parsing\<close>

lemma parse_tokens_ignoring:
  "parse_tokens True ts s = Ok (Some (fold (\<lambda>t s. case ParseCapability t of Ok c \<Rightarrow> Set_cap s c | _ \<Rightarrow> s) ts s))"
  by (induction ts arbitrary: s) (auto split: outcome.split)

lemma ParseCapability_cases: "ParseCapability t = Ok CapabilityGhost \<or> ParseCapability t = Err ErrUnknown"
  by (simp add: ParseCapability_def)

text \<open>Without unknown names a list parses to the set of its names; with one it fails, unless unknown
  names are ignored.  The text of the empty set is the empty string, which is one unknown name.\<close>

lemma ParseCapabilitySet_strict:
  "ParseCapabilitySet str False =
     (if \<forall>t \<in> set (split_char (CHR '','') str). ToLower t = ''gh'' then Ok (Some [CapabilityGhost]) else Err ErrUnknown)"
proof -
  have strict: "parse_tokens False ts s = (if \<forall>t \<in> set ts. ToLower t = ''gh'' then Ok (Some (if ts = [] then s else [CapabilityGhost])) else Err ErrUnknown)"
    if "s = [] \<or> s = [CapabilityGhost]" for ts s
    using that
  proof (induction ts arbitrary: s)
    case (Cons t ts)
    have "Set_cap s CapabilityGhost = [CapabilityGhost]" using Cons.prems by (auto simp: Set_cap_def Contains_def Is_def)
    then show ?case using Cons.IH [of "[CapabilityGhost]"] by (simp add: ParseCapability_def)
  qed auto
  obtain y ys where "split_char (CHR '','') str = y # ys" using split_char_Cons by blast
  then show ?thesis using strict [of "[]" "split_char (CHR '','') str"] by (simp add: ParseCapabilitySet_def ParseCapabilitySetPtr_def)
qed

lemma empty_set_does_not_parse:
  "CapabilitySet_String (Some []) = []" "ParseCapabilitySet [] False = Err ErrUnknown" "MustParseCapabilitySet [] = Some []"
  by (simp_all add: CapabilitySet_String_def ParseCapabilitySet_strict ToLower_def MustParseCapabilitySet_def
      ParseCapabilitySet_def ParseCapabilitySetPtr_def ParseCapability_def)

lemma ghost_set_roundtrip: "ParseCapabilitySet (CapabilitySet_String (Some [CapabilityGhost])) strict = Ok (Some [CapabilityGhost])"
  by (cases strict) (simp_all add: CapabilitySet_String_def CapabilityGhost_def ParseCapabilitySet_def ParseCapabilitySetPtr_def
      ParseCapability_def ToLower_def lower_char_def Set_cap_def Contains_def)

end
