(* ===== verification/Dnsbase.thy ===== *)
theory Dnsbase
  imports Go_Strings
begin

text \<open>
  The domain base of the DNS server (\<open>src/xdns/server/dnsbase\<close>) and the plugin that blocks the domains in it
  (\<open>src/xdns/server/plugin/blockreq.go\<close>).  The SQL database is an argument: a record with one function for each
  statement that the sources prepare, on a state of its own.  Nodes of the base are rows that name their
  parent; the labels of a domain are processed from the right, so a path is the reversed list of labels.
\<close>

section \<open>The database\<close>

datatype sql_error = ErrNoRows | OtherError string

record 'db sql =
  sel :: "string \<Rightarrow> int \<Rightarrow> 'db \<Rightarrow> (sql_error, int \<times> string option) outcome"
  ins :: "string \<Rightarrow> int \<Rightarrow> string option \<Rightarrow> 'db \<Rightarrow> (sql_error, int) outcome \<times> 'db"
  upd :: "int \<Rightarrow> string option \<Rightarrow> 'db \<Rightarrow> (sql_error, nat) outcome \<times> 'db"
  del :: "int \<Rightarrow> 'db \<Rightarrow> (sql_error, unit) outcome \<times> 'db"
  tx_begin :: "'db \<Rightarrow> (sql_error, 'db) outcome"
  tx_commit :: "'db \<Rightarrow> 'db option"

datatype dns_error =
    InvalidName
  | NoMatches
  | Sql sql_error
  | LookupFailed sql_error
  | TooFewParts
  | InnerWildcard
  | EmptyCategories
  | NoTransaction
  | AlreadyExists
  | RowsAffected nat

section \<open>Domains\<close>

type_synonym Categories = "string list"

definition Categories_Value :: "Categories \<Rightarrow> string option" where
  "Categories_Value c = (if length c = 0 then None else Some (join_char (CHR '','') c))"

text \<open>\<open>None\<close> is the nil slice, which a column that is NULL or empty leaves.\<close>

definition Categories_Scan :: "string option \<Rightarrow> Categories option" where
  "Categories_Scan v =
     (case v of None \<Rightarrow> None | Some s \<Rightarrow> if length s > 0 then Some (split_char (CHR '','') s) else None)"

datatype Domain =
  Domain (ID: int) (ParentID: int) (Name: string) (Domain_Categories: "Categories option") (Parent: "Domain option")

fun with_parent :: "Domain \<Rightarrow> Domain \<Rightarrow> Domain" where
  "with_parent (Domain i pid n c p) parent = Domain i pid n c (Some parent)"

fun chain :: "Domain \<Rightarrow> string list" where
  "chain (Domain i pid n c p) = n # (case p of None \<Rightarrow> [] | Some d \<Rightarrow> chain d)"

definition Unchain :: "Domain \<Rightarrow> string" where
  "Unchain d = join_char (CHR ''.'') (chain d)"

definition isChild :: "Domain \<Rightarrow> bool" where
  "isChild d \<longleftrightarrow> Domain_Categories d \<noteq> None"

text \<open>\<open>s[len(s)-1]\<close> panics on the empty string.\<close>

definition normalizeDomain :: "string \<Rightarrow> (dns_error, string) outcome" where
  "normalizeDomain s =
     (if s = [] then Crash ''index out of range'' else Ok (if last s = CHR ''.'' then butlast s else s))"

section \<open>Lookup\<close>

definition lookupRecord :: "'db sql \<Rightarrow> 'db \<Rightarrow> string \<Rightarrow> int \<Rightarrow> (sql_error, Domain) outcome" where
  "lookupRecord q db name pid =
     (case sel q name pid db of
        Ok (i, c) \<Rightarrow> Ok (Domain i pid name (Categories_Scan c) None)
      | Err e \<Rightarrow> Err e
      | Crash m \<Rightarrow> Crash m)"

definition lookupParent :: "'db sql \<Rightarrow> 'db \<Rightarrow> string \<Rightarrow> (sql_error, Domain) outcome" where
  "lookupParent q db name = lookupRecord q db name 0"

definition lookupSubdomain :: "'db sql \<Rightarrow> 'db \<Rightarrow> string \<Rightarrow> int \<Rightarrow> (sql_error, Domain) outcome" where
  "lookupSubdomain q db name pid = lookupRecord q db name pid"

fun lookup_loop :: "'db sql \<Rightarrow> 'db \<Rightarrow> string list \<Rightarrow> Domain \<Rightarrow> Domain option \<Rightarrow> (dns_error, Domain) outcome" where
  "lookup_loop q db [] parent wildcard = (if \<not> isChild parent then Err NoMatches else Ok parent)"
| "lookup_loop q db (part # parts) parent wildcard =
     (let wildcard = (case lookupSubdomain q db ''*'' (ID parent) of Ok wc \<Rightarrow> Some wc | _ \<Rightarrow> wildcard) in
      case lookupSubdomain q db part (ID parent) of
        Ok sub \<Rightarrow> lookup_loop q db parts (with_parent sub parent) wildcard
      | Err e \<Rightarrow> (case wildcard of Some wc \<Rightarrow> Ok (with_parent wc parent) | None \<Rightarrow> Err (Sql e))
      | Crash m \<Rightarrow> Crash m)"

definition Lookup :: "'db sql \<Rightarrow> 'db \<Rightarrow> string \<Rightarrow> (dns_error, Domain) outcome" where
  "Lookup q db name =
     (if length name < 2 then Err InvalidName
      else
        (case normalizeDomain name of
           Ok name \<Rightarrow>
             (let parts = split_char (CHR ''.'') name in
              if length parts < 2 then Err InvalidName
              else
                (case lookupParent q db (last parts) of
                   Ok parent \<Rightarrow> lookup_loop q db (tl (rev parts)) parent None
                 | Err e \<Rightarrow> Err (Sql e)
                 | Crash m \<Rightarrow> Crash m))
         | Err e \<Rightarrow> Err e
         | Crash m \<Rightarrow> Crash m))"

section \<open>Writing\<close>

definition validateDomain :: "string list \<Rightarrow> dns_error option" where
  "validateDomain parts =
     (if length parts < 2 then Some TooFewParts
      else if list_ex (\<lambda>p. p = ''*'') (tl parts) then Some InnerWildcard
      else None)"

definition insertRecord :: "'db sql \<Rightarrow> string \<Rightarrow> int \<Rightarrow> Categories \<Rightarrow> 'db \<Rightarrow> (sql_error, int) outcome \<times> 'db" where
  "insertRecord q name pid cats db = ins q name pid (Categories_Value cats) db"

definition updateRecordCategories :: "'db sql \<Rightarrow> int \<Rightarrow> Categories \<Rightarrow> 'db \<Rightarrow> (dns_error, unit) outcome \<times> 'db" where
  "updateRecordCategories q i cats db =
     (if i = 0 then (Crash ''empty id'', db)
      else if length cats = 0 then (Crash ''no cats'', db)
      else
        (case upd q i (Categories_Value cats) db of
           (Ok ra, db) \<Rightarrow> (if ra \<noteq> 1 then Err (RowsAffected ra) else Ok (), db)
         | (Err e, db) \<Rightarrow> (Err (Sql e), db)
         | (Crash m, db) \<Rightarrow> (Crash m, db)))"

fun write_loop :: "'db sql \<Rightarrow> Categories \<Rightarrow> string list \<Rightarrow> int \<Rightarrow> 'db \<Rightarrow> (dns_error, int) outcome \<times> 'db" where
  "write_loop q cats [] parentID db = (Ok parentID, db)"
| "write_loop q cats (part # parts) parentID db =
     (case lookupRecord q db part parentID of
        Ok d \<Rightarrow>
          if parts = [] \<and> isChild d then (Err AlreadyExists, db) else write_loop q cats parts (ID d) db
      | Err ErrNoRows \<Rightarrow>
          (case insertRecord q part parentID (if parts = [] then cats else []) db of
             (Ok pid, db) \<Rightarrow> write_loop q cats parts pid db
           | (Err e, db) \<Rightarrow> (Err (Sql e), db)
           | (Crash m, db) \<Rightarrow> (Crash m, db))
      | Err e \<Rightarrow> (Err (LookupFailed e), db)
      | Crash m \<Rightarrow> (Crash m, db))"

text \<open>The deferred function: a transaction that is not committed, or whose commit fails, leaves the base as it
  was; the error of the commit is dropped.\<close>

definition finish_tx :: "'db sql \<Rightarrow> 'db \<Rightarrow> (dns_error, unit) outcome \<times> 'db \<Rightarrow> (dns_error, unit) outcome \<times> 'db" where
  "finish_tx q db0 r =
     (case r of
        (Ok u, db) \<Rightarrow> (Ok u, case tx_commit q db of Some db \<Rightarrow> db | None \<Rightarrow> db0)
      | (res, db) \<Rightarrow> (res, db0))"

definition write_tx :: "'db sql \<Rightarrow> Categories \<Rightarrow> string list \<Rightarrow> 'db \<Rightarrow> (dns_error, unit) outcome \<times> 'db" where
  "write_tx q cats parts db =
     (case write_loop q cats (rev parts) 0 db of
        (Ok parentID, db) \<Rightarrow> updateRecordCategories q parentID cats db
      | (Err e, db) \<Rightarrow> (Err e, db)
      | (Crash m, db) \<Rightarrow> (Crash m, db))"

definition Write :: "'db sql \<Rightarrow> string \<Rightarrow> Categories \<Rightarrow> 'db \<Rightarrow> (dns_error, unit) outcome \<times> 'db" where
  "Write q domain cats db =
     (case normalizeDomain domain of
        Ok domain \<Rightarrow>
          (let parts = split_char (CHR ''.'') domain in
           case validateDomain parts of
             Some e \<Rightarrow> (Err e, db)
           | None \<Rightarrow>
               if length cats = 0 then (Err EmptyCategories, db)
               else
                 (case tx_begin q db of
                    Ok tx \<Rightarrow> finish_tx q db (write_tx q cats parts tx)
                  | Err e \<Rightarrow> (Err NoTransaction, db)
                  | Crash m \<Rightarrow> (Crash m, db)))
      | Err e \<Rightarrow> (Err e, db)
      | Crash m \<Rightarrow> (Crash m, db))"

definition Delete :: "'db sql \<Rightarrow> int \<Rightarrow> 'db \<Rightarrow> (dns_error, unit) outcome \<times> 'db" where
  "Delete q i db =
     (case del q i db of
        (Ok u, db) \<Rightarrow> (Ok (), db)
      | (Err e, db) \<Rightarrow> (Err (Sql e), db)
      | (Crash m, db) \<Rightarrow> (Crash m, db))"

section \<open>The table as a tree\<close>

text \<open>What the statements do to the rows: keyed by parent and name (a unique index), each with its id and
  category.  Reads succeed; writes may fail, and then the transaction is rolled back.\<close>

type_synonym table = "int \<times> string \<Rightarrow> (int \<times> string option) option"

definition is_table :: "'db sql \<Rightarrow> ('db \<Rightarrow> table) \<Rightarrow> bool" where
  "is_table q tbl \<longleftrightarrow>
     (\<forall>n p db. sel q n p db = (case tbl db (p, n) of None \<Rightarrow> Err ErrNoRows | Some r \<Rightarrow> Ok r))
     \<and> (\<forall>n p c db i db'. ins q n p c db = (Ok i, db') \<longrightarrow>
          tbl db (p, n) = None \<and> i \<noteq> 0 \<and> (\<forall>k v. tbl db k = Some v \<longrightarrow> fst v \<noteq> i) \<and> tbl db' = (tbl db)((p, n) \<mapsto> (i, c)))
     \<and> (\<forall>i c db ra db' k d. upd q i c db = (Ok ra, db') \<longrightarrow> tbl db k = Some (i, d) \<longrightarrow>
          (\<forall>k' d'. tbl db k' = Some (i, d') \<longrightarrow> k' = k) \<longrightarrow> tbl db' = (tbl db)(k \<mapsto> (i, c)))
     \<and> (\<forall>db db'. tx_begin q db = Ok db' \<longrightarrow> tbl db' = tbl db)
     \<and> (\<forall>db. \<exists>db'. tx_commit q db = Some db' \<and> tbl db' = tbl db)"

fun walk :: "table \<Rightarrow> int \<Rightarrow> string list \<Rightarrow> int option" where
  "walk t i [] = Some i"
| "walk t i (l # ls) = (case t (i, l) of None \<Rightarrow> None | Some (j, c) \<Rightarrow> walk t j ls)"

text \<open>The row at the end of a path, and the category that the path has, if it is there.\<close>

definition entry :: "table \<Rightarrow> string list \<Rightarrow> (int \<times> string option) option" where
  "entry t p = (if p = [] then None else case walk t 0 (butlast p) of None \<Rightarrow> None | Some i \<Rightarrow> t (i, last p))"

definition view :: "table \<Rightarrow> string list \<Rightarrow> string option option" where
  "view t p = map_option snd (entry t p)"

definition tree :: "table \<Rightarrow> bool" where
  "tree t \<longleftrightarrow>
     (\<forall>k v. t k = Some v \<longrightarrow> fst v \<noteq> 0)
     \<and> (\<forall>k k' v v'. t k = Some v \<longrightarrow> t k' = Some v' \<longrightarrow> fst v = fst v' \<longrightarrow> k = k')
     \<and> (\<forall>p n v. t (p, n) = Some v \<longrightarrow> p = 0 \<or> (\<exists>k c. t k = Some (p, c)))"

lemma treeI:
  assumes "\<And>k i c. t k = Some (i, c) \<Longrightarrow> i \<noteq> 0" and "\<And>k k' i c c'. t k = Some (i, c) \<Longrightarrow> t k' = Some (i, c') \<Longrightarrow> k = k'"
    and "\<And>p n i c. t (p, n) = Some (i, c) \<Longrightarrow> p = 0 \<or> (\<exists>k c. t k = Some (p, c))"
  shows "tree t"
  unfolding tree_def
proof (intro conjI allI impI)
  fix k k' v v' assume "t k = Some v" "t k' = Some v'" "fst v = fst v'"
  then show "k = k'" using assms(2) [of k "fst v" "snd v" k' "snd v'"] by (metis prod.collapse)
next
  fix k v assume "t k = Some v"
  then show "fst v \<noteq> 0" using assms(1) [of k "fst v" "snd v"] by simp
next
  fix p n v assume "t (p, n) = Some v"
  then show "p = 0 \<or> (\<exists>k c. t k = Some (p, c))" using assms(3) [of p n "fst v" "snd v"] by simp
qed

lemma treeD:
  assumes "tree t"
  shows "t k = Some (i, c) \<Longrightarrow> i \<noteq> 0" "t k = Some (i, c) \<Longrightarrow> t k' = Some (i, c') \<Longrightarrow> k = k'"
    "t (p, n) = Some v \<Longrightarrow> p = 0 \<or> (\<exists>k c. t k = Some (p, c))"
  using assms unfolding tree_def by (metis fst_conv)+

lemma walk_append: "walk t i (p @ q) = (case walk t i p of None \<Rightarrow> None | Some j \<Rightarrow> walk t j q)"
  by (induction t i p rule: walk.induct) (auto split: option.split)

lemma entry_snoc: "entry t (p @ [n]) = (case walk t 0 p of None \<Rightarrow> None | Some i \<Rightarrow> t (i, n))"
  by (simp add: entry_def split: option.split)

lemma entry_Nil [simp]: "entry t [] = None"
  by (simp add: entry_def)

lemma walk_snoc: "walk t 0 (p @ [n]) = map_option fst (entry t (p @ [n]))"
  by (auto simp: walk_append entry_snoc split: option.split)

lemma walk_step: "walk t 0 (p @ [n]) = (case walk t 0 p of None \<Rightarrow> None | Some j \<Rightarrow> map_option fst (t (j, n)))"
  by (auto simp: walk_snoc entry_snoc split: option.split)

lemma walk_entry: "p \<noteq> [] \<Longrightarrow> walk t 0 p = map_option fst (entry t p)"
  by (cases p rule: rev_cases) (simp_all add: walk_snoc)

lemma walk_inj:
  assumes "tree t" and "walk t 0 p = Some i" and "walk t 0 q = Some i"
  shows "p = q"
  using assms(2,3)
proof (induction p arbitrary: q i rule: rev_induct)
  case Nil
  then show ?case
  proof (cases q rule: rev_cases)
    case (snoc q' n)
    then obtain j c where "t (j, n) = Some (0, c)" using Nil by (auto simp: walk_append split: option.splits)
    then show ?thesis using assms(1) by (auto simp: tree_def)
  qed simp
next
  case (snoc n p)
  obtain j c where p: "walk t 0 p = Some j" "t (j, n) = Some (i, c)" using snoc.prems(1) by (auto simp: walk_append split: option.splits)
  have "i \<noteq> 0" using assms(1) p(2) by (auto simp: tree_def)
  then obtain q' m where q: "q = q' @ [m]" using snoc.prems(2) by (cases q rule: rev_cases) auto
  then obtain k d where q': "walk t 0 q' = Some k" "t (k, m) = Some (i, d)" using snoc.prems(2) by (auto simp: walk_append split: option.splits)
  have "(j, n) = (k, m)" using assms(1) p(2) q'(2) unfolding tree_def by (metis fst_conv)
  then show ?case using snoc.IH [OF p(1), of q'] q q'(1) by simp
qed

text \<open>A new row below a node of the tree.\<close>

lemma insert_row:
  assumes "tree t" and pre: "walk t 0 pre = Some pid" and new: "t (pid, l) = None" and i: "i \<noteq> 0" "\<forall>k v. t k = Some v \<longrightarrow> fst v \<noteq> i"
    and t': "t' = t((pid, l) \<mapsto> (i, c))"
  shows "tree t'" and "entry t' p = (if p = pre @ [l] then Some (i, c) else entry t p)"
proof -
  have t'_at: "t' k = (if k = (pid, l) then Some (i, c) else t k)" for k by (simp add: t')
  have t'_pair: "t' (j, n) = (if j = pid \<and> n = l then Some (i, c) else t (j, n))" for j n by (simp add: t')
  have pid: "pid = 0 \<or> (\<exists>k c. t k = Some (pid, c))"
    using pre by (cases pre rule: rev_cases) (auto simp: walk_append split: option.splits)
  have leaf: "t (i, n) = None" for n using treeD(3) [OF assms(1), of i n] i by force
  have "i \<noteq> pid" using pid i by force
  then have leaf': "t' (i, n) = None" for n using leaf by (simp add: t'_at)
  show "tree t'"
  proof (rule treeI)
    fix p n j d assume "t' (p, n) = Some (j, d)"
    then have "p = pid \<or> t (p, n) = Some (j, d)" by (auto simp: t'_at split: if_splits)
    then have "p = 0 \<or> (\<exists>k c. t k = Some (p, c))" using pid treeD(3) [OF assms(1)] by blast
    then show "p = 0 \<or> (\<exists>k c. t' k = Some (p, c))" using new by (metis t'_at option.distinct(1))
  next
    fix k j d assume "t' k = Some (j, d)"
    then show "j \<noteq> 0" using i treeD(1) [OF assms(1)] by (auto simp: t'_at split: if_splits)
  next
    fix k k' j d d' assume "t' k = Some (j, d)" "t' k' = Some (j, d')"
    moreover have "t k'' \<noteq> Some (i, e)" for k'' e using i(2) by (metis fst_conv)
    ultimately show "k = k'" using treeD(2) [OF assms(1), of k j d k' d'] by (auto simp: t'_at split: if_splits)
  qed
  have at: "walk t 0 p = Some pid \<longleftrightarrow> p = pre" for p using walk_inj [OF assms(1) _ pre, of p] pre by auto
  have stop: "walk t 0 (pre @ [l]) = None" using pre new by (simp add: walk_append)
  have w: "walk t' 0 p = (if p = pre @ [l] then Some i else walk t 0 p)" for p
  proof (induction p rule: rev_induct)
    case (snoc n p)
    show ?case
    proof (cases "p = pre @ [l]")
      case True
      then have "walk t' 0 p = Some i" "walk t 0 p = None" "p @ [n] \<noteq> pre @ [l]" using snoc.IH stop by simp_all
      then show ?thesis using leaf' by (simp add: walk_step)
    next
      case False
      then have "walk t' 0 p = walk t 0 p" using snoc.IH by simp
      then show ?thesis using at [of p] by (auto simp: walk_step t'_pair split: option.split)
    qed
  qed simp
  show "entry t' p = (if p = pre @ [l] then Some (i, c) else entry t p)"
  proof (cases p rule: rev_cases)
    case (snoc p' n)
    show ?thesis
      using w [of p'] leaf' at [of p'] stop by (auto simp: snoc entry_snoc t'_pair split: option.split)
  qed simp
qed

text \<open>A new category in a row.\<close>

lemma update_row:
  assumes "tree t" and "entry t p0 = Some (i, d)" and k: "t k = Some (i, d)"
  shows "tree (t(k \<mapsto> (i, c)))" and "entry (t(k \<mapsto> (i, c))) p = (if p = p0 then Some (i, c) else entry t p)"
proof -
  let ?t = "t(k \<mapsto> (i, c))"
  have same: "\<exists>d. t k' = Some (j, d)" if "?t k' = Some (j, d')" for k' j d' using that k by (auto split: if_splits)
  show "tree ?t"
  proof (rule treeI)
    fix p n j d assume "?t (p, n) = Some (j, d)"
    then have "p = 0 \<or> (\<exists>k c. t k = Some (p, c))" using same treeD(3) [OF assms(1)] by blast
    then show "p = 0 \<or> (\<exists>k c. ?t k = Some (p, c))" using k by (metis fun_upd_apply option.inject prod.inject)
  next
    fix k j d assume "?t k = Some (j, d)"
    then show "j \<noteq> 0" using same treeD(1) [OF assms(1)] by blast
  next
    fix k k' j d d' assume "?t k = Some (j, d)" "?t k' = Some (j, d')"
    then show "k = k'" using same treeD(2) [OF assms(1)] by blast
  qed
  have w: "walk ?t j q = walk t j q" for j q
    using k by (induction q arbitrary: j) (auto split: option.split)
  obtain q n pid where p0: "p0 = q @ [n]" "walk t 0 q = Some pid" "t (pid, n) = Some (i, d)"
    using assms(2) by (cases p0 rule: rev_cases) (auto simp: entry_snoc split: option.splits)
  have kk: "k = (pid, n)" using assms(1) k p0(3) unfolding tree_def by (metis fst_conv)
  show "entry ?t p = (if p = p0 then Some (i, c) else entry t p)"
  proof (cases p rule: rev_cases)
    case (snoc p' m)
    have "walk t 0 p' = Some pid \<longleftrightarrow> p' = q" using walk_inj [OF assms(1) _ p0(2), of p'] p0(2) by auto
    then show ?thesis by (auto simp: snoc entry_snoc w [unfolded kk] kk p0(1) split: option.split)
  qed (use p0(1) in simp)
qed

section \<open>What a write does\<close>

text \<open>The prefixes of a path come into being, and the path gets its category.\<close>

definition below :: "string list \<Rightarrow> string list \<Rightarrow> bool" where
  "below p ps \<longleftrightarrow> p \<noteq> [] \<and> take (length p) ps = p"

lemma below_iff: "below p ps \<longleftrightarrow> p \<noteq> [] \<and> (\<exists>r. ps = p @ r)"
  unfolding below_def by (metis append_eq_conv_conj append_take_drop_id)

definition spec_write :: "(string list \<Rightarrow> string option option) \<Rightarrow> string list \<Rightarrow> string option \<Rightarrow> string list \<Rightarrow> string option option" where
  "spec_write V ps c = (\<lambda>p. if p = ps then Some c else if below p ps \<and> V p = None then Some None else V p)"

lemma lookupRecord_row:
  assumes "is_table q tbl"
  shows "lookupRecord q db n p =
    (case tbl db (p, n) of None \<Rightarrow> Err ErrNoRows | Some (i, c) \<Rightarrow> Ok (Domain i p n (Categories_Scan c) None))"
proof -
  have "sel q n p db = (case tbl db (p, n) of None \<Rightarrow> Err ErrNoRows | Some r \<Rightarrow> Ok r)"
    using assms unfolding is_table_def by (elim conjE) blast
  then show ?thesis by (auto simp: lookupRecord_def split: option.split)
qed

lemma view_prefix:
  assumes "walk t 0 (p @ r) = Some i" and "p \<noteq> []"
  shows "view t p \<noteq> None"
  using assms walk_entry [OF assms(2), of t] by (auto simp: walk_append view_def split: option.splits)

lemma spec_write_there:
  assumes "walk t 0 ps = Some i" and "p \<noteq> ps"
  shows "spec_write (view t) ps c p = view t p"
  using assms view_prefix [of t p] by (auto simp: spec_write_def below_iff)

lemma spec_write_grown:
  assumes "V1 = (\<lambda>p. if p = pre @ [l] then Some d else V p)" and "p \<noteq> pre @ l # ls" and "ls \<noteq> [] \<Longrightarrow> d = (case V (pre @ [l]) of None \<Rightarrow> None | Some e \<Rightarrow> e)"
  shows "spec_write V1 (pre @ l # ls) c p = spec_write V (pre @ l # ls) c p"
proof (cases "p = pre @ [l]")
  case True
  then have "ls \<noteq> []" using assms(2) by auto
  then show ?thesis using assms True by (auto simp: spec_write_def below_iff split: option.splits)
next
  case False
  then show ?thesis using assms by (auto simp: spec_write_def)
qed

lemma write_loop_rows:
  assumes "is_table q tbl" and "tree (tbl db)" and "walk (tbl db) 0 pre = Some pid" and "write_loop q cats ls pid db = (Ok j, db')"
  shows "tree (tbl db') \<and> walk (tbl db') 0 (pre @ ls) = Some j
    \<and> (\<forall>p. p \<noteq> pre @ ls \<longrightarrow> view (tbl db') p = spec_write (view (tbl db)) (pre @ ls) c p)"
  using assms(2-4)
proof (induction ls arbitrary: pre pid db)
  case Nil
  then show ?case using spec_write_there [OF Nil.prems(2)] by auto
next
  case (Cons l ls)
  let ?t = "tbl db"
  have row: "entry ?t (pre @ [l]) = ?t (pid, l)" using Cons.prems(2) by (simp add: entry_snoc)
  show ?case
  proof (cases "?t (pid, l)")
    case (Some v)
    obtain i d where v: "v = (i, d)" by (cases v)
    have "write_loop q cats ls i db = (Ok j, db')"
      using Cons.prems(3) Some v lookupRecord_row [OF assms(1)] by (auto split: if_splits)
    moreover have "walk ?t 0 (pre @ [l]) = Some i" using Cons.prems(2) Some v by (simp add: walk_append)
    ultimately show ?thesis using Cons.IH [OF Cons.prems(1), of "pre @ [l]" i] by simp
  next
    case None
    obtain i db1 where i: "insertRecord q l pid (if ls = [] then cats else []) db = (Ok i, db1)" "write_loop q cats ls i db1 = (Ok j, db')"
      using Cons.prems(3) None lookupRecord_row [OF assms(1)] by (auto split: outcome.splits prod.splits if_splits)
    let ?c = "Categories_Value (if ls = [] then cats else [])"
    have "i \<noteq> 0 \<and> (\<forall>k v. ?t k = Some v \<longrightarrow> fst v \<noteq> i) \<and> tbl db1 = ?t((pid, l) \<mapsto> (i, ?c))"
      using assms(1) i(1) unfolding is_table_def insertRecord_def by (elim conjE) blast
    then have n: "i \<noteq> 0" "\<forall>k v. ?t k = Some v \<longrightarrow> fst v \<noteq> i" and t1: "tbl db1 = ?t((pid, l) \<mapsto> (i, ?c))" by blast+
    note ir = insert_row [OF Cons.prems(1,2) None n t1]
    have "walk (tbl db1) 0 (pre @ [l]) = Some i" by (simp add: walk_snoc ir(2))
    from Cons.IH [OF ir(1) this i(2)]
    have IH: "tree (tbl db') \<and> walk (tbl db') 0 (pre @ l # ls) = Some j
      \<and> (\<forall>p. p \<noteq> pre @ l # ls \<longrightarrow> view (tbl db') p = spec_write (view (tbl db1)) (pre @ l # ls) c p)" by simp
    have V1: "view (tbl db1) = (\<lambda>p. if p = pre @ [l] then Some ?c else view ?t p)"
      by (auto simp: view_def ir(2) fun_eq_iff)
    have "view ?t (pre @ [l]) = None" by (simp add: view_def row None)
    then have "spec_write (view (tbl db1)) (pre @ l # ls) c p = spec_write (view ?t) (pre @ l # ls) c p" if "p \<noteq> pre @ l # ls" for p
      by (intro spec_write_grown [OF V1 that]) (simp add: Categories_Value_def)
    then show ?thesis using IH by simp
  qed
qed

lemma write_loop_fails_on_child:
  assumes "is_table q tbl" and "tree (tbl db)" and "walk (tbl db) 0 pre = Some pid" and "write_loop q cats ls pid db = (Ok j, db')"
    and "ls \<noteq> []" and "view (tbl db) (pre @ ls) = Some d"
  shows "Categories_Scan d = None"
  using assms(2-6)
proof (induction ls arbitrary: pre pid)
  case (Cons l ls)
  obtain i e where row: "tbl db (pid, l) = Some (i, e)" "walk (tbl db) 0 (pre @ [l]) = Some i"
  proof -
    obtain j where "walk (tbl db) 0 (pre @ l # ls) = Some j"
      using Cons.prems(5) walk_entry [of "pre @ l # ls" "tbl db"] by (auto simp: view_def)
    then show thesis using that Cons.prems(2) by (auto simp: walk_append split: option.splits)
  qed
  show ?case
  proof (cases "ls = []")
    case True
    have "view (tbl db) (pre @ [l]) = Some e" using row Cons.prems(2) by (simp add: view_def entry_snoc)
    then have "e = d" using Cons.prems(5) True by simp
    then show ?thesis using Cons.prems(3) row(1) lookupRecord_row [OF assms(1)] True by (auto simp: isChild_def split: if_splits)
  next
    case False
    then have "write_loop q cats ls i db = (Ok j, db')"
      using Cons.prems(3) row(1) lookupRecord_row [OF assms(1)] by simp
    then show ?thesis using Cons.IH [OF Cons.prems(1) row(2)] False Cons.prems(5) by simp
  qed
qed simp

lemma write_tx_view:
  assumes "is_table q tbl" and "tree (tbl db)" and "write_tx q cats parts db = (Ok (), db')" and "parts \<noteq> []" and "cats \<noteq> []"
  shows "tree (tbl db') \<and> view (tbl db') = spec_write (view (tbl db)) (rev parts) (Some (join_char (CHR '','') cats))"
proof -
  let ?c = "Some (join_char (CHR '','') cats)"
  obtain j db1 where l: "write_loop q cats (rev parts) 0 db = (Ok j, db1)" and u: "updateRecordCategories q j cats db1 = (Ok (), db')"
    using assms(3) by (auto simp: write_tx_def split: outcome.splits prod.splits)
  have w: "tree (tbl db1)" "walk (tbl db1) 0 (rev parts) = Some j"
    "\<And>p. p \<noteq> rev parts \<Longrightarrow> view (tbl db1) p = spec_write (view (tbl db)) (rev parts) ?c p"
    using write_loop_rows [OF assms(1,2) _ l, of "[]" ?c] by auto
  have ne: "rev parts \<noteq> []" using assms(4) by simp
  obtain d where e: "entry (tbl db1) (rev parts) = Some (j, d)" using w(2) walk_entry [OF ne] by fastforce
  then obtain k where k: "tbl db1 k = Some (j, d)" using ne by (auto simp: entry_def split: option.splits)
  obtain ra where "upd q j ?c db1 = (Ok ra, db')"
    using u assms(5) by (auto simp: updateRecordCategories_def Categories_Value_def split: outcome.splits prod.splits if_splits)
  moreover have "\<forall>k' d'. tbl db1 k' = Some (j, d') \<longrightarrow> k' = k" using treeD(2) [OF w(1) _ k] by blast
  ultimately have t': "tbl db' = (tbl db1)(k \<mapsto> (j, ?c))"
    using assms(1) k unfolding is_table_def by (elim conjE) blast
  note up = update_row [OF w(1) e k, of ?c, folded t']
  have "view (tbl db') p = spec_write (view (tbl db)) (rev parts) ?c p" for p
    using w(3) [of p] by (cases "p = rev parts") (simp_all add: view_def up(2) spec_write_def [of _ "rev parts"])
  then show ?thesis using up(1) by auto
qed

definition path_of :: "string \<Rightarrow> string list" where
  "path_of name = rev (split_char (CHR ''.'') (if last name = CHR ''.'' then butlast name else name))"

lemma Write_view:
  assumes "is_table q tbl" and "tree (tbl db)" and "Write q domain cats db = (r, db')"
  shows "tree (tbl db') \<and>
    view (tbl db') = (if r = Ok () then spec_write (view (tbl db)) (path_of domain) (Some (join_char (CHR '','') cats)) else view (tbl db))"
proof (cases "r = Ok ()")
  case False
  have "tbl db' = tbl db"
    using assms(3) False
    by (auto simp: Write_def finish_tx_def Let_def split: outcome.splits option.splits prod.splits if_splits)
  then show ?thesis using assms(2) False by simp
next
  case True
  have ne: "domain \<noteq> []" using assms(3) True by (auto simp: Write_def normalizeDomain_def)
  let ?parts = "rev (path_of domain)"
  have n: "normalizeDomain domain = Ok (if last domain = CHR ''.'' then butlast domain else domain)"
    using ne by (simp add: normalizeDomain_def)
  obtain tx db1 where w: "validateDomain ?parts = None" "cats \<noteq> []" "tx_begin q db = Ok tx"
    "write_tx q cats ?parts tx = (Ok (), db1)" "tx_commit q db1 = Some db' \<or> tx_commit q db1 = None \<and> db' = db"
    using assms(3) True unfolding Write_def n
    by (auto simp: path_of_def finish_tx_def Let_def split: outcome.splits option.splits prod.splits if_splits)
  have "?parts \<noteq> []" using w(1) by (auto simp: validateDomain_def split: if_splits)
  moreover have "tbl tx = tbl db" using assms(1) w(3) unfolding is_table_def by (elim conjE) blast
  moreover have "tx_commit q db1 = Some db' \<and> tbl db' = tbl db1"
    using assms(1) w(5) unfolding is_table_def by (elim conjE) (metis option.distinct(1) option.inject)
  ultimately show ?thesis
    using write_tx_view [OF assms(1) _ w(4)] assms(2) w(2) True by simp
qed

section \<open>What a lookup finds\<close>

text \<open>The nearest wildcard above a path, among those that hang at one of its first \<open>k - 1\<close> prefixes.\<close>

definition wildcard_cat :: "(string list \<Rightarrow> string option option) \<Rightarrow> string list \<Rightarrow> nat \<Rightarrow> string option option" where
  "wildcard_cat V ps k =
     (case filter (\<lambda>j. V (take j ps @ [''*'']) \<noteq> None) (rev [1..<k]) of [] \<Rightarrow> None | j # _ \<Rightarrow> V (take j ps @ [''*'']))"

text \<open>A path that is in the base answers for itself, and only if it has categories; for any other path the
  nearest wildcard answers.\<close>

definition spec_lookup :: "(string list \<Rightarrow> string option option) \<Rightarrow> string list \<Rightarrow> Categories option option" where
  "spec_lookup V ps =
     (case V ps of
        Some c \<Rightarrow> (if Categories_Scan c = None then None else Some (Categories_Scan c))
      | None \<Rightarrow> map_option Categories_Scan (wildcard_cat V ps (length ps)))"

definition found :: "(dns_error, Domain) outcome \<Rightarrow> Categories option option" where
  "found r = (case r of Ok d \<Rightarrow> Some (Domain_Categories d) | _ \<Rightarrow> None)"

lemma view_closed: "view t (p @ r) \<noteq> None \<Longrightarrow> p \<noteq> [] \<Longrightarrow> view t p \<noteq> None"
  using walk_entry [of "p @ r" t] view_prefix [of t p r] by (auto simp: view_def)

lemma wildcard_cat_step:
  "1 \<le> k \<Longrightarrow> wildcard_cat V ps (Suc k) = (case V (take k ps @ [''*'']) of Some c \<Rightarrow> Some c | None \<Rightarrow> wildcard_cat V ps k)"
  by (auto simp: wildcard_cat_def split: option.split)

lemma wildcard_cat_stop:
  assumes "k \<le> n" and "\<And>j. k \<le> j \<Longrightarrow> j < n \<Longrightarrow> V (take j ps @ [''*'']) = None" and "1 \<le> k"
  shows "wildcard_cat V ps n = wildcard_cat V ps k"
proof -
  have "[1..<n] = [1..<k] @ [k..<n]" using assms(1,3) by (metis le_add_diff_inverse upt_add_eq_append)
  moreover have "filter (\<lambda>j. V (take j ps @ [''*'']) \<noteq> None) (rev [k..<n]) = []" using assms(2) by (simp add: filter_empty_conv)
  ultimately show ?thesis by (simp add: wildcard_cat_def)
qed

lemma with_parent_same [simp]: "ID (with_parent d p) = ID d" "Domain_Categories (with_parent d p) = Domain_Categories d"
  by (cases d; simp)+

lemma lookup_loop_finds:
  assumes "is_table q tbl" and "tree (tbl db)" and "pre \<noteq> []" and "entry (tbl db) pre = Some (ID parent, cp)"
    and "Domain_Categories parent = Categories_Scan cp" and "ps = pre @ ls"
    and "map_option Domain_Categories wc = map_option Categories_Scan (wildcard_cat (view (tbl db)) ps (length pre))"
  shows "found (lookup_loop q db ls parent wc) = spec_lookup (view (tbl db)) ps"
  using assms(3-7)
proof (induction ls arbitrary: pre parent cp wc)
  case Nil
  then show ?case by (simp add: found_def spec_lookup_def view_def isChild_def)
next
  case (Cons l ls)
  let ?t = "tbl db" and ?V = "view (tbl db)" and ?k = "length pre"
  have w: "walk ?t 0 pre = Some (ID parent)" using Cons.prems(1,2) by (simp add: walk_entry)
  have row: "?V (pre @ [n]) = map_option snd (?t (ID parent, n))" for n using w by (simp add: view_def entry_snoc)
  have pre: "take ?k ps = pre" "1 \<le> ?k" using Cons.prems(1,4) by (cases pre; simp)+
  define wc' where "wc' = (case lookupSubdomain q db ''*'' (ID parent) of Ok wc \<Rightarrow> Some wc | _ \<Rightarrow> wc)"
  have wc': "map_option Domain_Categories wc' = map_option Categories_Scan (wildcard_cat ?V ps (Suc ?k))"
    using Cons.prems(5) row [of "''*''"]
    by (auto simp: wc'_def lookupSubdomain_def lookupRecord_row [OF assms(1)] wildcard_cat_step [OF pre(2)] pre(1) split: option.split)
  show ?case
  proof (cases "?t (ID parent, l)")
    case (Some v)
    obtain i d where v: "v = (i, d)" by (cases v)
    let ?sub = "with_parent (Domain i (ID parent) l (Categories_Scan d) None) parent"
    have "lookup_loop q db (l # ls) parent wc = lookup_loop q db ls ?sub wc'"
      using Some v by (simp add: wc'_def lookupSubdomain_def lookupRecord_row [OF assms(1)])
    moreover have "found (lookup_loop q db ls ?sub wc') = spec_lookup ?V ps"
      using Some v w Cons.prems(4) wc' by (intro Cons.IH [of "pre @ [l]" _ d]) (simp_all add: entry_snoc)
    ultimately show ?thesis by simp
  next
    case None
    then have none: "?V (pre @ [l]) = None" by (simp add: row)
    have "?V (pre @ l # r) = None" for r
      using view_closed [of ?t "pre @ [l]" r] none by (cases "?V (pre @ l # r)") auto
    then have "?V ps = None" "\<And>j. Suc ?k \<le> j \<Longrightarrow> ?V (take j ps @ [''*'']) = None"
      using Cons.prems(4) by (auto simp: take_Cons split: nat.split)
    then have "spec_lookup ?V ps = map_option Categories_Scan (wildcard_cat ?V ps (Suc ?k))"
      using Cons.prems(4) wildcard_cat_stop [of "Suc ?k" "length ps" ?V ps] by (simp add: spec_lookup_def)
    moreover have "found (lookup_loop q db (l # ls) parent wc) = map_option Domain_Categories wc'"
      using None by (auto simp: found_def wc'_def [symmetric] lookupSubdomain_def [of _ _ l] lookupRecord_row [OF assms(1)] split: option.split)
    ultimately show ?thesis using wc' by simp
  qed
qed

lemma Lookup_finds:
  assumes "is_table q tbl" and "tree (tbl db)" and "2 \<le> length name" and "2 \<le> length (path_of name)"
  shows "found (Lookup q db name) = spec_lookup (view (tbl db)) (path_of name)"
proof -
  let ?t = "tbl db" and ?V = "view (tbl db)" and ?ps = "path_of name"
  have n: "normalizeDomain name = Ok (if last name = CHR ''.'' then butlast name else name)"
    using assms(3) by (auto simp: normalizeDomain_def)
  obtain l ls where ps: "?ps = l # ls" using assms(4) by (cases ?ps) auto
  have parts: "split_char (CHR ''.'') (if last name = CHR ''.'' then butlast name else name) = rev ls @ [l]"
    using ps unfolding path_of_def by (metis rev.simps(2) rev_rev_ident)
  have L: "Lookup q db name = (case lookupParent q db l of Ok parent \<Rightarrow> lookup_loop q db ls parent None | Err e \<Rightarrow> Err (Sql e) | Crash m \<Rightarrow> Crash m)"
    using assms(3,4) ps unfolding Lookup_def n by (auto simp: parts Let_def split: outcome.split)
  show ?thesis
  proof (cases "?t (0, l)")
    case None
    then have "?V [l] = None" by (simp add: view_def entry_def)
    then have none: "?V (l # r) = None" for r using view_closed [of ?t "[l]" r] by (cases "?V (l # r)") auto
    have "wildcard_cat ?V ?ps (length ?ps) = wildcard_cat ?V ?ps 1"
      using none assms(4) by (intro wildcard_cat_stop) (auto simp: ps take_Cons split: nat.split)
    then have "spec_lookup ?V ?ps = None" using none by (simp add: spec_lookup_def ps wildcard_cat_def)
    then show ?thesis using L None by (simp add: lookupParent_def lookupRecord_row [OF assms(1)] found_def)
  next
    case (Some v)
    obtain i d where v: "v = (i, d)" by (cases v)
    have "found (lookup_loop q db ls (Domain i 0 l (Categories_Scan d) None) None) = spec_lookup ?V ?ps"
      using Some v ps by (intro lookup_loop_finds [OF assms(1,2), of "[l]" _ d]) (simp_all add: entry_def wildcard_cat_def)
    then show ?thesis using L Some v by (simp add: lookupParent_def lookupRecord_row [OF assms(1)])
  qed
qed

section \<open>Runs\<close>

fun write_all :: "'db sql \<Rightarrow> (string \<times> Categories) list \<Rightarrow> 'db \<Rightarrow> (dns_error, unit) outcome list \<times> 'db" where
  "write_all q [] db = ([], db)"
| "write_all q ((domain, cats) # ws) db =
     (let (r, db) = Write q domain cats db; (rs, db) = write_all q ws db in (r # rs, db))"

text \<open>The paths and categories that the successful writes leave.\<close>

fun written :: "(string list \<Rightarrow> string option option) \<Rightarrow> ((string \<times> Categories) \<times> (dns_error, unit) outcome) list \<Rightarrow> string list \<Rightarrow> string option option" where
  "written V [] = V"
| "written V (((domain, cats), r) # ws) =
     written (if r = Ok () then spec_write V (path_of domain) (Some (join_char (CHR '','') cats)) else V) ws"

lemma write_all_view:
  assumes "is_table q tbl" and "tree (tbl db)" and "write_all q ws db = (rs, db')"
  shows "length rs = length ws \<and> tree (tbl db') \<and> view (tbl db') = written (view (tbl db)) (zip ws rs)"
  using assms(2,3)
proof (induction ws arbitrary: db rs)
  case (Cons w ws)
  obtain domain cats where w: "w = (domain, cats)" by (cases w)
  obtain r db1 where r: "Write q domain cats db = (r, db1)" by fastforce
  obtain rs1 where rs: "write_all q ws db1 = (rs1, db')" "rs = r # rs1"
    using Cons.prems(2) r w by (auto split: prod.splits)
  note v = Write_view [OF assms(1) Cons.prems(1) r]
  show ?case using Cons.IH [OF _ rs(1)] v rs(2) w by simp
qed simp


text \<open>A base kept in a list of rows, for examples.\<close>

type_synonym row = "int \<times> int \<times> string \<times> string option"

fun rows_find :: "row list \<Rightarrow> int \<Rightarrow> string \<Rightarrow> (int \<times> string option) option" where
  "rows_find [] p n = None"
| "rows_find ((i, p', n', c) # rows) p n = (if p' = p \<and> n' = n then Some (i, c) else rows_find rows p n)"

definition fresh_id :: "row list \<Rightarrow> int" where
  "fresh_id rows = 1 + fold (\<lambda>(i, _) m. max i m) rows 0"

definition rows_sql :: "row list sql" where
  "rows_sql =
     \<lparr>sel = (\<lambda>n p rows. case rows_find rows p n of None \<Rightarrow> Err ErrNoRows | Some r \<Rightarrow> Ok r),
      ins = (\<lambda>n p c rows.
        if rows_find rows p n \<noteq> None then (Err (OtherError ''UNIQUE constraint failed''), rows)
        else (Ok (fresh_id rows), rows @ [(fresh_id rows, p, n, c)])),
      upd = (\<lambda>i c rows.
        (Ok (length (filter (\<lambda>(i', _). i' = i) rows)), map (\<lambda>(i', p, n, d). (i', p, n, if i' = i then c else d)) rows)),
      del = (\<lambda>i rows. (Ok (), filter (\<lambda>(i', _). i' \<noteq> i) rows)),
      tx_begin = Ok, tx_commit = Some\<rparr>"

lemma fold_max_id: "m \<le> fold (\<lambda>(i, _) m. max i m) rows (m::int) \<and> (\<forall>(i, _) \<in> set rows. i \<le> fold (\<lambda>(i, _) m. max i m) rows m)"
proof (induction rows arbitrary: m)
  case (Cons r rows)
  obtain i x where r: "r = (i, x)" by (cases r)
  show ?case using Cons.IH [of "max i m"] by (auto simp: r)
qed simp

lemma rows_find_id: "rows_find rows p n = Some (i, c) \<Longrightarrow> (i, p, n, c) \<in> set rows"
  by (induction rows p n rule: rows_find.induct) (auto split: if_splits)

lemma rows_find_append: "rows_find (rows @ [(i, p', n', c)]) p n =
    (case rows_find rows p n of Some r \<Rightarrow> Some r | None \<Rightarrow> if p' = p \<and> n' = n then Some (i, c) else None)"
  by (induction rows p n rule: rows_find.induct) auto

lemma rows_find_map: "rows_find (map (\<lambda>(i', p, n, d). (i', p, n, if i' = i then c else d)) rows) p n =
    map_option (\<lambda>(i', d). (i', if i' = i then c else d)) (rows_find rows p n)"
  by (induction rows p n rule: rows_find.induct) auto

lemma rows_sql_table: "is_table rows_sql (\<lambda>rows (p, n). rows_find rows p n)"
  unfolding is_table_def
proof (intro conjI allI impI)
  fix n p and c :: "string option" and rows :: "row list" and i db'
  assume *: "ins rows_sql n p c rows = (Ok i, db')"
  then have i: "rows_find rows p n = None" "i = fresh_id rows" "db' = rows @ [(i, p, n, c)]"
    by (cases "rows_find rows p n"; simp add: rows_sql_def)+
  show "(case (p, n) of (p, n) \<Rightarrow> rows_find rows p n) = None" using i by simp
  have le: "0 < fresh_id rows" "\<And>j q m d. (j, q, m, d) \<in> set rows \<Longrightarrow> j < fresh_id rows"
    using fold_max_id [of 0 rows] by (fastforce simp: fresh_id_def)+
  show "i \<noteq> 0" using le(1) i(2) by simp
  show "(\<lambda>(p, n). rows_find db' p n) = (\<lambda>(p, n). rows_find rows p n)((p, n) \<mapsto> (i, c))"
    using i by (auto simp: fun_eq_iff rows_find_append split: option.split)
  fix k v assume "(case k of (p, n) \<Rightarrow> rows_find rows p n) = Some v"
  then have "rows_find rows (fst k) (snd k) = Some (fst v, snd v)" by (simp add: split_beta)
  then show "fst v \<noteq> i" using le(2) [OF rows_find_id] i(2) by force
next
  fix i and c :: "string option" and rows :: "row list" and ra db' k d
  assume u: "upd rows_sql i c rows = (Ok ra, db')" and k: "(case k of (p, n) \<Rightarrow> rows_find rows p n) = Some (i, d)"
    and only: "\<forall>k' d'. (case k' of (p, n) \<Rightarrow> rows_find rows p n) = Some (i, d') \<longrightarrow> k' = k"
  have m: "rows_find db' p n = map_option (\<lambda>(i', d). (i', if i' = i then c else d)) (rows_find rows p n)" for p n
    using u rows_find_map by (auto simp: rows_sql_def)
  show "(\<lambda>(p, n). rows_find db' p n) = (\<lambda>(p, n). rows_find rows p n)(k \<mapsto> (i, c))"
  proof
    fix x :: "int \<times> string"
    obtain p n where x: "x = (p, n)" by (cases x)
    show "(\<lambda>(p, n). rows_find db' p n) x = ((\<lambda>(p, n). rows_find rows p n)(k \<mapsto> (i, c))) x"
    proof (cases "x = k")
      case True
      then have "k = (p, n)" using x by simp
      then show ?thesis using k x m [of p n] by simp
    next
      case False
      then have "\<forall>d'. rows_find rows p n \<noteq> Some (i, d')" using only x by auto
      then have "rows_find db' p n = rows_find rows p n" using m [of p n] by (cases "rows_find rows p n") auto
      then show ?thesis using False x by simp
    qed
  qed
qed (auto simp: rows_sql_def)

definition example_writes :: "(string \<times> Categories) list" where
  "example_writes = [(''*.a'', [''cat1'']), (''sub1.dom.a'', [''cat3'', ''x'']), (''*.a'', [''new''])]"


section \<open>The block list\<close>

text \<open>The reader of a Pi-hole base: a domain is in it or not.  \<open>gravity\<close> is the statement that it runs.\<close>

definition ftl_Lookup :: "(string \<Rightarrow> 'db \<Rightarrow> (sql_error, int) outcome) \<Rightarrow> 'db \<Rightarrow> string \<Rightarrow> (dns_error, Domain) outcome" where
  "ftl_Lookup gravity db name =
     (case normalizeDomain name of
        Ok name \<Rightarrow>
          (case gravity name db of
             Ok n \<Rightarrow> Ok (Domain 0 0 name None None)
           | Err e \<Rightarrow> Err (Sql e)
           | Crash m \<Rightarrow> Crash m)
      | Err e \<Rightarrow> Err e
      | Crash m \<Rightarrow> Crash m)"

definition mustPass :: "(string \<Rightarrow> (dns_error, Domain) outcome) \<Rightarrow> string \<Rightarrow> (dns_error, bool) outcome" where
  "mustPass looq name = (case looq name of Ok v \<Rightarrow> Ok False | Err e \<Rightarrow> Ok True | Crash m \<Rightarrow> Crash m)"

definition RcodeNameError :: nat where "RcodeNameError = 3"
definition RcodeRefused :: nat where "RcodeRefused = 5"

record dns_reply =
  Rcode :: nat
  RecursionAvailable :: bool
  RecursionDesired :: bool
  Answers :: "string list"

text \<open>The request goes to the next plugin, or is answered here; the returned code is the second component.\<close>

datatype served = Next | Replied dns_reply nat

definition ServeDNS :: "(string \<Rightarrow> (dns_error, Domain) outcome) \<Rightarrow> string \<Rightarrow> (dns_error, served) outcome" where
  "ServeDNS looq name =
     (case mustPass looq name of
        Ok pass \<Rightarrow>
          Ok (if pass then Next
              else Replied \<lparr>Rcode = RcodeNameError, RecursionAvailable = False, RecursionDesired = False, Answers = []\<rparr> RcodeRefused)
      | Err e \<Rightarrow> Err e
      | Crash m \<Rightarrow> Crash m)"

definition pluginName :: string where "pluginName = ''blocklist''"

definition isRegistered :: "string list \<Rightarrow> bool" where
  "isRegistered others = list_ex (\<lambda>name. name = ''dns.'' @ pluginName) others"

text \<open>A request is blocked exactly when its name, without the dot at the end, is in the base: a base that fails
  lets everything pass.\<close>

lemma ServeDNS_blocks_iff:
  assumes "name \<noteq> []"
  shows "ServeDNS (ftl_Lookup gravity db) name = Ok (Replied r code) \<longleftrightarrow>
      is_ok (gravity (if last name = CHR ''.'' then butlast name else name) db)
      \<and> r = \<lparr>Rcode = RcodeNameError, RecursionAvailable = False, RecursionDesired = False, Answers = []\<rparr> \<and> code = RcodeRefused"
    and "ServeDNS (ftl_Lookup gravity db) name = Ok Next \<longleftrightarrow>
      (\<exists>e. gravity (if last name = CHR ''.'' then butlast name else name) db = Err e)"
  using assms by (auto simp: ServeDNS_def mustPass_def ftl_Lookup_def normalizeDomain_def split: outcome.split)

text \<open>A wildcard that was found above the node where the search ends is returned with that node as its parent:
  the domain printed for it is not the one in the base.\<close>

lemma wildcard_misparented:
  "map (\<lambda>d. (Unchain d, ParentID d)) (case Lookup rows_sql (snd (write_all rows_sql example_writes [])) ''x.dom.a'' of Ok d \<Rightarrow> [d] | _ \<Rightarrow> [])
    = [(''*.dom.a'', 1)]"
  by code_simp

end
