(* ===== verification/Xsync.thy ===== *)
theory Xsync
  imports Go_Prelude "HOL-Library.Monad_Syntax"
begin

text \<open>
  The condition variable of \<open>src/xsync/waiter.go\<close>: a channel with room for one notification and a counter
  of the goroutines that wait.  A goroutine that calls \<open>Wait\<close> counts itself, unlocks the mutex, and only
  later reaches its \<open>select\<close>, where it takes the notification that is there or queues up; so \<open>Wait\<close> is
  modelled as its parts, and the interleaving of the parts is up to the caller.  The channel is modelled
  the way the language defines it: a send goes to the goroutine that has been queueing longest, and into
  the buffer only if nobody queues.  \<open>None\<close> is a panic.
\<close>

section \<open>The condition variable\<close>

text \<open>\<open>notify_len\<close> counts the notifications in the buffer, \<open>recvq\<close> are the goroutines blocked in their
  \<open>select\<close>, and \<open>ready\<close> those of them that were handed a notification and have not run since.\<close>

record Cond =
  notify_len :: nat
  notify_closed :: bool
  recvq :: "nat list"
  ready :: "nat list"
  waiters :: int

definition NewCond :: Cond where
  "NewCond = \<lparr>notify_len = 0, notify_closed = False, recvq = [], ready = [], waiters = 0\<rparr>"

definition Signal :: "Cond \<Rightarrow> Cond option" where
  "Signal w =
     (if waiters w > 0
      then if notify_closed w then None
           else (case recvq w of
                   t # ts \<Rightarrow> Some (w\<lparr>recvq := ts, ready := ready w @ [t]\<rparr>)
                 | [] \<Rightarrow> if notify_len w < 1 then Some (w\<lparr>notify_len := notify_len w + 1\<rparr>) else Some w)
      else Some w)"

primrec signals :: "nat \<Rightarrow> Cond \<Rightarrow> Cond option" where
  "signals 0 w = Some w"
| "signals (Suc n) w = do { w \<leftarrow> Signal w; signals n w }"

definition Broadcast :: "Cond \<Rightarrow> Cond option" where
  "Broadcast w = signals (nat (waiters w)) w"

definition Destroy :: "Cond \<Rightarrow> Cond option" where
  "Destroy w =
     (if notify_closed w then None
      else Some (w\<lparr>notify_closed := True, ready := ready w @ recvq w, recvq := []\<rparr>))"

text \<open>The parts of \<open>Wait\<close>: up to the unlocking of the mutex, the \<open>select\<close> (a receive that can go ahead, or
  queueing up, or the end of the context), and from the locking of the mutex on.\<close>

definition wait_enter :: "Cond \<Rightarrow> Cond" where
  "wait_enter w = w\<lparr>waiters := int64 (waiters w + 1)\<rparr>"

definition select_recv :: "Cond \<Rightarrow> Cond option" where
  "select_recv w =
     (if 0 < notify_len w then Some (w\<lparr>notify_len := notify_len w - 1\<rparr>)
      else if notify_closed w then Some w
      else None)"

definition select_block :: "nat \<Rightarrow> Cond \<Rightarrow> Cond" where
  "select_block t w = w\<lparr>recvq := recvq w @ [t]\<rparr>"

definition select_ready :: "nat \<Rightarrow> Cond \<Rightarrow> Cond" where
  "select_ready t w = w\<lparr>ready := remove1 t (ready w)\<rparr>"

definition select_done :: "nat \<Rightarrow> Cond \<Rightarrow> Cond" where
  "select_done t w = w\<lparr>recvq := remove1 t (recvq w)\<rparr>"

definition wait_leave :: "Cond \<Rightarrow> Cond" where
  "wait_leave w = w\<lparr>waiters := int64 (waiters w - 1)\<rparr>"

lemmas wait_parts = wait_enter_def select_block_def select_ready_def select_done_def wait_leave_def

section \<open>What a broadcast does\<close>

definition hand_over :: "nat \<Rightarrow> Cond \<Rightarrow> Cond" where
  "hand_over n w = w\<lparr>recvq := drop n (recvq w), ready := ready w @ take n (recvq w),
     notify_len := (if length (recvq w) < n then max 1 (notify_len w) else notify_len w)\<rparr>"

lemma signals_open:
  "0 < waiters w \<Longrightarrow> \<not> notify_closed w \<Longrightarrow> signals n w = Some (hand_over n w)"
proof (induction n arbitrary: w)
  case 0 show ?case by (simp add: hand_over_def)
next
  case (Suc n)
  show ?case
  proof (cases "recvq w")
    case Nil
    obtain w' where s: "Signal w = Some w'"
      and w': "w' = w\<lparr>notify_len := max 1 (notify_len w)\<rparr>"
      using Suc.prems Nil by (cases "notify_len w < 1") (auto simp: Signal_def max_def)
    have "signals n w' = Some (hand_over n w')" using Suc.prems w' by (intro Suc.IH) simp_all
    then show ?thesis using s w' Nil by (simp add: hand_over_def)
  next
    case (Cons t ts)
    then have s: "Signal w = Some (w\<lparr>recvq := ts, ready := ready w @ [t]\<rparr>)" (is "_ = Some ?w")
      using Suc.prems by (simp add: Signal_def)
    have "signals n ?w = Some (hand_over n ?w)" using Suc.prems by (intro Suc.IH) simp_all
    then show ?thesis using s Cons by (simp add: hand_over_def)
  qed
qed

theorem Broadcast_open:
  assumes "\<not> notify_closed w"
  shows "Broadcast w = Some (if 0 < waiters w then hand_over (nat (waiters w)) w else w)"
  using assms signals_open [of w "nat (waiters w)"] by (auto simp: Broadcast_def)

text \<open>A broadcast reaches every goroutine that queues, and leaves at most one notification for all those
  that are still on their way to the queue.\<close>

lemma Broadcast_queued:
  assumes "Broadcast w = Some w'" and "\<not> notify_closed w" and "int (length (recvq w)) \<le> waiters w"
  shows "recvq w' = []" and "ready w' = ready w @ recvq w"
    and "notify_len w' = (if int (length (recvq w)) < waiters w then max 1 (notify_len w) else notify_len w)"
    and "waiters w' = waiters w" and "\<not> notify_closed w'"
  using assms by (cases "recvq w"; auto simp: Broadcast_open hand_over_def split: if_splits)+

section \<open>One goroutine at a time\<close>

text \<open>Where a goroutine is that uses the condition variable.\<close>

datatype phase = Away | Coming | Queued | Leaving

text \<open>\<open>one_waiter t ph sleepy w\<close>: goroutine \<open>t\<close> is the only one that uses the condition variable \<open>w\<close>, it is in phase
  \<open>ph\<close>, and it can only be asleep, or about to fall asleep, while \<open>sleepy\<close> holds.\<close>

primrec one_waiter :: "nat \<Rightarrow> phase \<Rightarrow> bool \<Rightarrow> Cond \<Rightarrow> bool" where
  "one_waiter t Away sleepy w \<longleftrightarrow> \<not> notify_closed w \<and> waiters w = 0 \<and> recvq w = [] \<and> ready w = []"
| "one_waiter t Coming sleepy w \<longleftrightarrow>
     \<not> notify_closed w \<and> waiters w = 1 \<and> recvq w = [] \<and> ready w = [] \<and> (0 < notify_len w \<or> sleepy)"
| "one_waiter t Queued sleepy w \<longleftrightarrow>
     \<not> notify_closed w \<and> waiters w = 1 \<and> (recvq w = [t] \<and> ready w = [] \<and> sleepy \<or> recvq w = [] \<and> ready w = [t])"
| "one_waiter t Leaving sleepy w \<longleftrightarrow> \<not> notify_closed w \<and> waiters w = 1 \<and> recvq w = [] \<and> ready w = []"

lemma one_waiter_open: "one_waiter t ph c w \<Longrightarrow> \<not> notify_closed w"
  by (cases ph) simp_all

lemma one_waiter_NewCond: "one_waiter t Away c NewCond"
  by (simp add: NewCond_def)

text \<open>After a broadcast the goroutine wakes up whatever has changed.\<close>

lemma one_waiter_Broadcast:
  assumes "one_waiter t ph c w"
  obtains w' where "Broadcast w = Some w'" and "one_waiter t ph c' w'"
proof -
  have "Broadcast w = Some (if 0 < waiters w then hand_over (nat (waiters w)) w else w)"
    by (rule Broadcast_open [OF one_waiter_open [OF assms]])
  moreover have "one_waiter t ph c' (if 0 < waiters w then hand_over (nat (waiters w)) w else w)"
    using assms by (cases ph) (auto simp: hand_over_def)
  ultimately show thesis by (rule that)
qed

lemma one_waiter_steps:
  shows one_waiter_enter: "one_waiter t Away c w \<Longrightarrow> c' \<Longrightarrow> one_waiter t Coming c' (wait_enter w)"
    and one_waiter_recv: "one_waiter t Coming c w \<Longrightarrow> select_recv w = Some w' \<Longrightarrow> one_waiter t Leaving c' w'"
    and one_waiter_block: "one_waiter t Coming c w \<Longrightarrow> select_recv w = None \<Longrightarrow> one_waiter t Queued c (select_block t w)"
    and one_waiter_give_up: "one_waiter t Coming c w \<Longrightarrow> one_waiter t Leaving c' w"
    and one_waiter_ready: "one_waiter t Queued c w \<Longrightarrow> t \<in> set (ready w) \<Longrightarrow> one_waiter t Leaving c' (select_ready t w)"
    and one_waiter_done: "one_waiter t Queued c w \<Longrightarrow> t \<in> set (recvq w) \<Longrightarrow> one_waiter t Leaving c' (select_done t w)"
    and one_waiter_leave: "one_waiter t Leaving c w \<Longrightarrow> one_waiter t Away c' (wait_leave w)"
  by (auto simp: wait_parts select_recv_def is_int64_def split: if_splits)

text \<open>With one goroutine no wake-up is lost: asleep means \<open>sleepy\<close>.\<close>

lemma one_waiter_asleep: "one_waiter t ph c w \<Longrightarrow> u \<in> set (recvq w) \<Longrightarrow> u = t \<and> ph = Queued \<and> c"
  by (cases ph) auto

end
