(* ===== verification/Xpipe.thy ===== *)
theory Xpipe
  imports Xsync
begin

text \<open>
  The in-memory pipe of \<open>src/xpipe/pipe.go\<close>.  \<open>Read\<close> and \<open>Write\<close> hold the mutex except while they wait, so
  each is a check before the mutex is taken, and critical sections that either finish the call or leave
  it waiting on a condition variable (\<open>Xsync\<close>).  A system of goroutines interleaves the sections, the parts
  of waiting, the other calls and the cancelling of the context in any order.  The time is an argument of
  every section, and a critical section takes no time; the zero \<open>time.Time\<close>, which means no deadline, is
  \<open>None\<close>.  An operation that panics or does not return is \<open>None\<close>.
\<close>

section \<open>The pipe\<close>

definition MaxBufferSize :: int where "MaxBufferSize = 16384"

datatype pipe_error = ErrDeadlineExceeded | ErrClosed | Canceled | CtxDeadlineExceeded

record XPipe =
  closed :: bool
  buffer :: "byte list"
  rTrigger :: Cond
  wTrigger :: Cond
  rdeadline :: "int option"
  wdeadline :: "int option"

definition Pipe_New :: XPipe where
  "Pipe_New = \<lparr>closed = False, buffer = [], rTrigger = NewCond, wTrigger = NewCond,
     rdeadline = None, wdeadline = None\<rparr>"

definition Available :: "XPipe \<Rightarrow> nat" where
  "Available p = length (buffer p)"

definition isDeadlineHappened :: "int option \<Rightarrow> int \<Rightarrow> bool" where
  "isDeadlineHappened deadline now = (case deadline of None \<Rightarrow> False | Some d \<Rightarrow> now > d)"

definition pipe_close :: "XPipe \<Rightarrow> (pipe_error option \<times> XPipe) option" where
  "pipe_close p =
     (if closed p then Some (Some ErrClosed, p)
      else do {
        r \<leftarrow> Broadcast (rTrigger p);
        w \<leftarrow> Broadcast (wTrigger p);
        Some (None, p\<lparr>closed := True, rTrigger := r, wTrigger := w\<rparr>)
      })"

definition Close :: "XPipe \<Rightarrow> (pipe_error option \<times> XPipe) option" where
  "Close p = pipe_close p"

definition SetDeadline :: "int option \<Rightarrow> XPipe \<Rightarrow> XPipe option" where
  "SetDeadline t p = do {
     r \<leftarrow> Broadcast (rTrigger p);
     w \<leftarrow> Broadcast (wTrigger p);
     Some (p\<lparr>rdeadline := t, wdeadline := t, rTrigger := r, wTrigger := w\<rparr>)
   }"

definition SetReadDeadline :: "int option \<Rightarrow> XPipe \<Rightarrow> XPipe option" where
  "SetReadDeadline t p = do {
     r \<leftarrow> Broadcast (rTrigger p);
     Some (p\<lparr>rdeadline := t, rTrigger := r\<rparr>)
   }"

definition SetWriteDeadline :: "int option \<Rightarrow> XPipe \<Rightarrow> XPipe option" where
  "SetWriteDeadline t p = do {
     w \<leftarrow> Broadcast (wTrigger p);
     Some (p\<lparr>wdeadline := t, wTrigger := w\<rparr>)
   }"

text \<open>\<open>wait\<close> up to \<open>trigger.Wait\<close>, and from its return on.\<close>

definition wait_before :: "int option \<Rightarrow> int \<Rightarrow> XPipe \<Rightarrow> pipe_error option" where
  "wait_before deadline now p =
     (if isDeadlineHappened deadline now then Some ErrDeadlineExceeded
      else if closed p then Some ErrClosed
      else None)"

definition wait_after :: "pipe_error option \<Rightarrow> int option \<Rightarrow> int \<Rightarrow> XPipe \<Rightarrow> (pipe_error option \<times> XPipe) option" where
  "wait_after ctxErr deadline now p =
     (case ctxErr of
        Some e \<Rightarrow> do { (_, p) \<leftarrow> pipe_close p; Some (Some e, p) }
      | None \<Rightarrow>
          Some (if closed p then Some ErrClosed
                else if isDeadlineHappened deadline now then Some ErrDeadlineExceeded
                else None, p))"

text \<open>A call in progress: a \<open>Read\<close> into a buffer of the given length, a \<open>Write\<close> with what is left of its
  argument and the count \<open>n\<close> so far.  A critical section ends the call with its results (the count, the
  error and the bytes copied to the caller), or has it wait.\<close>

datatype call = Reading nat | Writing "byte list" nat

datatype section_end = Done nat "pipe_error option" "byte list" | Block call

definition read_take :: "nat \<Rightarrow> XPipe \<Rightarrow> (section_end \<times> XPipe) option" where
  "read_take n p = do {
     let m = min (length (buffer p)) n;
     w \<leftarrow> Broadcast (wTrigger p);
     Some (Done m None (take m (buffer p)), p\<lparr>buffer := drop m (buffer p), wTrigger := w\<rparr>)
   }"

definition read_loop :: "nat \<Rightarrow> int \<Rightarrow> XPipe \<Rightarrow> (section_end \<times> XPipe) option" where
  "read_loop n now p =
     (if length (buffer p) = 0
      then (case wait_before (rdeadline p) now p of
              Some err \<Rightarrow> Some (Done 0 (Some err) [], p)
            | None \<Rightarrow> Some (Block (Reading n), p\<lparr>rTrigger := wait_enter (rTrigger p)\<rparr>))
      else read_take n p)"

definition read_resume :: "nat \<Rightarrow> pipe_error option \<Rightarrow> int \<Rightarrow> XPipe \<Rightarrow> (section_end \<times> XPipe) option" where
  "read_resume n ctxErr now p = do {
     (err, p) \<leftarrow> wait_after ctxErr (rdeadline p) now (p\<lparr>rTrigger := wait_leave (rTrigger p)\<rparr>);
     case err of
       Some e \<Rightarrow> if length (buffer p) = 0 then Some (Done 0 (Some e) [], p) else read_take n p
     | None \<Rightarrow> read_loop n now p
   }"

definition bufferSpaceLeft :: "XPipe \<Rightarrow> int" where
  "bufferSpaceLeft p = MaxBufferSize - int (length (buffer p))"

definition write_put :: "int \<Rightarrow> byte list \<Rightarrow> XPipe \<Rightarrow> (nat \<times> XPipe) option" where
  "write_put spaceleft b p =
     (if spaceleft > 0
      then do {
        let m = min (length b) (nat spaceleft);
        r \<leftarrow> Broadcast (rTrigger p);
        Some (m, p\<lparr>buffer := buffer p @ take m b, rTrigger := r\<rparr>)
      }
      else Some (0, p))"

partial_function (option) write_loop :: "byte list \<Rightarrow> nat \<Rightarrow> int \<Rightarrow> XPipe \<Rightarrow> (section_end \<times> XPipe) option" where
  "write_loop b n now p =
     (if length b > 0
      then if bufferSpaceLeft p = 0
           then (case wait_before (wdeadline p) now p of
                   Some err \<Rightarrow> Some (Done n (Some err) [], p)
                 | None \<Rightarrow> Some (Block (Writing b n), p\<lparr>wTrigger := wait_enter (wTrigger p)\<rparr>))
           else do {
             (m, p) \<leftarrow> write_put (bufferSpaceLeft p) b p;
             write_loop (drop m b) (n + m) now p
           }
      else Some (Done n None [], p))"

definition write_resume :: "byte list \<Rightarrow> nat \<Rightarrow> pipe_error option \<Rightarrow> int \<Rightarrow> XPipe \<Rightarrow> (section_end \<times> XPipe) option" where
  "write_resume b n ctxErr now p = do {
     (err, p) \<leftarrow> wait_after ctxErr (wdeadline p) now (p\<lparr>wTrigger := wait_leave (wTrigger p)\<rparr>);
     case err of
       Some e \<Rightarrow> Some (Done n (Some e) [], p)
     | None \<Rightarrow> do {
         (m, p) \<leftarrow> write_put (bufferSpaceLeft p) b p;
         write_loop (drop m b) (n + m) now p
       }
   }"

text \<open>What \<open>Read\<close> and \<open>Write\<close> check before they take the mutex.\<close>

definition Read_check :: "int \<Rightarrow> XPipe \<Rightarrow> pipe_error option" where
  "Read_check now p = (if isDeadlineHappened (rdeadline p) now then Some ErrDeadlineExceeded else None)"

definition Write_check :: "int \<Rightarrow> XPipe \<Rightarrow> pipe_error option" where
  "Write_check now p =
     (if isDeadlineHappened (wdeadline p) now then Some ErrDeadlineExceeded
      else if closed p then Some ErrClosed
      else None)"

definition call_check :: "call \<Rightarrow> int \<Rightarrow> XPipe \<Rightarrow> pipe_error option" where
  "call_check c now p = (case c of Reading n \<Rightarrow> Read_check now p | Writing b n \<Rightarrow> Write_check now p)"

lemmas call_check_defs = call_check_def Read_check_def Write_check_def

fun call_lock :: "call \<Rightarrow> int \<Rightarrow> XPipe \<Rightarrow> (section_end \<times> XPipe) option" where
  "call_lock (Reading n) now p = read_loop n now p"
| "call_lock (Writing b n) now p = write_loop b n now p"

fun call_resume :: "call \<Rightarrow> pipe_error option \<Rightarrow> int \<Rightarrow> XPipe \<Rightarrow> (section_end \<times> XPipe) option" where
  "call_resume (Reading n) e now p = read_resume n e now p"
| "call_resume (Writing b n) e now p = write_resume b n e now p"

primrec trigger :: "call \<Rightarrow> XPipe \<Rightarrow> Cond" where
  "trigger (Reading n) p = rTrigger p"
| "trigger (Writing b n) p = wTrigger p"

primrec set_trigger :: "call \<Rightarrow> Cond \<Rightarrow> XPipe \<Rightarrow> XPipe" where
  "set_trigger (Reading n) w p = p\<lparr>rTrigger := w\<rparr>"
| "set_trigger (Writing b n) w p = p\<lparr>wTrigger := w\<rparr>"

section \<open>Goroutines\<close>

text \<open>Where a goroutine is: outside of the pipe, about to take the mutex for the first time, between the
  mutex and the \<open>select\<close> of \<open>Wait\<close>, in the \<open>select\<close>, or on its way from there back to the mutex.\<close>

datatype pc = Idle | Locking call | Entering call | Selecting call | Waking call "pipe_error option"

record pipe_system =
  pipe :: XPipe
  pcs :: "nat \<Rightarrow> pc"
  ctx :: "pipe_error option"

definition pipe_start :: pipe_system where
  "pipe_start = \<lparr>pipe = Pipe_New, pcs = (\<lambda>_. Idle), ctx = None\<rparr>"

datatype pipe_event =
    Call nat call int
  | Lock nat int
  | Recv nat
  | Queue nat
  | Ready nat
  | Ctx nat
  | Resume nat int
  | CloseCall nat
  | Deadlines "int option"
  | ReadDeadline "int option"
  | WriteDeadline "int option"
  | Cancel pipe_error

primrec after :: "section_end \<Rightarrow> pc" where
  "after (Done n err bs) = Idle"
| "after (Block c) = Entering c"

primrec started :: "call \<Rightarrow> bool" where
  "started (Reading n) = False"
| "started (Writing b n) \<longleftrightarrow> n \<noteq> 0"

inductive pipe_step :: "pipe_system \<Rightarrow> pipe_event \<Rightarrow> section_end option \<Rightarrow> pipe_system \<Rightarrow> bool" where
  call_err: "pcs s t = Idle \<Longrightarrow> \<not> started c \<Longrightarrow> call_check c now (pipe s) = Some e \<Longrightarrow>
     pipe_step s (Call t c now) (Some (Done 0 (Some e) [])) s"
| call_ok: "pcs s t = Idle \<Longrightarrow> \<not> started c \<Longrightarrow> call_check c now (pipe s) = None \<Longrightarrow>
     pipe_step s (Call t c now) None (s\<lparr>pcs := (pcs s)(t := Locking c)\<rparr>)"
| lock: "pcs s t = Locking c \<Longrightarrow> call_lock c now (pipe s) = Some (r, p) \<Longrightarrow>
     pipe_step s (Lock t now) (Some r) (s\<lparr>pipe := p, pcs := (pcs s)(t := after r)\<rparr>)"
| recv: "pcs s t = Entering c \<Longrightarrow> select_recv (trigger c (pipe s)) = Some w \<Longrightarrow>
     pipe_step s (Recv t) None (s\<lparr>pipe := set_trigger c w (pipe s), pcs := (pcs s)(t := Waking c None)\<rparr>)"
| ctx_enter: "pcs s t = Entering c \<Longrightarrow> ctx s = Some e \<Longrightarrow>
     pipe_step s (Ctx t) None (s\<lparr>pcs := (pcs s)(t := Waking c (Some e))\<rparr>)"
| queue: "pcs s t = Entering c \<Longrightarrow> select_recv (trigger c (pipe s)) = None \<Longrightarrow> ctx s = None \<Longrightarrow>
     pipe_step s (Queue t) None (s\<lparr>pipe := set_trigger c (select_block t (trigger c (pipe s))) (pipe s),
       pcs := (pcs s)(t := Selecting c)\<rparr>)"
| ready: "pcs s t = Selecting c \<Longrightarrow> t \<in> set (ready (trigger c (pipe s))) \<Longrightarrow>
     pipe_step s (Ready t) None (s\<lparr>pipe := set_trigger c (select_ready t (trigger c (pipe s))) (pipe s),
       pcs := (pcs s)(t := Waking c None)\<rparr>)"
| ctx_queued: "pcs s t = Selecting c \<Longrightarrow> t \<in> set (recvq (trigger c (pipe s))) \<Longrightarrow> ctx s = Some e \<Longrightarrow>
     pipe_step s (Ctx t) None (s\<lparr>pipe := set_trigger c (select_done t (trigger c (pipe s))) (pipe s),
       pcs := (pcs s)(t := Waking c (Some e))\<rparr>)"
| resume: "pcs s t = Waking c e \<Longrightarrow> call_resume c e now (pipe s) = Some (r, p) \<Longrightarrow>
     pipe_step s (Resume t now) (Some r) (s\<lparr>pipe := p, pcs := (pcs s)(t := after r)\<rparr>)"
| close: "Close (pipe s) = Some (e, p) \<Longrightarrow> pipe_step s (CloseCall t) None (s\<lparr>pipe := p\<rparr>)"
| deadlines: "SetDeadline d (pipe s) = Some p \<Longrightarrow> pipe_step s (Deadlines d) None (s\<lparr>pipe := p\<rparr>)"
| read_deadline: "SetReadDeadline d (pipe s) = Some p \<Longrightarrow> pipe_step s (ReadDeadline d) None (s\<lparr>pipe := p\<rparr>)"
| write_deadline: "SetWriteDeadline d (pipe s) = Some p \<Longrightarrow> pipe_step s (WriteDeadline d) None (s\<lparr>pipe := p\<rparr>)"
| cancel: "ctx s = None \<Longrightarrow> pipe_step s (Cancel e) None (s\<lparr>ctx := Some e\<rparr>)"

section \<open>Critical sections return\<close>

text \<open>A valid pipe: the channels are open and the buffer is within its bound.  Every critical section returns on
  a valid pipe and leaves one behind.\<close>

definition pipe_valid :: "XPipe \<Rightarrow> bool" where
  "pipe_valid p \<longleftrightarrow> \<not> notify_closed (rTrigger p) \<and> \<not> notify_closed (wTrigger p) \<and> 0 \<le> bufferSpaceLeft p"

definition bc :: "Cond \<Rightarrow> Cond" where
  "bc w = (if 0 < waiters w then hand_over (nat (waiters w)) w else w)"

lemma Broadcast_bc: "\<not> notify_closed w \<Longrightarrow> Broadcast w = Some (bc w)"
  by (simp add: Broadcast_open bc_def)

lemma notify_closed_bc [simp]: "notify_closed (bc w) = notify_closed w"
  by (simp add: bc_def hand_over_def)

lemma notify_closed_parts [simp]:
  "notify_closed (wait_enter w) = notify_closed w" "notify_closed (wait_leave w) = notify_closed w"
  "notify_closed (select_block t w) = notify_closed w" "notify_closed (select_ready t w) = notify_closed w"
  "notify_closed (select_done t w) = notify_closed w"
  "select_recv w = Some w' \<Longrightarrow> notify_closed w' = notify_closed w"
  by (auto simp: wait_parts select_recv_def split: if_splits)

text \<open>What the sections do, written out.\<close>

definition closed_pipe :: "XPipe \<Rightarrow> XPipe" where
  "closed_pipe p = (if closed p then p else p\<lparr>closed := True, rTrigger := bc (rTrigger p), wTrigger := bc (wTrigger p)\<rparr>)"

definition put_bytes :: "nat \<Rightarrow> byte list \<Rightarrow> XPipe \<Rightarrow> XPipe" where
  "put_bytes m b p = p\<lparr>buffer := buffer p @ take m b, rTrigger := bc (rTrigger p)\<rparr>"

definition write_wait :: "byte list \<Rightarrow> nat \<Rightarrow> int \<Rightarrow> XPipe \<Rightarrow> section_end \<times> XPipe" where
  "write_wait b n now p =
     (case wait_before (wdeadline p) now p of
        Some err \<Rightarrow> (Done n (Some err) [], p)
      | None \<Rightarrow> (Block (Writing b n), p\<lparr>wTrigger := wait_enter (wTrigger p)\<rparr>))"

definition write_all :: "byte list \<Rightarrow> nat \<Rightarrow> int \<Rightarrow> XPipe \<Rightarrow> section_end \<times> XPipe" where
  "write_all b n now p =
     (let m = min (length b) (nat (bufferSpaceLeft p)); p' = (if m = 0 then p else put_bytes m b p) in
      if m = length b then (Done (n + m) None [], p') else write_wait (drop m b) (n + m) now p')"

lemma pipe_close_valid: "pipe_valid p \<Longrightarrow> \<exists>e. pipe_close p = Some (e, closed_pipe p)"
  by (simp add: pipe_valid_def pipe_close_def Broadcast_bc closed_pipe_def)

lemma closed_pipe_simps [simp]:
  "buffer (closed_pipe p) = buffer p" "closed (closed_pipe p)" "pipe_valid (closed_pipe p) = pipe_valid p"
  "rdeadline (closed_pipe p) = rdeadline p" "wdeadline (closed_pipe p) = wdeadline p"
  by (simp_all add: closed_pipe_def pipe_valid_def bufferSpaceLeft_def)

lemma pipe_valid_updates [simp]:
  "pipe_valid (p\<lparr>rTrigger := wait_leave (rTrigger p)\<rparr>) = pipe_valid p"
  "pipe_valid (p\<lparr>wTrigger := wait_leave (wTrigger p)\<rparr>) = pipe_valid p"
  "pipe_valid (p\<lparr>rTrigger := wait_enter (rTrigger p)\<rparr>) = pipe_valid p"
  "pipe_valid (p\<lparr>wTrigger := wait_enter (wTrigger p)\<rparr>) = pipe_valid p"
  by (simp_all add: pipe_valid_def bufferSpaceLeft_def)

lemma put_bytes_valid: "pipe_valid p \<Longrightarrow> int m \<le> bufferSpaceLeft p \<Longrightarrow> pipe_valid (put_bytes m b p)"
  by (auto simp: pipe_valid_def put_bytes_def bufferSpaceLeft_def)

lemma space_put_bytes: "m \<le> length b \<Longrightarrow> bufferSpaceLeft (put_bytes m b p) = bufferSpaceLeft p - int m"
  by (simp add: put_bytes_def bufferSpaceLeft_def)

lemma write_put_valid:
  "pipe_valid p \<Longrightarrow> write_put (bufferSpaceLeft p) b p
     = Some (let m = min (length b) (nat (bufferSpaceLeft p)) in
             (m, if bufferSpaceLeft p = 0 then p else put_bytes m b p))"
  by (auto simp: write_put_def pipe_valid_def Broadcast_bc put_bytes_def Let_def)

lemma write_loop_valid:
  assumes "pipe_valid p"
  shows "write_loop b n now p = Some (write_all b n now p)"
proof (cases "b = [] \<or> bufferSpaceLeft p = 0")
  case True
  then show ?thesis
    by (auto simp: write_loop.simps [of b] write_all_def write_wait_def Let_def split: option.split)
next
  case False
  define m where "m = min (length b) (nat (bufferSpaceLeft p))"
  have pos: "0 < bufferSpaceLeft p" "0 < m" "m \<le> length b"
    using assms False by (auto simp: pipe_valid_def m_def)
  have "write_loop b n now p = write_loop (drop m b) (n + m) now (put_bytes m b p)"
    using False pos(1) by (subst write_loop.simps) (simp add: write_put_valid [OF assms] m_def Let_def)
  moreover have "drop m b = [] \<or> bufferSpaceLeft (put_bytes m b p) = 0"
    using pos by (auto simp: space_put_bytes m_def)
  ultimately show ?thesis
    using pos by (auto simp: write_loop.simps [of "drop m b"] write_all_def write_wait_def Let_def
        m_def [symmetric] split: option.split)
qed

definition read_all :: "nat \<Rightarrow> XPipe \<Rightarrow> section_end \<times> XPipe" where
  "read_all n p = (let m = min (length (buffer p)) n in
     (Done m None (take m (buffer p)), p\<lparr>buffer := drop m (buffer p), wTrigger := bc (wTrigger p)\<rparr>))"

lemma read_take_valid: "pipe_valid p \<Longrightarrow> read_take n p = Some (read_all n p)"
  by (simp add: read_take_def read_all_def pipe_valid_def Broadcast_bc Let_def)

section \<open>First in, first out\<close>

text \<open>The bytes a section takes from its caller, and those it gives to it.\<close>

primrec accepted_by :: "call \<Rightarrow> section_end \<Rightarrow> byte list" where
  "accepted_by (Reading n) r = []"
| "accepted_by (Writing b n) r =
     take (case r of Done n' err bs \<Rightarrow> n' - n | Block (Writing b' n') \<Rightarrow> n' - n | Block (Reading _) \<Rightarrow> 0) b"

primrec delivered :: "section_end \<Rightarrow> byte list" where
  "delivered (Done n err bs) = bs"
| "delivered (Block c) = []"

text \<open>The count that a \<open>Write\<close> keeps is the number of bytes accepted from it, and a \<open>Write\<close> without an error
  was accepted as a whole.\<close>

fun counts :: "call \<Rightarrow> section_end \<Rightarrow> bool" where
  "counts (Writing b n) (Done n' err bs) \<longleftrightarrow>
     n' = n + length (accepted_by (Writing b n) (Done n' err bs)) \<and> (err = None \<longrightarrow> n' = n + length b) \<and> bs = []"
| "counts (Writing b n) (Block (Writing b' n')) \<longleftrightarrow>
     n' = n + length (accepted_by (Writing b n) (Block (Writing b' n')))
     \<and> b = accepted_by (Writing b n) (Block (Writing b' n')) @ b' \<and> b' \<noteq> []"
| "counts (Writing b n) (Block (Reading k)) \<longleftrightarrow> False"
| "counts (Reading k) (Done n err bs) \<longleftrightarrow> n = length bs \<and> n \<le> k"
| "counts (Reading k) (Block c) \<longleftrightarrow> c = Reading k"

definition good_section :: "call \<Rightarrow> XPipe \<Rightarrow> section_end \<times> XPipe \<Rightarrow> bool" where
  "good_section c p x \<longleftrightarrow> pipe_valid (snd x) \<and> counts c (fst x)
     \<and> buffer p @ accepted_by c (fst x) = delivered (fst x) @ buffer (snd x)"

lemma good_write_wait:
  assumes "pipe_valid p" and "b = bs @ b'" and "b' \<noteq> []" and "n' = n + length bs"
    and "buffer p = buffer p0 @ bs"
  shows "good_section (Writing b n) p0 (write_wait b' n' now p)"
  using assms by (auto simp: good_section_def write_wait_def split: option.split)

lemma good_write_all:
  assumes "pipe_valid p" and "buffer p = buffer p0"
  shows "good_section (Writing b n) p0 (write_all b n now p)"
proof -
  define m where "m = min (length b) (nat (bufferSpaceLeft p))"
  define p' where "p' = (if m = 0 then p else put_bytes m b p)"
  have "int m \<le> bufferSpaceLeft p" using assms(1) by (auto simp: m_def pipe_valid_def)
  then have v: "pipe_valid p'" and buf: "buffer p' = buffer p0 @ take m b" and le: "m \<le> length b"
    using assms by (auto simp: p'_def put_bytes_valid) (simp_all add: put_bytes_def m_def)
  have all: "write_all b n now p
      = (if m = length b then (Done (n + m) None [], p') else write_wait (drop m b) (n + m) now p')"
    by (simp add: write_all_def m_def p'_def Let_def)
  show ?thesis
  proof (cases "m = length b")
    case True then show ?thesis using v buf all by (simp add: good_section_def)
  next
    case False
    have "good_section (Writing b n) p0 (write_wait (drop m b) (n + m) now p')"
      using v buf le False by (intro good_write_wait [where bs = "take m b"]) simp_all
    then show ?thesis using False all by simp
  qed
qed

lemma good_read_all:
  "pipe_valid p \<Longrightarrow> buffer p = buffer p0 \<Longrightarrow> good_section (Reading n) p0 (read_all n p)"
  by (auto simp: good_section_def read_all_def Let_def pipe_valid_def bufferSpaceLeft_def)

lemma read_loop_good:
  assumes "pipe_valid p" and "buffer p = buffer p0"
  shows "\<exists>x. read_loop n now p = Some x \<and> good_section (Reading n) p0 x"
proof (cases "buffer p = []")
  case True
  then show ?thesis
    using assms by (auto simp: read_loop_def good_section_def split: option.split)
next
  case False
  then show ?thesis
    using assms by (auto simp: read_loop_def read_take_valid good_read_all)
qed

text \<open>\<open>wait\<close> comes back with the pipe closed or unchanged.\<close>

lemma wait_after_valid:
  assumes "pipe_valid p"
  shows "\<exists>err p'. wait_after e d now p = Some (err, p') \<and> pipe_valid p' \<and> buffer p' = buffer p
    \<and> (p' = p \<or> p' = closed_pipe p \<and> err = e \<and> e \<noteq> None) \<and> (err = None \<longrightarrow> p' = p \<and> \<not> closed p)"
proof (cases e)
  case None
  then show ?thesis using assms by (simp add: wait_after_def)
next
  case (Some e')
  obtain e2 where "pipe_close p = Some (e2, closed_pipe p)" using pipe_close_valid [OF assms] by blast
  then show ?thesis using assms Some by (simp add: wait_after_def)
qed

lemma read_resume_good:
  assumes "pipe_valid p"
  shows "\<exists>x. read_resume n e now p = Some x \<and> good_section (Reading n) p x"
proof -
  let ?q = "p\<lparr>rTrigger := wait_leave (rTrigger p)\<rparr>"
  obtain err p' where w: "wait_after e (rdeadline p) now ?q = Some (err, p')"
    and p': "pipe_valid p'" "buffer p' = buffer p"
    using wait_after_valid [of ?q e "rdeadline p" now] assms by auto
  show ?thesis
  proof (cases err)
    case None
    then show ?thesis using w read_loop_good [OF p'] by (simp add: read_resume_def)
  next
    case (Some e')
    show ?thesis
    proof (cases "buffer p = []")
      case True
      then show ?thesis using w Some p' by (simp add: read_resume_def good_section_def)
    next
      case False
      then show ?thesis
        using w Some p' good_read_all [OF p'] by (simp add: read_resume_def read_take_valid)
    qed
  qed
qed

lemma write_resume_valid:
  assumes "wait_after e (wdeadline p) now (p\<lparr>wTrigger := wait_leave (wTrigger p)\<rparr>) = Some (err, p')"
    and "pipe_valid p'" and "b \<noteq> []"
  shows "write_resume b n e now p
    = Some (case err of Some e' \<Rightarrow> (Done n (Some e') [], p') | None \<Rightarrow> write_all b n now p')"
proof (cases err)
  case None
  let ?m = "min (length b) (nat (bufferSpaceLeft p'))"
  let ?q = "if bufferSpaceLeft p' = 0 then p' else put_bytes ?m b p'"
  have "write_resume b n e now p = write_loop (drop ?m b) (n + ?m) now ?q"
    using assms None by (simp add: write_resume_def write_put_valid Let_def)
  also have "\<dots> = Some (write_all b n now p')"
  proof (cases "bufferSpaceLeft p' = 0")
    case True
    then show ?thesis using assms(2) by (simp add: write_loop_valid)
  next
    case False
    then have "write_loop b n now p' = write_loop (drop ?m b) (n + ?m) now ?q"
      using assms(3) by (subst write_loop.simps) (simp add: write_put_valid [OF assms(2)] Let_def)
    then show ?thesis using write_loop_valid [OF assms(2)] by simp
  qed
  finally show ?thesis using None by simp
next
  case (Some e')
  then show ?thesis using assms by (simp add: write_resume_def)
qed

lemma write_resume_good:
  assumes "pipe_valid p" and "b \<noteq> []"
  shows "\<exists>x. write_resume b n e now p = Some x \<and> good_section (Writing b n) p x"
proof -
  let ?q = "p\<lparr>wTrigger := wait_leave (wTrigger p)\<rparr>"
  obtain err p' where w: "wait_after e (wdeadline p) now ?q = Some (err, p')"
    and p': "pipe_valid p'" "buffer p' = buffer p"
    using wait_after_valid [of ?q e "wdeadline p" now] assms by auto
  then show ?thesis
    using write_resume_valid [OF w p'(1) assms(2)] good_write_all [OF p']
    by (cases err) (auto simp: good_section_def)
qed

text \<open>So every section returns, and is good.\<close>

primrec left_over :: "call \<Rightarrow> bool" where
  "left_over (Reading n) \<longleftrightarrow> True"
| "left_over (Writing b n) \<longleftrightarrow> b \<noteq> []"

lemma call_lock_good: "pipe_valid p \<Longrightarrow> \<exists>x. call_lock c now p = Some x \<and> good_section c p x"
  using read_loop_good [of p p] by (cases c) (simp_all add: write_loop_valid good_write_all del: split_paired_Ex)

lemma call_resume_good:
  "pipe_valid p \<Longrightarrow> left_over c \<Longrightarrow> \<exists>x. call_resume c e now p = Some x \<and> good_section c p x"
  by (cases c) (simp_all add: read_resume_good write_resume_good del: split_paired_Ex)

lemma good_section_after: "good_section c p (r, p') \<Longrightarrow> after r = Idle \<or> (\<exists>c'. after r = Entering c' \<and> left_over c')"
  by (cases c; cases r) (auto simp: good_section_def elim!: counts.elims)

text \<open>Runs of the system, with the bytes accepted from writers and delivered to readers so far, in the order
  of the critical sections.\<close>

definition call_of :: "pc \<Rightarrow> call option" where
  "call_of x = (case x of Idle \<Rightarrow> None | Locking c \<Rightarrow> Some c | Entering c \<Rightarrow> Some c | Selecting c \<Rightarrow> Some c
     | Waking c e \<Rightarrow> Some c)"

definition accepted :: "pipe_system \<Rightarrow> pipe_event \<Rightarrow> section_end option \<Rightarrow> byte list" where
  "accepted s ev r =
     (case r of
        None \<Rightarrow> []
      | Some r \<Rightarrow>
          (case ev of
             Lock t now \<Rightarrow> (case call_of (pcs s t) of Some c \<Rightarrow> accepted_by c r | None \<Rightarrow> [])
           | Resume t now \<Rightarrow> (case call_of (pcs s t) of Some c \<Rightarrow> accepted_by c r | None \<Rightarrow> [])
           | _ \<Rightarrow> []))"

inductive pipe_reach :: "pipe_event list \<Rightarrow> byte list \<Rightarrow> byte list \<Rightarrow> pipe_system \<Rightarrow> bool" where
  start: "pipe_reach [] [] [] pipe_start"
| step: "pipe_reach evs sent got s \<Longrightarrow> pipe_step s ev r s' \<Longrightarrow>
     pipe_reach (evs @ [ev]) (sent @ accepted s ev r) (got @ (case r of None \<Rightarrow> [] | Some r \<Rightarrow> delivered r)) s'"

definition system_valid :: "pipe_system \<Rightarrow> bool" where
  "system_valid s \<longleftrightarrow> pipe_valid (pipe s)
     \<and> (\<forall>t c e. pcs s t = Entering c \<or> pcs s t = Selecting c \<or> pcs s t = Waking c e \<longrightarrow> left_over c)"

lemma pipe_valid_set_trigger: "pipe_valid p \<Longrightarrow> \<not> notify_closed w \<Longrightarrow> pipe_valid (set_trigger c w p)"
  by (cases c) (simp_all add: pipe_valid_def bufferSpaceLeft_def)

lemma pipe_valid_trigger: "pipe_valid p \<Longrightarrow> \<not> notify_closed (trigger c p)"
  by (cases c) (simp_all add: pipe_valid_def)

lemma buffer_set_trigger [simp]: "buffer (set_trigger c w p) = buffer p"
  by (cases c) simp_all

lemma deadlines_valid:
  "pipe_valid p \<Longrightarrow> SetDeadline d p = Some (p\<lparr>rdeadline := d, wdeadline := d, rTrigger := bc (rTrigger p), wTrigger := bc (wTrigger p)\<rparr>)"
  "pipe_valid p \<Longrightarrow> SetReadDeadline d p = Some (p\<lparr>rdeadline := d, rTrigger := bc (rTrigger p)\<rparr>)"
  "pipe_valid p \<Longrightarrow> SetWriteDeadline d p = Some (p\<lparr>wdeadline := d, wTrigger := bc (wTrigger p)\<rparr>)"
  by (simp_all add: pipe_valid_def SetDeadline_def SetReadDeadline_def SetWriteDeadline_def Broadcast_bc)

lemma system_valid_start: "system_valid pipe_start"
  by (simp add: system_valid_def pipe_start_def pipe_valid_def Pipe_New_def NewCond_def bufferSpaceLeft_def
      MaxBufferSize_def)

lemma pipe_step_valid:
  assumes "pipe_step s ev r s'" and "system_valid s"
  shows "system_valid s' \<and> buffer (pipe s) @ accepted s ev r
    = (case r of None \<Rightarrow> [] | Some r \<Rightarrow> delivered r) @ buffer (pipe s')"
  using assms
proof (cases rule: pipe_step.cases)
  case (lock t c now r' p)
  then have "good_section c (pipe s) (r', p)"
    using call_lock_good [of "pipe s" c now] assms(2) by (auto simp: system_valid_def)
  then show ?thesis
    using lock assms(2) good_section_after [of c "pipe s" r' p]
    by (auto simp: good_section_def system_valid_def accepted_def call_of_def split: if_splits)
next
  case (resume t c e now r' p)
  then have "good_section c (pipe s) (r', p)"
    using call_resume_good [of "pipe s" c e now] assms(2) by (auto simp: system_valid_def)
  then show ?thesis
    using resume assms(2) good_section_after [of c "pipe s" r' p]
    by (auto simp: good_section_def system_valid_def accepted_def call_of_def split: if_splits)
next
  case (close e p t)
  then have "p = closed_pipe (pipe s)"
    using pipe_close_valid [of "pipe s"] assms(2) by (auto simp: system_valid_def Close_def)
  then show ?thesis using close assms(2) by (simp add: system_valid_def accepted_def)
qed (auto simp: system_valid_def accepted_def deadlines_valid pipe_valid_set_trigger pipe_valid_trigger
    split: if_splits; simp add: pipe_valid_def bufferSpaceLeft_def; fail)+

lemma pipe_reach_valid:
  "pipe_reach evs sent got s \<Longrightarrow> system_valid s \<and> sent = got @ buffer (pipe s)"
proof (induction rule: pipe_reach.induct)
  case start
  show ?case using system_valid_start by (simp add: pipe_start_def Pipe_New_def)
next
  case (step evs sent got s ev r s')
  then show ?case using pipe_step_valid [of s ev r s'] by simp
qed

text \<open>C26: however any number of goroutines interleave their calls, nothing is lost, repeated or reordered: the
  bytes given to readers followed by the buffered ones are the bytes accepted from writers, in the order
  of the critical sections, and at most 16384 bytes are buffered.  No goroutine that has the mutex
  panics or loops: whoever is about to take it, or to take it back after waiting, has a next step,
  and the count a \<open>Write\<close> returns is the number of bytes accepted from it.\<close>

theorem pipe_fifo:
  assumes "pipe_reach evs sent got s"
  shows "sent = got @ buffer (pipe s) \<and> Available (pipe s) \<le> 16384
    \<and> (\<forall>t c now. pcs s t = Locking c
         \<longrightarrow> (\<exists>r s'. pipe_step s (Lock t now) (Some r) s' \<and> counts c r))
    \<and> (\<forall>t c e now. pcs s t = Waking c e
         \<longrightarrow> (\<exists>r s'. pipe_step s (Resume t now) (Some r) s' \<and> counts c r))"
proof -
  have v: "pipe_valid (pipe s)" and lo: "\<And>t c e. pcs s t = Waking c e \<Longrightarrow> left_over c"
    and eq: "sent = got @ buffer (pipe s)"
    using pipe_reach_valid [OF assms] by (auto simp: system_valid_def)
  have "\<exists>r s'. pipe_step s (Lock t now) (Some r) s' \<and> counts c r" if "pcs s t = Locking c" for t c now
    using call_lock_good [OF v, of c now] pipe_step.lock [OF that] by (force simp: good_section_def)
  moreover have "\<exists>r s'. pipe_step s (Resume t now) (Some r) s' \<and> counts c r" if "pcs s t = Waking c e" for t c e now
    using call_resume_good [OF v lo [OF that], of e now] pipe_step.resume [OF that] by (force simp: good_section_def)
  moreover have "length (buffer (pipe s)) \<le> 16384"
    using v by (simp add: pipe_valid_def bufferSpaceLeft_def MaxBufferSize_def)
  ultimately show ?thesis using eq by (auto simp: Available_def)
qed

text \<open>The steps as a function, to follow a given interleaving.\<close>

fun pipe_exec :: "pipe_system \<Rightarrow> pipe_event \<Rightarrow> (section_end option \<times> pipe_system) option" where
  "pipe_exec s (Call t c now) =
     (if pcs s t = Idle \<and> \<not> started c
      then (case call_check c now (pipe s) of
              Some e \<Rightarrow> Some (Some (Done 0 (Some e) []), s)
            | None \<Rightarrow> Some (None, s\<lparr>pcs := (pcs s)(t := Locking c)\<rparr>))
      else None)"
| "pipe_exec s (Lock t now) =
     (case pcs s t of
        Locking c \<Rightarrow> do { (r, p) \<leftarrow> call_lock c now (pipe s); Some (Some r, s\<lparr>pipe := p, pcs := (pcs s)(t := after r)\<rparr>) }
      | _ \<Rightarrow> None)"
| "pipe_exec s (Recv t) =
     (case pcs s t of
        Entering c \<Rightarrow> do { w \<leftarrow> select_recv (trigger c (pipe s));
          Some (None, s\<lparr>pipe := set_trigger c w (pipe s), pcs := (pcs s)(t := Waking c None)\<rparr>) }
      | _ \<Rightarrow> None)"
| "pipe_exec s (Queue t) =
     (case pcs s t of
        Entering c \<Rightarrow>
          if select_recv (trigger c (pipe s)) = None \<and> ctx s = None
          then Some (None, s\<lparr>pipe := set_trigger c (select_block t (trigger c (pipe s))) (pipe s),
                             pcs := (pcs s)(t := Selecting c)\<rparr>)
          else None
      | _ \<Rightarrow> None)"
| "pipe_exec s (Ready t) =
     (case pcs s t of
        Selecting c \<Rightarrow>
          if t \<in> set (ready (trigger c (pipe s)))
          then Some (None, s\<lparr>pipe := set_trigger c (select_ready t (trigger c (pipe s))) (pipe s),
                             pcs := (pcs s)(t := Waking c None)\<rparr>)
          else None
      | _ \<Rightarrow> None)"
| "pipe_exec s (Resume t now) =
     (case pcs s t of
        Waking c e \<Rightarrow> do { (r, p) \<leftarrow> call_resume c e now (pipe s); Some (Some r, s\<lparr>pipe := p, pcs := (pcs s)(t := after r)\<rparr>) }
      | _ \<Rightarrow> None)"
| "pipe_exec s (CloseCall t) = do { (e, p) \<leftarrow> Close (pipe s); Some (None, s\<lparr>pipe := p\<rparr>) }"
| "pipe_exec s ev = None"

fun pipe_run :: "pipe_event list \<Rightarrow> pipe_system \<Rightarrow> (byte list \<times> byte list \<times> pipe_system) option" where
  "pipe_run [] s = Some ([], [], s)"
| "pipe_run (ev # evs) s =
     do { (r, s') \<leftarrow> pipe_exec s ev;
          (sent, got, s'') \<leftarrow> pipe_run evs s';
          Some (accepted s ev r @ sent, (case r of None \<Rightarrow> [] | Some r \<Rightarrow> delivered r) @ got, s'') }"

lemma pipe_exec_step: "pipe_exec s ev = Some (r, s') \<Longrightarrow> pipe_step s ev r s'"
  by (induction s ev rule: pipe_exec.induct)
    (auto simp: Option.bind_eq_Some_conv intro: pipe_step.intros split: pc.splits option.splits if_splits)

lemma pipe_run_reach:
  "pipe_run evs s = Some (sent, got, s') \<Longrightarrow> pipe_reach evs0 sent0 got0 s
   \<Longrightarrow> pipe_reach (evs0 @ evs) (sent0 @ sent) (got0 @ got) s'"
proof (induction evs arbitrary: s evs0 sent0 got0 sent got)
  case (Cons ev evs)
  obtain r s1 sent1 got1 where *: "pipe_exec s ev = Some (r, s1)" "pipe_run evs s1 = Some (sent1, got1, s')"
    "sent = accepted s ev r @ sent1" "got = (case r of None \<Rightarrow> [] | Some r \<Rightarrow> delivered r) @ got1"
    using Cons.prems(1) by (auto simp: Option.bind_eq_Some_conv)
  show ?case
    using Cons.IH [OF *(2) pipe_reach.step [OF Cons.prems(2) pipe_exec_step [OF *(1)]]] *(3,4) by simp
qed simp

text \<open>Goroutine 0 waits for data, goroutine 1 writes three bytes, and goroutine 0 wakes up and reads two of them.\<close>

definition demo_events :: "pipe_event list" where
  "demo_events = [Call 0 (Reading 2) 5, Lock 0 5, Queue 0, Call 1 (Writing [1, 2, 3] 0) 6, Lock 1 6, Ready 0, Resume 0 7]"

lemmas section_defs = pipe_start_def Pipe_New_def NewCond_def call_check_defs isDeadlineHappened_def
  read_loop_def wait_before_def wait_parts select_recv_def write_loop_valid pipe_valid_def write_all_def
  write_wait_def put_bytes_def bufferSpaceLeft_def MaxBufferSize_def bc_def hand_over_def read_resume_def
  wait_after_def read_take_valid read_all_def int64_def call_of_def Close_def pipe_close_def Broadcast_bc

lemma demo_run:
  "\<exists>s. pipe_run demo_events pipe_start = Some ([1, 2, 3], [1, 2], s)"
  by (simp add: demo_events_def section_defs accepted_def)

theorem pipe_fifo_witness:
  "\<exists>s. pipe_reach demo_events [1, 2, 3] [1, 2] s \<and> [1, 2, 3] = [1, 2] @ buffer (pipe s) \<and> Available (pipe s) \<le> 16384"
proof -
  obtain s where "pipe_run demo_events pipe_start = Some ([1, 2, 3], [1, 2], s)" using demo_run by blast
  from pipe_run_reach [OF this pipe_reach.start] have "pipe_reach demo_events [1, 2, 3] [1, 2] s" by simp
  with pipe_fifo [OF this] show ?thesis by blast
qed

section \<open>One reader and one writer\<close>

text \<open>With one goroutine that reads and one that writes (or one that does both), closing and setting
  deadlines being open to all, a sleeping reader means that there is nothing to read, a sleeping writer
  that there is no room, and neither sleeps on a closed pipe.\<close>

primrec is_read :: "call \<Rightarrow> bool" where
  "is_read (Reading n) \<longleftrightarrow> True"
| "is_read (Writing b n) \<longleftrightarrow> False"

definition phase_of :: "bool \<Rightarrow> pc \<Rightarrow> phase" where
  "phase_of rd x = (case x of
     Idle \<Rightarrow> Away | Locking c \<Rightarrow> Away
   | Entering c \<Rightarrow> if is_read c = rd then Coming else Away
   | Selecting c \<Rightarrow> if is_read c = rd then Queued else Away
   | Waking c e \<Rightarrow> if is_read c = rd then Leaving else Away)"

definition pair_ok :: "nat \<Rightarrow> nat \<Rightarrow> phase \<Rightarrow> phase \<Rightarrow> XPipe \<Rightarrow> bool" where
  "pair_ok r w pr pw p \<longleftrightarrow>
     one_waiter r pr (buffer p = [] \<and> \<not> closed p) (rTrigger p)
     \<and> one_waiter w pw (bufferSpaceLeft p = 0 \<and> \<not> closed p) (wTrigger p)"

lemma one_waiter_bc: "one_waiter t ph c w \<Longrightarrow> one_waiter t ph c' (bc w)"
  using one_waiter_Broadcast [of t ph c w c'] one_waiter_open [of t ph c w] by (auto simp: Broadcast_bc)

lemma one_waiter_Away: "one_waiter t Away c w \<Longrightarrow> one_waiter t Away c' w"
  by simp

lemma pair_ok_read_all:
  "pair_ok r w Away pw p \<Longrightarrow> pair_ok r w Away pw (snd (read_all n p))"
  unfolding pair_ok_def read_all_def Let_def by (auto intro: one_waiter_bc)

lemma pair_ok_closed_pipe: "pair_ok r w pr pw p \<Longrightarrow> pair_ok r w pr pw (closed_pipe p)"
  unfolding pair_ok_def closed_pipe_def by (auto intro: one_waiter_bc)

lemma pair_ok_put: "pair_ok r w pr Away p \<Longrightarrow> pair_ok r w pr Away (put_bytes m b p)"
  unfolding pair_ok_def put_bytes_def by (auto intro: one_waiter_bc)

lemma pair_ok_read_loop:
  assumes "pair_ok r w Away pw p" and "pipe_valid p" and "read_loop n now p = Some (x, p')"
  shows "pair_ok r w (phase_of True (after x)) pw p' \<and> (after x = Idle \<or> after x = Entering (Reading n))"
proof (cases "buffer p = []")
  case True
  then show ?thesis
    using assms(1,3)
    by (auto simp: read_loop_def wait_before_def phase_of_def pair_ok_def bufferSpaceLeft_def wait_enter_def
        int64_def split: if_splits)
next
  case False
  then have "read_all n p = (x, p')" using assms(2,3) by (simp add: read_loop_def read_take_valid)
  then show ?thesis
    using pair_ok_read_all [OF assms(1), of n] by (auto simp: read_all_def Let_def phase_of_def)
qed

lemma pair_ok_write_wait:
  assumes "pair_ok r w pr Away p" and "bufferSpaceLeft p = 0" and "write_wait b n now p = (x, p')"
  shows "pair_ok r w pr (phase_of False (after x)) p' \<and> (after x = Idle \<or> after x = Entering (Writing b n))"
  using assms
  by (auto simp: write_wait_def wait_before_def phase_of_def pair_ok_def bufferSpaceLeft_def wait_enter_def
      int64_def split: if_splits)

lemma pair_ok_write_all:
  assumes "pair_ok r w pr Away p" and "pipe_valid p" and "write_all b n now p = (x, p')"
  shows "pair_ok r w pr (phase_of False (after x)) p' \<and> (after x = Idle \<or> (\<exists>b n. after x = Entering (Writing b n)))"
proof -
  define m where "m = min (length b) (nat (bufferSpaceLeft p))"
  define q where "q = (if m = 0 then p else put_bytes m b p)"
  have q: "pair_ok r w pr Away q" using assms(1) by (simp add: q_def pair_ok_put)
  have x: "(if m = length b then (Done (n + m) None [], q) else write_wait (drop m b) (n + m) now q) = (x, p')"
    using assms(3) unfolding write_all_def Let_def m_def q_def .
  show ?thesis
  proof (cases "m = length b")
    case True then show ?thesis using x q by (auto simp: phase_of_def)
  next
    case False
    then have "bufferSpaceLeft q = 0"
      using assms(2) by (auto simp: q_def m_def pipe_valid_def space_put_bytes)
    then show ?thesis using x q False pair_ok_write_wait [of r w pr q "drop m b" "n + m" now x p'] by auto
  qed
qed

lemma pair_ok_wait_after:
  assumes "pair_ok r w pr pw p" and "pipe_valid p" and "wait_after e d now p = Some (err, p')"
  shows "pair_ok r w pr pw p'"
  using wait_after_valid [OF assms(2), of e d now] assms(1,3) pair_ok_closed_pipe by auto

lemma pair_ok_read_resume:
  assumes "pair_ok r w Leaving pw p" and "pipe_valid p" and "read_resume n e now p = Some (x, p')"
  shows "pair_ok r w (phase_of True (after x)) pw p' \<and> (after x = Idle \<or> after x = Entering (Reading n))"
proof -
  let ?q = "p\<lparr>rTrigger := wait_leave (rTrigger p)\<rparr>"
  have "pair_ok r w Away pw ?q"
    using assms(1) by (simp add: pair_ok_def bufferSpaceLeft_def wait_leave_def int64_def)
  moreover obtain err p1 where w: "wait_after e (rdeadline p) now ?q = Some (err, p1)" and v: "pipe_valid p1"
    using wait_after_valid [of ?q e "rdeadline p" now] assms(2) by auto
  ultimately have p1: "pair_ok r w Away pw p1" using pair_ok_wait_after assms(2) by simp
  show ?thesis
  proof (cases err)
    case None
    then show ?thesis using assms(3) w pair_ok_read_loop [OF p1 v] by (simp add: read_resume_def)
  next
    case (Some e')
    then have "(if buffer p1 = [] then (Done 0 (Some e') [], p1) else read_all n p1) = (x, p')"
      using assms(3) w v by (auto simp: read_resume_def read_take_valid split: if_splits)
    then show ?thesis
      using p1 pair_ok_read_all [OF p1, of n] by (auto simp: read_all_def Let_def phase_of_def split: if_splits)
  qed
qed

lemma pair_ok_write_resume:
  assumes "pair_ok r w pr Leaving p" and "pipe_valid p" and "b \<noteq> []" and "write_resume b n e now p = Some (x, p')"
  shows "pair_ok r w pr (phase_of False (after x)) p' \<and> (after x = Idle \<or> (\<exists>b n. after x = Entering (Writing b n)))"
proof -
  let ?q = "p\<lparr>wTrigger := wait_leave (wTrigger p)\<rparr>"
  have "pair_ok r w pr Away ?q"
    using assms(1) by (simp add: pair_ok_def bufferSpaceLeft_def wait_leave_def int64_def)
  moreover obtain err p1 where w: "wait_after e (wdeadline p) now ?q = Some (err, p1)" and v: "pipe_valid p1"
    using wait_after_valid [of ?q e "wdeadline p" now] assms(2) by auto
  ultimately have p1: "pair_ok r w pr Away p1" using pair_ok_wait_after assms(2) by simp
  have "(case err of Some e' \<Rightarrow> (Done n (Some e') [], p1) | None \<Rightarrow> write_all b n now p1) = (x, p')"
    using write_resume_valid [OF w v assms(3)] assms(4) by simp
  then show ?thesis
    using p1 pair_ok_write_all [OF p1 v] by (cases err) (auto simp: phase_of_def)
qed

text \<open>The invariant of the whole system.\<close>

definition users_ok :: "nat \<Rightarrow> nat \<Rightarrow> pipe_system \<Rightarrow> bool" where
  "users_ok r w s \<longleftrightarrow> (\<forall>t c. call_of (pcs s t) = Some c \<longrightarrow> t = (if is_read c then r else w))"

definition pair_inv :: "nat \<Rightarrow> nat \<Rightarrow> pipe_system \<Rightarrow> bool" where
  "pair_inv r w s \<longleftrightarrow> system_valid s \<and> users_ok r w s
     \<and> pair_ok r w (phase_of True (pcs s r)) (phase_of False (pcs s w)) (pipe s)"

primrec by_pair :: "nat \<Rightarrow> nat \<Rightarrow> pipe_event \<Rightarrow> bool" where
  "by_pair r w (Call t c now) \<longleftrightarrow> t = (if is_read c then r else w)"
| "by_pair r w (Lock t now) \<longleftrightarrow> True"
| "by_pair r w (Recv t) \<longleftrightarrow> True"
| "by_pair r w (Queue t) \<longleftrightarrow> True"
| "by_pair r w (Ready t) \<longleftrightarrow> True"
| "by_pair r w (Ctx t) \<longleftrightarrow> True"
| "by_pair r w (Resume t now) \<longleftrightarrow> True"
| "by_pair r w (CloseCall t) \<longleftrightarrow> True"
| "by_pair r w (Deadlines d) \<longleftrightarrow> True"
| "by_pair r w (ReadDeadline d) \<longleftrightarrow> True"
| "by_pair r w (WriteDeadline d) \<longleftrightarrow> True"
| "by_pair r w (Cancel e) \<longleftrightarrow> True"

text \<open>A goroutine whose call \<open>c\<close> goes on at \<open>x\<close>, which is outside of the pipe or in the same kind of call.\<close>

definition same_kind :: "call \<Rightarrow> pc \<Rightarrow> bool" where
  "same_kind c x \<longleftrightarrow> (\<forall>c'. call_of x = Some c' \<longrightarrow> is_read c' = is_read c)"

lemma phase_of_other: "same_kind c x \<Longrightarrow> is_read c \<noteq> rd \<Longrightarrow> phase_of rd x = Away"
  by (cases x) (auto simp: same_kind_def call_of_def phase_of_def)

lemma users_ok_upd:
  assumes "users_ok r w s" and "call_of (pcs s t) = Some c" and "same_kind c x"
  shows "users_ok r w (s\<lparr>pipe := p, pcs := (pcs s)(t := x)\<rparr>)"
  using assms by (auto simp: users_ok_def same_kind_def)

text \<open>A step of the goroutine that is in call \<open>c\<close>: it changes the phase of this call only.\<close>

lemma pair_inv_upd:
  assumes "pair_inv r w s" and "call_of (pcs s t) = Some c" and "same_kind c x"
    and "system_valid (s\<lparr>pipe := p, pcs := (pcs s)(t := x)\<rparr>)"
    and "is_read c \<Longrightarrow> pair_ok r w (phase_of True x) (phase_of False (pcs s w)) p"
    and "\<not> is_read c \<Longrightarrow> pair_ok r w (phase_of True (pcs s r)) (phase_of False x) p"
  shows "pair_inv r w (s\<lparr>pipe := p, pcs := (pcs s)(t := x)\<rparr>)"
proof -
  have t: "t = (if is_read c then r else w)" and u: "users_ok r w s"
    using assms(1,2) by (auto simp: pair_inv_def users_ok_def)
  have old: "same_kind c (pcs s t)" using assms(2) by (simp add: same_kind_def)
  have "pair_ok r w (phase_of True (((pcs s)(t := x)) r)) (phase_of False (((pcs s)(t := x)) w)) p"
  proof (cases "is_read c")
    case True
    then have "phase_of False x = phase_of False (pcs s w)" if "t = w"
      using that phase_of_other [OF assms(3), of False] phase_of_other [OF old, of False] by simp
    then show ?thesis using True t assms(5) by auto
  next
    case False
    then have "phase_of True x = phase_of True (pcs s r)" if "t = r"
      using that phase_of_other [OF assms(3), of True] phase_of_other [OF old, of True] by simp
    then show ?thesis using False t assms(6) by auto
  qed
  then show ?thesis
    using assms(4) users_ok_upd [OF u assms(2,3)] by (simp add: pair_inv_def)
qed

lemma pair_ok_trigger:
  assumes "pair_ok r w pr pw p"
  shows "is_read c \<Longrightarrow> one_waiter r pr' (buffer p = [] \<and> \<not> closed p) v \<Longrightarrow> pair_ok r w pr' pw (set_trigger c v p)"
    and "\<not> is_read c \<Longrightarrow> one_waiter w pw' (bufferSpaceLeft p = 0 \<and> \<not> closed p) v \<Longrightarrow> pair_ok r w pr pw' (set_trigger c v p)"
  using assms by (cases c; simp add: pair_ok_def bufferSpaceLeft_def)+

lemma pair_ok_deadlines:
  assumes "pair_ok r w pr pw p"
  shows "pair_ok r w pr pw (p\<lparr>rdeadline := d, wdeadline := d, rTrigger := bc (rTrigger p), wTrigger := bc (wTrigger p)\<rparr>)"
    and "pair_ok r w pr pw (p\<lparr>rdeadline := d, rTrigger := bc (rTrigger p)\<rparr>)"
    and "pair_ok r w pr pw (p\<lparr>wdeadline := d, wTrigger := bc (wTrigger p)\<rparr>)"
  using assms by (auto simp: pair_ok_def bufferSpaceLeft_def intro: one_waiter_bc)

lemma pair_inv_call:
  assumes "pair_inv r w s" and "call_of (pcs s t) = Some c"
  shows "pipe_valid (pipe s)"
    and "is_read c \<Longrightarrow> pair_ok r w (phase_of True (pcs s t)) (phase_of False (pcs s w)) (pipe s)"
    and "\<not> is_read c \<Longrightarrow> pair_ok r w (phase_of True (pcs s r)) (phase_of False (pcs s t)) (pipe s)"
proof -
  have "t = (if is_read c then r else w)" using assms by (simp add: pair_inv_def users_ok_def)
  then show "pipe_valid (pipe s)"
    and "is_read c \<Longrightarrow> pair_ok r w (phase_of True (pcs s t)) (phase_of False (pcs s w)) (pipe s)"
    and "\<not> is_read c \<Longrightarrow> pair_ok r w (phase_of True (pcs s r)) (phase_of False (pcs s t)) (pipe s)"
    using assms(1) by (simp_all add: pair_inv_def system_valid_def)
qed

lemma pair_inv_lock:
  assumes "pair_inv r w s" and "pcs s t = Locking c" and "call_lock c now (pipe s) = Some (x, p)"
    and "system_valid (s\<lparr>pipe := p, pcs := (pcs s)(t := after x)\<rparr>)"
  shows "pair_inv r w (s\<lparr>pipe := p, pcs := (pcs s)(t := after x)\<rparr>)"
proof (cases c)
  case (Reading n)
  have "pair_ok r w Away (phase_of False (pcs s w)) (pipe s)" "pipe_valid (pipe s)"
    using pair_inv_call [OF assms(1), of t c] assms(2) Reading by (simp_all add: call_of_def) (simp add: phase_of_def)
  from pair_ok_read_loop [OF this, of n now x p] show ?thesis
    using assms Reading by (intro pair_inv_upd [where c = c]) (auto simp: call_of_def same_kind_def)
next
  case (Writing b n)
  have "pair_ok r w (phase_of True (pcs s r)) Away (pipe s)" and v: "pipe_valid (pipe s)"
    using pair_inv_call [OF assms(1), of t c] assms(2) Writing by (simp_all add: call_of_def) (simp add: phase_of_def)
  from pair_ok_write_all [OF this, of b n now x p] show ?thesis
    using assms Writing write_loop_valid [OF v, of b n now]
    by (intro pair_inv_upd [where c = c]) (auto simp: call_of_def same_kind_def)
qed

lemma pair_inv_resume:
  assumes "pair_inv r w s" and "pcs s t = Waking c e" and "call_resume c e now (pipe s) = Some (x, p)"
    and "system_valid (s\<lparr>pipe := p, pcs := (pcs s)(t := after x)\<rparr>)"
  shows "pair_inv r w (s\<lparr>pipe := p, pcs := (pcs s)(t := after x)\<rparr>)"
proof (cases c)
  case (Reading n)
  have "pair_ok r w Leaving (phase_of False (pcs s w)) (pipe s)" "pipe_valid (pipe s)"
    using pair_inv_call [OF assms(1), of t c] assms(2) Reading by (simp_all add: call_of_def) (simp add: phase_of_def)
  from pair_ok_read_resume [OF this, of n e now x p] show ?thesis
    using assms Reading by (intro pair_inv_upd [where c = c]) (auto simp: call_of_def same_kind_def)
next
  case (Writing b n)
  have "pair_ok r w (phase_of True (pcs s r)) Leaving (pipe s)" "pipe_valid (pipe s)" "b \<noteq> []"
    using pair_inv_call [OF assms(1), of t c] assms(1,2) Writing
    by (simp_all add: call_of_def) (simp add: phase_of_def, force simp: pair_inv_def system_valid_def)
  from pair_ok_write_resume [OF this, of n e now x p] show ?thesis
    using assms Writing by (intro pair_inv_upd [where c = c]) (auto simp: call_of_def same_kind_def)
qed

text \<open>The parts of waiting.\<close>

lemma pair_inv_wait:
  assumes "pair_inv r w s" and "call_of (pcs s t) = Some c" and "call_of x = Some c"
    and "system_valid (s\<lparr>pipe := set_trigger c v (pipe s), pcs := (pcs s)(t := x)\<rparr>)"
    and ph: "phase_of (is_read c) (pcs s t) = ph" and ph': "phase_of (is_read c) x = ph'"
    and "\<And>sleepy. one_waiter t ph sleepy (trigger c (pipe s)) \<Longrightarrow> one_waiter t ph' sleepy v"
  shows "pair_inv r w (s\<lparr>pipe := set_trigger c v (pipe s), pcs := (pcs s)(t := x)\<rparr>)"
proof -
  have t: "t = (if is_read c then r else w)"
    and ok: "pair_ok r w (phase_of True (pcs s r)) (phase_of False (pcs s w)) (pipe s)"
    using assms(1,2) by (auto simp: pair_inv_def users_ok_def)
  have "pair_ok r w (phase_of True x) (phase_of False (pcs s w)) (set_trigger c v (pipe s))" if "is_read c"
    using that t ok ph ph' assms(7) by (intro pair_ok_trigger(1) [OF ok]) (cases c; simp add: pair_ok_def)+
  moreover have "pair_ok r w (phase_of True (pcs s r)) (phase_of False x) (set_trigger c v (pipe s))" if "\<not> is_read c"
    using that t ok ph ph' assms(7) by (intro pair_ok_trigger(2) [OF ok]) (cases c; simp add: pair_ok_def)+
  ultimately show ?thesis
    using assms by (intro pair_inv_upd) (auto simp: same_kind_def)
qed

lemma set_trigger_same: "set_trigger c (trigger c p) p = p"
  by (cases c) simp_all

lemma pair_inv_waiting:
  assumes "pipe_step s ev res s'" and "pair_inv r w s" and "system_valid s'"
    and "ev \<in> {Recv u, Queue u, Ready u, Ctx u}"
  shows "pair_inv r w s'"
  using assms(1)
proof (cases rule: pipe_step.cases)
  case (recv t c u)
  have "pair_inv r w (s\<lparr>pipe := set_trigger c u (pipe s), pcs := (pcs s)(t := Waking c None)\<rparr>)"
  proof (rule pair_inv_wait [OF assms(2), where ph = Coming and ph' = Leaving])
    show "one_waiter t Leaving sl u" if "one_waiter t Coming sl (trigger c (pipe s))" for sl
      using that recv(5) by (rule one_waiter_recv)
  qed (use recv assms(3) in \<open>simp_all add: call_of_def phase_of_def set_trigger_same\<close>)
  then show ?thesis using recv by (simp add: set_trigger_same)
next
  case (ctx_enter t c e)
  have "pair_inv r w (s\<lparr>pipe := set_trigger c (trigger c (pipe s)) (pipe s), pcs := (pcs s)(t := Waking c (Some e))\<rparr>)"
  proof (rule pair_inv_wait [OF assms(2), where ph = Coming and ph' = Leaving])
    show "one_waiter t Leaving sl (trigger c (pipe s))" if "one_waiter t Coming sl (trigger c (pipe s))" for sl
      using that by (rule one_waiter_give_up)
  qed (use ctx_enter assms(3) in \<open>simp_all add: call_of_def phase_of_def set_trigger_same\<close>)
  then show ?thesis using ctx_enter by (simp add: set_trigger_same)
next
  case (queue t c)
  have "pair_inv r w (s\<lparr>pipe := set_trigger c (select_block t (trigger c (pipe s))) (pipe s), pcs := (pcs s)(t := Selecting c)\<rparr>)"
  proof (rule pair_inv_wait [OF assms(2), where ph = Coming and ph' = Queued])
    show "one_waiter t Queued sl (select_block t (trigger c (pipe s)))" if "one_waiter t Coming sl (trigger c (pipe s))" for sl
      using that queue(5) by (rule one_waiter_block)
  qed (use queue assms(3) in \<open>simp_all add: call_of_def phase_of_def set_trigger_same\<close>)
  then show ?thesis using queue by (simp add: set_trigger_same)
next
  case (ready t c)
  have "pair_inv r w (s\<lparr>pipe := set_trigger c (select_ready t (trigger c (pipe s))) (pipe s), pcs := (pcs s)(t := Waking c None)\<rparr>)"
  proof (rule pair_inv_wait [OF assms(2), where ph = Queued and ph' = Leaving])
    show "one_waiter t Leaving sl (select_ready t (trigger c (pipe s)))" if "one_waiter t Queued sl (trigger c (pipe s))" for sl
      using that ready(5) by (rule one_waiter_ready)
  qed (use ready assms(3) in \<open>simp_all add: call_of_def phase_of_def set_trigger_same\<close>)
  then show ?thesis using ready by (simp add: set_trigger_same)
next
  case (ctx_queued t c e)
  have "pair_inv r w (s\<lparr>pipe := set_trigger c (select_done t (trigger c (pipe s))) (pipe s), pcs := (pcs s)(t := Waking c (Some e))\<rparr>)"
  proof (rule pair_inv_wait [OF assms(2), where ph = Queued and ph' = Leaving])
    show "one_waiter t Leaving sl (select_done t (trigger c (pipe s)))" if "one_waiter t Queued sl (trigger c (pipe s))" for sl
      using that ctx_queued(5) by (rule one_waiter_done)
  qed (use ctx_queued assms(3) in \<open>simp_all add: call_of_def phase_of_def set_trigger_same\<close>)
  then show ?thesis using ctx_queued by (simp add: set_trigger_same)
qed (use assms(4) in simp_all)

lemma pair_inv_step:
  assumes "pipe_step s ev res s'" and "pair_inv r w s" and "by_pair r w ev"
  shows "pair_inv r w s'"
proof -
  have v: "system_valid s" and ok: "pair_ok r w (phase_of True (pcs s r)) (phase_of False (pcs s w)) (pipe s)"
    using assms(2) by (auto simp: pair_inv_def)
  have v': "system_valid s'" using pipe_step_valid [OF assms(1) v] by blast
  from assms(1) show ?thesis
  proof (cases rule: pipe_step.cases)
    case (call_ok t c now)
    then show ?thesis
      using assms(2,3) v'
      by (auto simp: pair_inv_def users_ok_def call_of_def phase_of_def)
  next
    case (lock t c now x p)
    then show ?thesis using pair_inv_lock assms(2) v' by simp
  next
    case (resume t c e now x p)
    then show ?thesis using pair_inv_resume assms(2) v' by simp
  next
    case (close e p t)
    then have "p = closed_pipe (pipe s)"
      using pipe_close_valid [of "pipe s"] v by (auto simp: system_valid_def Close_def)
    then show ?thesis
      using close assms(2) v' pair_ok_closed_pipe [OF ok] by (simp add: pair_inv_def users_ok_def)
  qed (use pair_inv_waiting [OF assms(1,2) v'] assms(2) v v' pair_ok_deadlines [OF ok] in
      \<open>auto simp: pair_inv_def users_ok_def deadlines_valid system_valid_def\<close>)
qed

lemma pair_inv_start: "pair_inv r w pipe_start"
  using system_valid_start
  by (simp add: pair_inv_def users_ok_def pair_ok_def pipe_start_def call_of_def phase_of_def Pipe_New_def NewCond_def)

lemma pair_inv_reach:
  "pipe_reach evs sent got s \<Longrightarrow> \<forall>ev \<in> set evs. by_pair r w ev \<Longrightarrow> pair_inv r w s"
  by (induction rule: pipe_reach.induct) (auto simp: pair_inv_start intro: pair_inv_step)

text \<open>A goroutine sleeps when it is queued at the channel and has not been handed a notification.\<close>

definition asleep :: "call \<Rightarrow> nat \<Rightarrow> pipe_system \<Rightarrow> bool" where
  "asleep c t s \<longleftrightarrow> pcs s t = Selecting c \<and> t \<notin> set (ready (trigger c (pipe s)))"

lemma pair_inv_asleep:
  assumes "pair_inv r w s" and "asleep c t s"
  shows "\<not> closed (pipe s) \<and> (if is_read c then buffer (pipe s) = [] else bufferSpaceLeft (pipe s) = 0)"
proof -
  have pc: "pcs s t = Selecting c" and nr: "t \<notin> set (ready (trigger c (pipe s)))"
    using assms(2) by (auto simp: asleep_def)
  have cl: "call_of (pcs s t) = Some c" using pc by (simp add: call_of_def)
  have t: "t = (if is_read c then r else w)" using assms(1) cl by (simp add: pair_inv_def users_ok_def)
  note inv = pair_inv_call [OF assms(1) cl]
  show ?thesis
    using inv(2,3) pc nr t by (cases c) (auto simp: pair_ok_def phase_of_def)
qed

text \<open>C27: no wake-up is lost between one reader and one writer, whoever closes the pipe and whatever deadlines
  are set meanwhile: a reader sleeps only while the pipe is open and empty, a writer only while it is
  open and full, so the two never sleep at the same time and neither sleeps on a closed pipe.\<close>

theorem one_reader_one_writer_wake:
  assumes "pipe_reach evs sent got s" and "\<forall>ev \<in> set evs. by_pair r w ev"
  shows "(asleep (Reading n) r s \<longrightarrow> Available (pipe s) = 0 \<and> \<not> closed (pipe s))
    \<and> (asleep (Writing b k) w s \<longrightarrow> Available (pipe s) = 16384 \<and> \<not> closed (pipe s))
    \<and> \<not> (asleep (Reading n) r s \<and> asleep (Writing b k) w s)"
proof -
  note inv = pair_inv_asleep [OF pair_inv_reach [OF assms]]
  show ?thesis
    using inv [of "Reading n" r] inv [of "Writing b k" w]
    by (auto simp: Available_def bufferSpaceLeft_def MaxBufferSize_def)
qed

theorem one_reader_one_writer_wake_witness:
  "\<exists>s. pipe_reach [Call 0 (Reading 2) 5, Lock 0 5, Queue 0] [] [] s
     \<and> asleep (Reading 2) 0 s \<and> Available (pipe s) = 0 \<and> \<not> closed (pipe s)"
proof -
  let ?evs = "[Call 0 (Reading 2) 5, Lock 0 5, Queue 0]"
  have "\<exists>s. pipe_run ?evs pipe_start = Some ([], [], s) \<and> asleep (Reading 2) 0 s"
    by (simp add: section_defs accepted_def asleep_def)
  then obtain s where run: "pipe_run ?evs pipe_start = Some ([], [], s)" and "asleep (Reading 2) 0 s" by blast
  from pipe_run_reach [OF run pipe_reach.start] have reach: "pipe_reach ?evs [] [] s" by simp
  have "\<forall>ev \<in> set ?evs. by_pair 0 1 ev" by simp
  from one_reader_one_writer_wake [OF reach this, of 2 "[]" 0] \<open>asleep (Reading 2) 0 s\<close> reach
  show ?thesis by blast
qed

section \<open>Two readers\<close>

text \<open>Runs that go on from a given state.\<close>

inductive pipe_steps :: "pipe_system \<Rightarrow> pipe_event list \<Rightarrow> pipe_system \<Rightarrow> bool" where
  none: "pipe_steps s [] s"
| more: "pipe_step s ev r s' \<Longrightarrow> pipe_steps s' evs s'' \<Longrightarrow> pipe_steps s (ev # evs) s''"

text \<open>What still wakes up a sleeping reader of a closed pipe.\<close>

primrec alarm :: "pipe_event \<Rightarrow> bool" where
  "alarm (Call t c now) \<longleftrightarrow> False"
| "alarm (Lock t now) \<longleftrightarrow> False"
| "alarm (Recv t) \<longleftrightarrow> False"
| "alarm (Queue t) \<longleftrightarrow> False"
| "alarm (Ready t) \<longleftrightarrow> False"
| "alarm (Ctx t) \<longleftrightarrow> False"
| "alarm (Resume t now) \<longleftrightarrow> False"
| "alarm (CloseCall t) \<longleftrightarrow> False"
| "alarm (Deadlines d) \<longleftrightarrow> True"
| "alarm (ReadDeadline d) \<longleftrightarrow> True"
| "alarm (WriteDeadline d) \<longleftrightarrow> False"
| "alarm (Cancel e) \<longleftrightarrow> True"

definition sleeps_on :: "nat \<Rightarrow> pipe_system \<Rightarrow> bool" where
  "sleeps_on t s \<longleftrightarrow> (\<forall>evs s'. pipe_steps s evs s' \<and> list_all (\<lambda>ev. \<not> alarm ev) evs \<longrightarrow> (\<exists>n. asleep (Reading n) t s'))"

text \<open>A closed and empty pipe with no \<open>Write\<close> under way, where a reader sleeps.\<close>

definition forgotten :: "nat \<Rightarrow> pipe_system \<Rightarrow> bool" where
  "forgotten t s \<longleftrightarrow> pipe_valid (pipe s) \<and> closed (pipe s) \<and> buffer (pipe s) = [] \<and> ctx s = None
     \<and> (\<forall>u c. call_of (pcs s u) = Some c \<longrightarrow> is_read c) \<and> (\<forall>u c e. pcs s u = Waking c e \<longrightarrow> e = None)
     \<and> (\<exists>n. pcs s t = Selecting (Reading n)) \<and> t \<notin> set (ready (rTrigger (pipe s)))"

lemma forgotten_sections:
  assumes "pipe_valid p" and "closed p" and "buffer p = []"
  shows "read_loop n now p = Some (x, p') \<Longrightarrow> p' = p \<and> after x = Idle"
    and "read_resume n None now p = Some (x, p') \<Longrightarrow> p' = p\<lparr>rTrigger := wait_leave (rTrigger p)\<rparr> \<and> after x = Idle"
  using assms by (auto simp: read_loop_def wait_before_def read_resume_def wait_after_def split: if_splits)

lemma forgotten_call:
  assumes "forgotten t s" and "call_of (pcs s u) = Some c"
  obtains n where "c = Reading n"
proof -
  have "is_read c" using assms unfolding forgotten_def by blast
  then show thesis using that by (cases c) simp_all
qed

lemma forgotten_upd:
  assumes "forgotten t s" and "u \<noteq> t" and "call_of x = None \<or> call_of x = Some (Reading n)"
    and "\<forall>c e. x = Waking c e \<longrightarrow> e = None"
    and "pipe_valid p" and "closed p" and "buffer p = []" and "t \<notin> set (ready (rTrigger p))"
  shows "forgotten t (s\<lparr>pipe := p, pcs := (pcs s)(u := x)\<rparr>)"
  using assms unfolding forgotten_def by auto

text \<open>A section of another reader, or a part of its waiting.\<close>

lemma forgotten_lock:
  assumes "forgotten t s" and "pcs s u = Locking c" and "call_lock c now (pipe s) = Some (x, p)"
  shows "forgotten t (s\<lparr>pipe := p, pcs := (pcs s)(u := after x)\<rparr>)"
proof -
  obtain n where c: "c = Reading n" using forgotten_call [OF assms(1), of u c] assms(2) by (auto simp: call_of_def)
  have "p = pipe s \<and> after x = Idle"
    using forgotten_sections(1) [of "pipe s" n now x p] assms(1,3) c by (simp add: forgotten_def)
  moreover have "u \<noteq> t" using assms(1,2) by (auto simp: forgotten_def)
  ultimately show ?thesis
    using assms(1) by (intro forgotten_upd) (auto simp: forgotten_def call_of_def)
qed

lemma forgotten_resume:
  assumes "forgotten t s" and "pcs s u = Waking c e" and "call_resume c e now (pipe s) = Some (x, p)"
  shows "forgotten t (s\<lparr>pipe := p, pcs := (pcs s)(u := after x)\<rparr>)"
proof -
  obtain n where c: "c = Reading n" using forgotten_call [OF assms(1), of u c] assms(2) by (auto simp: call_of_def)
  have "e = None" using assms(1,2) unfolding forgotten_def by blast
  then have "p = (pipe s)\<lparr>rTrigger := wait_leave (rTrigger (pipe s))\<rparr> \<and> after x = Idle"
    using forgotten_sections(2) [of "pipe s" n now x p] assms(1,3) c by (simp add: forgotten_def)
  moreover have "u \<noteq> t" using assms(1,2) by (auto simp: forgotten_def)
  ultimately show ?thesis
    using assms(1) by (intro forgotten_upd) (auto simp: forgotten_def call_of_def wait_leave_def pipe_valid_def bufferSpaceLeft_def)
qed

lemma forgotten_wait:
  assumes "forgotten t s" and "u \<noteq> t" and "call_of (pcs s u) = Some c" and "x = Waking c None \<or> x = Selecting c"
    and "notify_closed w = notify_closed (trigger c (pipe s))" and "set (ready w) \<subseteq> set (ready (trigger c (pipe s)))"
  shows "forgotten t (s\<lparr>pipe := set_trigger c w (pipe s), pcs := (pcs s)(u := x)\<rparr>)"
proof -
  obtain n where c: "c = Reading n" using forgotten_call [OF assms(1,3)] .
  have q: "closed (pipe s)" "buffer (pipe s) = []" "t \<notin> set (ready (rTrigger (pipe s)))" "pipe_valid (pipe s)"
    using assms(1) by (simp_all add: forgotten_def)
  show ?thesis
  proof (rule forgotten_upd [OF assms(1,2), where n = n])
    show "call_of x = None \<or> call_of x = Some (Reading n)" using assms(4) c by (auto simp: call_of_def)
    show "\<forall>c e. x = Waking c e \<longrightarrow> e = None" using assms(4) by auto
    show "pipe_valid (set_trigger c w (pipe s))"
      using assms(5) pipe_valid_trigger [OF q(4)] pipe_valid_set_trigger [OF q(4)] by simp
    show "t \<notin> set (ready (rTrigger (set_trigger c w (pipe s))))" using assms(6) q(3) c by auto
  qed (simp_all add: q c)
qed

lemma ready_recv:
  assumes "select_recv w = Some w'" shows "ready w' = ready w"
proof (cases "0 < notify_len w")
  case True
  then have "w' = w\<lparr>notify_len := notify_len w - 1\<rparr>" using assms unfolding select_recv_def by simp
  then show ?thesis by simp
next
  case False
  then show ?thesis using assms unfolding select_recv_def by (simp split: if_split_asm)
qed

lemma ready_ready: "set (ready (select_ready u w)) \<subseteq> set (ready w)"
  using set_remove1_subset [of u "ready w"] unfolding select_ready_def by simp

lemma forgotten_step:
  assumes "pipe_step s ev r s'" and "forgotten t s" and "\<not> alarm ev"
  shows "forgotten t s'"
proof -
  obtain n where pt: "pcs s t = Selecting (Reading n)" "t \<notin> set (Cond.ready (rTrigger (pipe s)))"
    using assms(2) by (auto simp: forgotten_def)
  have ctx: "ctx s = None" using assms(2) by (simp add: forgotten_def)
  from assms(1) show ?thesis
  proof (cases rule: pipe_step.cases)
    case (call_ok u c now)
    then obtain n where "c = Reading n" using assms(2) by (cases c) (auto simp: forgotten_def call_check_defs split: if_splits)
    moreover have "u \<noteq> t" using call_ok pt by auto
    ultimately have "forgotten t (s\<lparr>pipe := pipe s, pcs := (pcs s)(u := Locking c)\<rparr>)"
      using assms(2) by (intro forgotten_upd [where n = n]) (auto simp: forgotten_def call_of_def)
    then show ?thesis using call_ok by simp
  next
    case (recv u c w)
    have "forgotten t (s\<lparr>pipe := set_trigger c w (pipe s), pcs := (pcs s)(u := Waking c None)\<rparr>)"
    proof (rule forgotten_wait [OF assms(2)])
      show "u \<noteq> t" using recv pt by auto
      show "set (Cond.ready w) \<subseteq> set (Cond.ready (trigger c (pipe s)))"
        using ready_recv recv by simp
    qed (use recv in \<open>simp_all add: call_of_def\<close>)
    then show ?thesis using recv by simp
  next
    case (queue u c)
    have "forgotten t (s\<lparr>pipe := set_trigger c (select_block u (trigger c (pipe s))) (pipe s), pcs := (pcs s)(u := Selecting c)\<rparr>)"
    proof (rule forgotten_wait [OF assms(2)])
      show "u \<noteq> t" using queue pt by auto
      show "set (Cond.ready (select_block u (trigger c (pipe s)))) \<subseteq> set (Cond.ready (trigger c (pipe s)))"
        by (simp add: select_block_def)
    qed (use queue in \<open>simp_all add: call_of_def\<close>)
    then show ?thesis using queue by simp
  next
    case (ready u c)
    have "forgotten t (s\<lparr>pipe := set_trigger c (select_ready u (trigger c (pipe s))) (pipe s), pcs := (pcs s)(u := Waking c None)\<rparr>)"
    proof (rule forgotten_wait [OF assms(2)])
      show "u \<noteq> t" using ready pt by auto
      show "set (Cond.ready (select_ready u (trigger c (pipe s)))) \<subseteq> set (Cond.ready (trigger c (pipe s)))"
        by (rule ready_ready)
    qed (use ready in \<open>simp_all add: call_of_def\<close>)
    then show ?thesis using ready by simp
  next
    case (close e p u)
    then show ?thesis using assms(2) by (auto simp: forgotten_def Close_def pipe_close_def)
  next
    case (write_deadline d p)
    then have "p = (pipe s)\<lparr>wdeadline := d, wTrigger := bc (wTrigger (pipe s))\<rparr>"
      using assms(2) deadlines_valid(3) [of "pipe s" d] by (simp add: forgotten_def)
    then show ?thesis using write_deadline assms(2) by (simp add: forgotten_def pipe_valid_def bufferSpaceLeft_def)
  next
    case (lock u c now x p)
    then show ?thesis using forgotten_lock [OF assms(2) lock(4,5)] by simp
  next
    case (resume u c e now x p)
    then show ?thesis using forgotten_resume [OF assms(2) resume(4,5)] by simp
  qed (use assms(2,3) ctx in simp_all)
qed

lemma forgotten_sleeps_on: "forgotten t s \<Longrightarrow> sleeps_on t s"
proof -
  have "\<exists>n. asleep (Reading n) t s'" if "pipe_steps s evs s'" "forgotten t s" "list_all (\<lambda>ev. \<not> alarm ev) evs" for evs s s'
    using that
  proof (induction rule: pipe_steps.induct)
    case (none s)
    then show ?case by (auto simp: forgotten_def asleep_def)
  next
    case (more s ev r s' evs s'')
    then show ?case using forgotten_step by simp
  qed
  then show "forgotten t s \<Longrightarrow> sleeps_on t s" by (auto simp: sleeps_on_def)
qed

text \<open>C28: with two readers a wake-up is lost: when both have counted themselves as waiting and neither has
  reached its \<open>select\<close>, \<open>Close\<close> leaves a single notification.  The first reader takes it and returns, and the
  second sleeps on the closed pipe, whatever readers, writers and \<open>Close\<close> do from then on, until someone
  sets a read deadline or the context ends.\<close>

theorem closed_reader_sleeps_on:
  assumes "r1 \<noteq> r2"
  shows "\<exists>s. pipe_reach [Call r1 (Reading n) now, Lock r1 now, Call r2 (Reading n) now, Lock r2 now,
        CloseCall u, Recv r1, Queue r2] [] [] s \<and> closed (pipe s) \<and> sleeps_on r2 s"
proof -
  let ?evs = "[Call r1 (Reading n) now, Lock r1 now, Call r2 (Reading n) now, Lock r2 now,
        CloseCall u, Recv r1, Queue r2]"
  let ?p = "Pipe_New\<lparr>closed := True, rTrigger := NewCond\<lparr>waiters := 2, recvq := [r2]\<rparr>\<rparr>"
  let ?pcs = "\<lambda>u. if u = r1 then Waking (Reading n) None else if u = r2 then Selecting (Reading n) else Idle"
  define s where "s = \<lparr>pipe = ?p, pcs = ?pcs, ctx = None\<rparr>"
  have run: "pipe_run ?evs pipe_start = Some ([], [], s)"
    using assms by (auto simp: s_def section_defs accepted_def fun_eq_iff)
  have p: "pipe s = ?p" "ctx s = None" and pcs: "pcs s = ?pcs" by (simp_all add: s_def)
  have f: "forgotten r2 s"
    unfolding forgotten_def p pcs
    using assms by (simp add: Pipe_New_def NewCond_def pipe_valid_def bufferSpaceLeft_def MaxBufferSize_def call_of_def)
  from pipe_run_reach [OF run pipe_reach.start] have "pipe_reach ?evs [] [] s" by simp
  then show ?thesis using f forgotten_sleeps_on [OF f] by (auto simp: forgotten_def)
qed

theorem closed_reader_sleeps_on_witness:
  "\<exists>s. pipe_reach [Call 0 (Reading 8) 5, Lock 0 5, Call 1 (Reading 8) 5, Lock 1 5, CloseCall 2, Recv 0, Queue 1] [] [] s
     \<and> closed (pipe s) \<and> sleeps_on 1 s"
  by (rule closed_reader_sleeps_on) simp

end
