(* ===== verification/Xdns_Resolver.thy ===== *)
theory Xdns_Resolver
  imports Go_Time Protect
begin

text \<open>
  Requests, responses and the resolvers that ask somebody (\<open>src/xdns/client\<close>: \<open>interface.go\<close>, \<open>request.go\<close>,
  \<open>response.go\<close>, \<open>options.go\<close>, \<open>direct.go\<close>, \<open>system.go\<close>).  A resolver is a function from a request and the
  world it acts on to an outcome and the world afterwards; the clock is read off the world.  An address
  is its bytes, and the zero \<open>time.Time\<close> is \<open>0\<close>.  The DNS client of \<open>miekg/dns\<close> is a parameter; so is the
  resolver of the operating system.
\<close>

section \<open>Requests and responses\<close>

type_synonym Addr = "byte list"

datatype dns_err =
    ErrExists | ErrNotExists | ErrProtectionNotSupported | ErrNoCache
  | ErrDNSNotExists | ErrDNSNoResponse | ErrDNSEmptyResponse
  | ForeignErr string

definition QueryIp4 :: uint16 where "QueryIp4 = 1"
definition QueryIp6 :: uint16 where "QueryIp6 = 28"
definition defaultDNSTimeout :: int where "defaultDNSTimeout = Second * 2"

definition DefaultDNSServers :: "Addr list" where
  "DefaultDNSServers = [[1, 1, 1, 1], [8, 8, 8, 8]]"

record Request =
  Domain :: string
  QueryType :: uint16
  NoLazy :: bool

record Response =
  Exists :: bool
  Addresses :: "Addr list"
  Expires :: int
  ProtectionRequired :: bool

definition zeroResponse :: Response where
  "zeroResponse = \<lparr>Exists = False, Addresses = [], Expires = 0, ProtectionRequired = False\<rparr>"

text \<open>A copy with its own array of addresses: the same value.\<close>

definition Clone :: "Response \<Rightarrow> Response" where
  "Clone r = r\<lparr>Addresses := map (\<lambda>a. a) (Addresses r)\<rparr>"

definition Successful :: "Response option \<Rightarrow> bool" where
  "Successful r = (case r of None \<Rightarrow> False | Some r \<Rightarrow> Exists r \<and> length (Addresses r) > 0)"

definition Expired :: "int \<Rightarrow> Response \<Rightarrow> bool" where
  "Expired now r = (if Expires r = 0 then False else now > Expires r)"

definition AddressesAsStrings :: "(Addr \<Rightarrow> string) \<Rightarrow> Response \<Rightarrow> string list" where
  "AddressesAsStrings addrString r = map addrString (Addresses r)"

lemma Clone_same [simp]: "Clone r = r"
  by (simp add: Clone_def)

section \<open>Options\<close>

record ('w) options =
  systemTtl :: int
  cacheMaxSize :: int
  cacheMinTtl :: int
  cacheMaxTtl :: int
  cacheKeepTime :: int
  priorityFailureTimeout :: int
  directTimeout :: int
  directProtector :: "(Addr, 'w, dns_err) Protector"

definition Defaults :: "'w options" where
  "Defaults = \<lparr>systemTtl = 60 * Second, cacheMaxSize = 1024, cacheMinTtl = 60 * Second,
     cacheMaxTtl = 3600 * Second, cacheKeepTime = 24 * 3600 * Second, priorityFailureTimeout = 15 * Second,
     directTimeout = 15 * Second, directProtector = Dummy\<rparr>"

definition WithSystemTTL :: "int \<Rightarrow> 'w options \<Rightarrow> 'w options" where
  "WithSystemTTL v opts = opts\<lparr>systemTtl := v\<rparr>"

definition WithCacheMaxSize :: "int \<Rightarrow> 'w options \<Rightarrow> 'w options" where
  "WithCacheMaxSize v opts = opts\<lparr>cacheMaxSize := v\<rparr>"

definition WithCacheMinTTL :: "int \<Rightarrow> 'w options \<Rightarrow> 'w options" where
  "WithCacheMinTTL v opts = opts\<lparr>cacheMinTtl := v\<rparr>"

definition WithCacheMaxTTL :: "int \<Rightarrow> 'w options \<Rightarrow> 'w options" where
  "WithCacheMaxTTL v opts = opts\<lparr>cacheMaxTtl := v\<rparr>"

definition WithCacheKeepTime :: "int \<Rightarrow> 'w options \<Rightarrow> 'w options" where
  "WithCacheKeepTime v opts = opts\<lparr>cacheKeepTime := v\<rparr>"

definition WithPriorityFailureTimeout :: "int \<Rightarrow> 'w options \<Rightarrow> 'w options" where
  "WithPriorityFailureTimeout v opts = opts\<lparr>priorityFailureTimeout := v\<rparr>"

definition WithDirectTimeout :: "int \<Rightarrow> 'w options \<Rightarrow> 'w options" where
  "WithDirectTimeout v opts = opts\<lparr>directTimeout := v\<rparr>"

definition WithDirectProtector :: "(Addr, 'w, dns_err) Protector \<Rightarrow> 'w options \<Rightarrow> 'w options" where
  "WithDirectProtector v opts = opts\<lparr>directProtector := v\<rparr>"

section \<open>Asking a server\<close>

text \<open>What the resolver sees of a DNS message, and the client that sends one: \<open>exchange\<close> is given the deadline
  of the dialer, whether its sockets are protected, the question and the server.\<close>

datatype rdata = A Addr | AAAA Addr | OtherData

record RR =
  Rrtype :: uint16
  Ttl :: uint32
  rr_data :: rdata

record Msg =
  Opcode :: int
  Rcode :: int
  Answer :: "RR list"

definition RcodeNameError :: int where "RcodeNameError = 3"

record 'w network =
  clock :: "'w \<Rightarrow> int"
  Fqdn :: "string \<Rightarrow> string"
  exchange :: "int \<Rightarrow> bool \<Rightarrow> string \<Rightarrow> uint16 \<Rightarrow> Addr \<Rightarrow> 'w \<Rightarrow> (Msg option \<times> dns_err option) \<times> 'w"

definition AddrFromSlice :: "byte list \<Rightarrow> Addr option" where
  "AddrFromSlice b = (if length b = 4 \<or> length b = 16 then Some b else None)"

definition infiniteTtl :: uint32 where "infiniteTtl = 365 * 24 * 3600"

record 'w DirectResolver =
  server :: Addr
  timeout :: int
  protector :: "(Addr, 'w, dns_err) Protector"

definition NewDirectResolver :: "Addr \<Rightarrow> 'w options \<Rightarrow> 'w DirectResolver" where
  "NewDirectResolver addr opts = \<lparr>server = addr, timeout = directTimeout opts, protector = directProtector opts\<rparr>"

definition WithTimeout :: "int \<Rightarrow> 'w DirectResolver \<Rightarrow> 'w DirectResolver" where
  "WithTimeout t r = r\<lparr>timeout := t\<rparr>"

definition WithProtector :: "(Addr, 'w, dns_err) Protector \<Rightarrow> 'w DirectResolver \<Rightarrow> 'w DirectResolver" where
  "WithProtector p r = r\<lparr>protector := p\<rparr>"

text \<open>The loop over the answer: the addresses so far and the smallest time to live.\<close>

fun answers :: "uint16 \<Rightarrow> RR list \<Rightarrow> Addr list \<Rightarrow> uint32 \<Rightarrow> Addr list \<times> uint32" where
  "answers qt [] addresses ttl = (addresses, ttl)"
| "answers qt (rr # rrs) addresses ttl =
     (if Rrtype rr \<noteq> qt then answers qt rrs addresses ttl
      else
        (let (address, ttl) =
           (case rr_data rr of
              A a \<Rightarrow> (AddrFromSlice a, min ttl (Ttl rr))
            | AAAA a \<Rightarrow> (AddrFromSlice a, min ttl (Ttl rr))
            | OtherData \<Rightarrow> (None, ttl)) in
         case address of
           None \<Rightarrow> answers qt rrs addresses ttl
         | Some address \<Rightarrow> answers qt rrs (addresses @ [address]) ttl))"

definition reply :: "Msg option \<times> dns_err option \<Rightarrow> Request \<Rightarrow> bool \<Rightarrow> int \<Rightarrow> (dns_err, Response option) outcome" where
  "reply m q prot now =
     (case m of
        (msgResponse, err) \<Rightarrow>
          if (case msgResponse of None \<Rightarrow> False | Some msg \<Rightarrow> Opcode msg = RcodeNameError) then Err ErrNotExists
          else
            (case err of
               Some e \<Rightarrow> Err e
             | None \<Rightarrow>
                 (case msgResponse of
                    None \<Rightarrow> Crash ''nil pointer dereference''
                  | Some msg \<Rightarrow>
                      (let (addresses, ttl) = answers (QueryType q) (Answer msg) [] infiniteTtl in
                       if length addresses = 0 then Err ErrDNSEmptyResponse
                       else Ok (Some \<lparr>Exists = True, Addresses = addresses,
                                      Expires = now + int64 (uint ttl * Second),
                                      ProtectionRequired = prot\<rparr>)))))"

definition once :: "'w network \<Rightarrow> 'w DirectResolver \<Rightarrow> Request \<Rightarrow> bool \<Rightarrow> 'w
    \<Rightarrow> (dns_err, Response option) outcome \<times> 'w" where
  "once net r q prot w =
     (let deadline = clock net w + timeout r in
      case (if prot then protect_call (protector r) [server r] w else (None, w)) of
        (Some err, w) \<Rightarrow> (Err err, w)
      | (None, w) \<Rightarrow>
          (case exchange net deadline prot (Fqdn net (Domain q)) (QueryType q) (server r) w of
             (m, w) \<Rightarrow>
               (reply m q prot (clock net w),
                if prot then snd (unprotect_call (protector r) [server r] w) else w)))"

definition Direct_Lookup :: "'w network \<Rightarrow> 'w DirectResolver \<Rightarrow> Request \<Rightarrow> 'w
    \<Rightarrow> (dns_err, Response option) outcome \<times> 'w" where
  "Direct_Lookup net r q w =
     (if \<not> NoLazy q
      then (case once net r q False w of
              (Ok response, w) \<Rightarrow> (Ok response, w)
            | (Err e, w) \<Rightarrow> once net r q True w
            | (Crash m, w) \<Rightarrow> (Crash m, w))
      else once net r q True w)"

section \<open>Asking the system\<close>

datatype sys_err = DNSError bool bool dns_err | OtherSysErr dns_err

record SystemResolver = sys_ttl :: int

definition NewSystemResolver :: "'w options \<Rightarrow> SystemResolver" where
  "NewSystemResolver opts = \<lparr>sys_ttl = systemTtl opts\<rparr>"

definition sys_error :: "sys_err \<Rightarrow> dns_err" where
  "sys_error err =
     (case err of
        DNSError isTimeout isNotFound e \<Rightarrow>
          if isTimeout then ErrDNSNoResponse else if isNotFound then ErrDNSNotExists else e
      | OtherSysErr e \<Rightarrow> e)"

definition System_Lookup ::
  "('w \<Rightarrow> int) \<Rightarrow> (string \<Rightarrow> 'w \<Rightarrow> (sys_err, byte list list) outcome \<times> 'w) \<Rightarrow> SystemResolver \<Rightarrow> Request \<Rightarrow> 'w
    \<Rightarrow> (dns_err, Response option) outcome \<times> 'w" where
  "System_Lookup now lookupIPAddr r q w =
     (case lookupIPAddr (Domain q) w of
        (Err err, w) \<Rightarrow> (Err (sys_error err), w)
      | (Crash m, w) \<Rightarrow> (Crash m, w)
      | (Ok addrs, w) \<Rightarrow>
          if length addrs = 0 then (Err ErrDNSEmptyResponse, w)
          else (Ok (Some \<lparr>Exists = length addrs > 0, Addresses = List.map_filter AddrFromSlice addrs,
                          Expires = now w + sys_ttl r, ProtectionRequired = False\<rparr>), w))"

definition LookupNonCached ::
  "('w \<Rightarrow> int) \<Rightarrow> (string \<Rightarrow> 'w \<Rightarrow> (sys_err, byte list list) outcome \<times> 'w) \<Rightarrow> SystemResolver \<Rightarrow> Request \<Rightarrow> 'w
    \<Rightarrow> (dns_err, Response option) outcome \<times> 'w" where
  "LookupNonCached now lookupIPAddr r q w = System_Lookup now lookupIPAddr r q w"

section \<open>What resolvers promise\<close>

text \<open>
  The contract of the interface \<open>Resolver\<close> as its callers use it: an answer without an error is successful.
  \<open>call r q w\<close> is the method of the resolver value \<open>r\<close>.
\<close>

type_synonym ('r, 'w) dispatch = "'r \<Rightarrow> Request \<Rightarrow> 'w \<Rightarrow> (dns_err, Response option) outcome \<times> 'w"

locale resolvers =
  fixes call :: "('r, 'w) dispatch"
  assumes answer_successful: "fst (call r q w) = Ok resp \<Longrightarrow> Successful resp"
begin

lemma answer_cases:
  obtains resp w' where "call r q w = (Ok (Some resp), w')" and "Exists resp" and "Addresses resp \<noteq> []"
  | e w' where "call r q w = (Err e, w')"
  | m w' where "call r q w = (Crash m, w')"
proof (cases "call r q w")
  case (Pair res w')
  show thesis
  proof (cases res)
    case (Ok resp)
    then show thesis
      using that(1) answer_successful [of r q w resp] Pair by (cases resp) (auto simp: Successful_def)
  qed (use that Pair in auto)
qed

end

text \<open>The addresses are those of the records of the requested type, in their order; the time to live is the
  smallest of the records of this type that carry an address.\<close>

definition carries :: "uint16 \<Rightarrow> RR \<Rightarrow> bool" where
  "carries qt rr \<longleftrightarrow> Rrtype rr = qt \<and> rr_data rr \<noteq> OtherData"

definition address :: "RR \<Rightarrow> Addr option" where
  "address rr = (case rr_data rr of A a \<Rightarrow> AddrFromSlice a | AAAA a \<Rightarrow> AddrFromSlice a | OtherData \<Rightarrow> None)"

lemma answers_result:
  "answers qt rrs addresses ttl
     = (addresses @ List.map_filter address (filter (carries qt) rrs),
        fold (\<lambda>rr t. min t (Ttl rr)) (filter (carries qt) rrs) ttl)"
proof (induction rrs arbitrary: addresses ttl)
  case (Cons rr rrs)
  show ?case
    by (cases "rr_data rr") (auto simp: Cons.IH carries_def address_def map_filter_simps split: option.split)
qed (simp add: map_filter_simps)

lemma min_ttl_le: "fold (\<lambda>rr t. min t (Ttl rr)) rrs ttl \<le> ttl"
proof (induction rrs arbitrary: ttl)
  case (Cons rr rrs)
  have "fold (\<lambda>rr t. min t (Ttl rr)) rrs (min ttl (Ttl rr)) \<le> min ttl (Ttl rr)" by (rule Cons.IH)
  also have "\<dots> \<le> ttl" by simp
  finally show ?case by simp
qed simp

text \<open>A reply has an address, and is valid for at most a year.\<close>

lemma reply_successful:
  assumes "reply m q prot now = Ok resp"
  obtains r where "resp = Some r" and "Exists r" and "Addresses r \<noteq> []" and "ProtectionRequired r = prot"
    and "now \<le> Expires r" and "Expires r \<le> now + 365 * 24 * 3600 * Second"
proof -
  obtain msg addresses ttl where msg: "m = (Some msg, None)"
    and ans: "answers (QueryType q) (Answer msg) [] infiniteTtl = (addresses, ttl)"
    and ne: "addresses \<noteq> []"
    and resp: "resp = Some \<lparr>Exists = True, Addresses = addresses, Expires = now + int64 (uint ttl * Second),
      ProtectionRequired = prot\<rparr>"
    using assms unfolding reply_def by (auto split: option.splits if_splits prod.splits)
  have "ttl \<le> infiniteTtl" using ans min_ttl_le by (auto simp: answers_result)
  then have "uint ttl \<le> 365 * 24 * 3600" by (simp add: word_le_def infiniteTtl_def)
  then have le: "uint ttl * Second \<le> 365 * 24 * 3600 * Second" by (simp add: Second_def)
  have ge: "0 \<le> uint ttl * Second" by (simp add: Second_def)
  have "365 * 24 * 3600 * Second < 2 ^ 63" by (simp add: Second_def)
  with le ge have "is_int64 (uint ttl * Second)" unfolding is_int64_def by linarith
  with le ge show thesis using ne by (intro that [OF resp]) simp_all
qed

lemma once_successful: "fst (once net r q prot w) = Ok resp \<Longrightarrow> Successful resp"
  by (auto simp: once_def Successful_def Let_def split: prod.splits option.splits if_splits elim!: reply_successful)

interpretation direct: resolvers "Direct_Lookup net" for net
proof
  fix r q w resp
  assume "fst (Direct_Lookup net r q w) = Ok resp"
  then show "Successful resp"
    using once_successful [of net r q False w resp] once_successful [of net r q True w]
      once_successful [of net r q True "snd (once net r q False w)"]
    by (auto simp: Direct_Lookup_def split: if_splits prod.splits outcome.splits)
qed

text \<open>The server is protected while it is asked with protection, and not claimed any more afterwards: whatever
  the answer, the calls to the protector are \<open>ProtectAddresses\<close> and then \<open>UnprotectAddresses\<close> of the server,
  or nothing but a failed \<open>ProtectAddresses\<close>.\<close>

lemma once_protects:
  assumes "is_protector (protector r) holds"
    and "\<And>w' m w''. exchange net d True (Fqdn net (Domain q)) (QueryType q) (server r) w' = (m, w'') \<Longrightarrow> holds w'' = holds w'"
    and "d = clock net w + timeout r"
    and "protect_call (protector r) [server r] w = (None, w1)"
    and "exchange net d True (Fqdn net (Domain q)) (QueryType q) (server r) w1 = (m, w2)"
    and "unprotect_call (protector r) [server r] w2 = (err, w3)"
  shows "once net r q True w = (reply m q True (clock net w2), w3)"
    and "server r \<in> holds w1"
    and "err = None \<Longrightarrow> holds w3 = holds w - {server r}"
  using assms protect_holds [OF assms(1,4)] unprotect_holds [OF assms(1,6)]
  by (auto simp: once_def Let_def)

text \<open>A server that answers that a name does not exist sends the response code 3 (and the operation code 0 of a
  standard query).  The resolver looks at the operation code: the answer is taken for an empty one, and
  only a message that is not a response to a query at all is reported as \<open>ErrNotExists\<close>.\<close>

lemma name_error_not_recognised:
  assumes "Rcode msg = RcodeNameError" and "Opcode msg = 0" and "Answer msg = []"
  shows "reply (Some msg, None) q prot now = Err ErrDNSEmptyResponse"
  using assms by (simp add: reply_def RcodeNameError_def)

end
