(* ===== verification/Xdns_Priority.thy ===== *)
theory Xdns_Priority
  imports Xdns_Resolver
begin

text \<open>
  The resolver that asks others in the order of their priorities (\<open>src/xdns/client/priority.go\<close>).  Its slice of
  pointers to entities is modelled with its backing array, because \<open>add\<close> appends to a prefix of the slice it is
  ranging over: the arrays live in a heap, a slice is an array and a length, and the capacity is the length of
  the array.  How far \<open>append\<close> lets an array grow is up to the implementation of the language, and an argument.
\<close>

section \<open>State\<close>

record 'r priorityEntity =
  priority :: int
  resolver :: 'r
  failureTimeout :: int
  failedAt :: int

record 'r PriorityResolver =
  sl_arr :: nat
  sl_len :: nat
  arrays :: "nat \<Rightarrow> nat list"
  a_free :: nat
  entities :: "nat \<Rightarrow> 'r priorityEntity"
  e_free :: nat

definition contents :: "'r PriorityResolver \<Rightarrow> nat list" where
  "contents r = take (sl_len r) (arrays r (sl_arr r))"

text \<open>\<open>r.resolvers = append(r.resolvers[:n], xs...)\<close>.\<close>

definition append_at :: "(nat \<Rightarrow> nat \<Rightarrow> nat) \<Rightarrow> nat \<Rightarrow> nat list \<Rightarrow> 'r PriorityResolver \<Rightarrow> 'r PriorityResolver" where
  "append_at grow n xs r =
     (let a = arrays r (sl_arr r); need = n + length xs in
      if need \<le> length a
      then r\<lparr>arrays := (arrays r)(sl_arr r := take n a @ xs @ drop need a), sl_len := need\<rparr>
      else r\<lparr>arrays := (arrays r)(a_free r := take n a @ xs @ replicate (grow (length a) need - need) 0),
             sl_arr := a_free r, a_free := a_free r + 1, sl_len := need\<rparr>)"

definition NewPriorityResolver :: "'r priorityEntity \<Rightarrow> 'r PriorityResolver" where
  "NewPriorityResolver e0 =
     \<lparr>sl_arr = 0, sl_len = 0, arrays = (\<lambda>_. []), a_free = 1, entities = (\<lambda>_. e0), e_free = 0\<rparr>"

section \<open>Operations\<close>

definition Priority_Get :: "'r PriorityResolver \<Rightarrow> int \<Rightarrow> (dns_err, 'r) outcome" where
  "Priority_Get r prio =
     (case find (\<lambda>e. priority (entities r e) = prio) (contents r) of
        Some e \<Rightarrow> Ok (resolver (entities r e))
      | None \<Rightarrow> Err ErrNotExists)"

text \<open>\<open>append(append(r.resolvers[:idx], entity), r.resolvers[idx:]...)\<close>: the inner \<open>append\<close> writes into the array
  of the slice before the outer one reads the rest of it.\<close>

definition duplicate :: "(nat \<Rightarrow> nat \<Rightarrow> nat) \<Rightarrow> nat \<Rightarrow> nat \<Rightarrow> 'r PriorityResolver \<Rightarrow> 'r PriorityResolver" where
  "duplicate grow idx e r =
     (let inner = append_at grow idx [e] r;
          rest = drop idx (take (sl_len r) (arrays inner (sl_arr r))) in
      append_at grow (idx + 1) rest inner)"

text \<open>The loop ranges over the slice it started with: the array \<open>arr\<close> and the number \<open>left\<close> of elements from
  \<open>idx\<close> on, while the body may replace \<open>r.resolvers\<close>.\<close>

fun add_loop :: "(nat \<Rightarrow> nat \<Rightarrow> nat) \<Rightarrow> nat \<Rightarrow> nat \<Rightarrow> nat \<Rightarrow> int \<Rightarrow> 'r \<Rightarrow> bool \<Rightarrow> nat \<Rightarrow> 'r PriorityResolver \<Rightarrow> 'r PriorityResolver" where
  "add_loop grow arr idx 0 prio res replace new r = append_at grow (sl_len r) [new] r"
| "add_loop grow arr idx (Suc left) prio res replace new r =
     (let e = arrays r arr ! idx in
      if priority (entities r e) = prio \<and> replace
      then (let e = arrays r (sl_arr r) ! idx in
            r\<lparr>entities := (entities r)(e := (entities r e)\<lparr>resolver := res\<rparr>)\<rparr>)
      else
        add_loop grow arr (idx + 1) left prio res replace new
          (if priority (entities r e) > prio then duplicate grow idx e r else r))"

definition add :: "(nat \<Rightarrow> nat \<Rightarrow> nat) \<Rightarrow> 'r PriorityResolver \<Rightarrow> int \<Rightarrow> 'r \<Rightarrow> int \<Rightarrow> bool \<Rightarrow> 'r PriorityResolver" where
  "add grow r prio res wait replace =
     (let new = e_free r;
          entity = \<lparr>priority = prio, resolver = res, failureTimeout = wait, failedAt = 0\<rparr>;
          r = r\<lparr>entities := (entities r)(new := entity), e_free := new + 1\<rparr> in
      add_loop grow (sl_arr r) 0 (sl_len r) prio res replace new r)"

definition Priority_With :: "(nat \<Rightarrow> nat \<Rightarrow> nat) \<Rightarrow> int \<Rightarrow> 'r \<Rightarrow> 'w options \<Rightarrow> 'r PriorityResolver \<Rightarrow> 'r PriorityResolver" where
  "Priority_With grow prio res opts r = add grow r prio res (priorityFailureTimeout opts) True"

definition Priority_Add :: "(nat \<Rightarrow> nat \<Rightarrow> nat) \<Rightarrow> int \<Rightarrow> 'r \<Rightarrow> 'w options \<Rightarrow> 'r PriorityResolver
    \<Rightarrow> dns_err option \<times> 'r PriorityResolver" where
  "Priority_Add grow prio res opts r = (None, add grow r prio res (priorityFailureTimeout opts) False)"

fun unset_loop :: "(nat \<Rightarrow> nat \<Rightarrow> nat) \<Rightarrow> nat \<Rightarrow> nat list \<Rightarrow> int \<Rightarrow> 'r PriorityResolver \<Rightarrow> dns_err option \<times> 'r PriorityResolver" where
  "unset_loop grow idx [] prio r = (Some ErrNotExists, r)"
| "unset_loop grow idx (e # es) prio r =
     (if priority (entities r e) = prio
      then (None, append_at grow idx (drop (idx + 1) (contents r)) r)
      else unset_loop grow (idx + 1) es prio r)"

definition Priority_Unset :: "(nat \<Rightarrow> nat \<Rightarrow> nat) \<Rightarrow> int \<Rightarrow> 'r PriorityResolver \<Rightarrow> dns_err option \<times> 'r PriorityResolver" where
  "Priority_Unset grow prio r = unset_loop grow 0 (contents r) prio r"

fun priority_loop :: "('r, 'w) dispatch \<Rightarrow> ('w \<Rightarrow> int) \<Rightarrow> Request \<Rightarrow> nat list \<Rightarrow> 'r PriorityResolver \<Rightarrow> 'w
    \<Rightarrow> (dns_err, Response option) outcome \<times> 'r PriorityResolver \<times> 'w" where
  "priority_loop call now q [] r w = (Err ErrDNSNoResponse, r, w)"
| "priority_loop call now q (e # es) r w =
     (if time_sub (now w) (failedAt (entities r e)) > failureTimeout (entities r e)
      then (case call (resolver (entities r e)) q w of
              (Ok result, w) \<Rightarrow> (Ok result, r, w)
            | (Err err, w) \<Rightarrow>
                priority_loop call now q es
                  (if err \<noteq> ErrDNSEmptyResponse \<and> err \<noteq> ErrDNSNotExists
                   then r\<lparr>entities := (entities r)(e := (entities r e)\<lparr>failedAt := now w\<rparr>)\<rparr> else r) w
            | (Crash m, w) \<Rightarrow> (Crash m, r, w))
      else priority_loop call now q es r w)"

definition Priority_Lookup :: "('r, 'w) dispatch \<Rightarrow> ('w \<Rightarrow> int) \<Rightarrow> Request \<Rightarrow> 'r PriorityResolver \<Rightarrow> 'w
    \<Rightarrow> (dns_err, Response option) outcome \<times> 'r PriorityResolver \<times> 'w" where
  "Priority_Lookup call now q r w = priority_loop call now q (contents r) r w"

section \<open>Slices\<close>

definition slice_ok :: "'r PriorityResolver \<Rightarrow> bool" where
  "slice_ok r \<longleftrightarrow> sl_len r \<le> length (arrays r (sl_arr r)) \<and> sl_arr r < a_free r"

lemma slice_ok_New: "slice_ok (NewPriorityResolver e0)" "contents (NewPriorityResolver e0) = []"
  by (simp_all add: slice_ok_def NewPriorityResolver_def contents_def)

lemma append_at_contents:
  assumes "slice_ok r" and "n \<le> sl_len r"
  shows "contents (append_at grow n xs r) = take n (contents r) @ xs" and "slice_ok (append_at grow n xs r)"
    and "sl_len (append_at grow n xs r) = n + length xs"
    and "entities (append_at grow n xs r) = entities r" and "e_free (append_at grow n xs r) = e_free r"
  using assms by (auto simp: append_at_def contents_def slice_ok_def Let_def min_def)

lemma slice_upd [simp]:
  "contents (r\<lparr>entities := f, e_free := n\<rparr>) = contents r" "slice_ok (r\<lparr>entities := f, e_free := n\<rparr>) = slice_ok r"
  "contents (r\<lparr>entities := f\<rparr>) = contents r" "slice_ok (r\<lparr>entities := f\<rparr>) = slice_ok r"
  by (simp_all add: contents_def slice_ok_def)

lemma length_contents: "slice_ok r \<Longrightarrow> length (contents r) = sl_len r"
  by (simp add: contents_def slice_ok_def)

text \<open>The duplicating \<open>append\<close>: the element at \<open>idx\<close> becomes \<open>e\<close> and is repeated.\<close>

lemma duplicate_contents:
  assumes "slice_ok r" and "idx < sl_len r"
  shows "contents (duplicate grow idx e r) = take idx (contents r) @ e # e # drop (idx + 1) (contents r)"
    and "slice_ok (duplicate grow idx e r)" and "sl_len (duplicate grow idx e r) = sl_len r + 1"
    and "entities (duplicate grow idx e r) = entities r" and "e_free (duplicate grow idx e r) = e_free r"
proof -
  let ?a = "arrays r (sl_arr r)"
  define inner where "inner = append_at grow idx [e] r"
  have len: "idx + 1 \<le> length ?a" using assms by (simp add: slice_ok_def)
  have arr: "arrays inner (sl_arr r) = take idx ?a @ e # drop (idx + 1) ?a"
    and i: "slice_ok inner" "sl_len inner = idx + 1" "entities inner = entities r" "e_free inner = e_free r"
      "contents inner = take idx (contents r) @ [e]"
    using assms len append_at_contents [OF assms(1), of idx grow "[e]"]
    by (auto simp: inner_def append_at_def Let_def)
  have rest: "drop idx (take (sl_len r) (arrays inner (sl_arr r))) = e # drop (idx + 1) (contents r)" (is "?rest = _")
    using assms len by (simp add: arr contents_def drop_take take_Cons' min_def)
  have d: "duplicate grow idx e r = append_at grow (idx + 1) ?rest inner"
    by (simp add: duplicate_def inner_def Let_def)
  note ap = append_at_contents [OF i(1), of "idx + 1" grow ?rest]
  show "contents (duplicate grow idx e r) = take idx (contents r) @ e # e # drop (idx + 1) (contents r)"
    using ap(1) i rest assms length_contents [OF assms(1)] by (simp add: d)
  show "sl_len (duplicate grow idx e r) = sl_len r + 1"
    using ap(3) i rest assms length_contents [OF assms(1)] by (simp add: d)
  show "slice_ok (duplicate grow idx e r)" "entities (duplicate grow idx e r) = entities r"
    "e_free (duplicate grow idx e r) = e_free r"
    using ap i by (simp_all add: d)
qed

section \<open>Adding in ascending order\<close>

definition entity_ok :: "'r PriorityResolver \<Rightarrow> bool" where
  "entity_ok r \<longleftrightarrow> slice_ok r \<and> (\<forall>e \<in> set (contents r). e < e_free r)"

lemma add_loop_ascending:
  assumes "slice_ok r" and "arr = sl_arr r" and "sl_len r = idx + left"
    and "\<forall>e \<in> set (drop idx (contents r)). priority (entities r e) \<le> prio \<and> \<not> (priority (entities r e) = prio \<and> replace)"
  shows "add_loop grow arr idx left prio res replace new r = append_at grow (sl_len r) [new] r"
  using assms
proof (induction left arbitrary: idx)
  case (Suc left)
  have len: "idx < length (contents r)" using Suc.prems length_contents [of r] by simp
  then have "contents r ! idx \<in> set (drop idx (contents r))"
    by (metis Cons_nth_drop_Suc list.set_intros(1))
  moreover have "contents r ! idx = arrays r arr ! idx"
    using Suc.prems by (simp add: contents_def)
  ultimately have e: "priority (entities r (arrays r arr ! idx)) \<le> prio"
    "\<not> (priority (entities r (arrays r arr ! idx)) = prio \<and> replace)"
    using Suc.prems(4) by auto
  have "\<forall>e \<in> set (drop (idx + 1) (contents r)). priority (entities r e) \<le> prio \<and> \<not> (priority (entities r e) = prio \<and> replace)"
    using Suc.prems(4) len by (metis Cons_nth_drop_Suc Suc_eq_plus1 list.set_intros(2))
  with Suc.IH [of "idx + 1"] Suc.prems e show ?case by (auto simp: Let_def)
qed simp

lemma add_ascending:
  assumes "entity_ok r"
    and "\<forall>e \<in> set (contents r). priority (entities r e) \<le> prio \<and> \<not> (priority (entities r e) = prio \<and> replace)"
    and r': "r' = add grow r prio res wait replace"
  shows "contents r' = contents r @ [e_free r]" and "entity_ok r'" and "e_free r' = e_free r + 1"
    and "entities r' = (entities r)(e_free r := \<lparr>priority = prio, resolver = res, failureTimeout = wait, failedAt = 0\<rparr>)"
proof -
  let ?e = "\<lparr>priority = prio, resolver = res, failureTimeout = wait, failedAt = 0\<rparr>"
  let ?r = "r\<lparr>entities := (entities r)(e_free r := ?e), e_free := e_free r + 1\<rparr>"
  have ok: "slice_ok ?r" and c: "contents ?r = contents r" using assms(1) by (auto simp: entity_ok_def)
  have "add_loop grow (sl_arr ?r) 0 (sl_len ?r) prio res replace (e_free r) ?r = append_at grow (sl_len ?r) [e_free r] ?r"
    using assms(1,2) ok by (intro add_loop_ascending) (auto simp: c entity_ok_def)
  then have a: "r' = append_at grow (sl_len ?r) [e_free r] ?r" by (simp add: r' add_def Let_def)
  note ap = append_at_contents [OF ok, of "sl_len ?r" grow "[e_free r]"]
  show 1: "contents r' = contents r @ [e_free r]" and 2: "e_free r' = e_free r + 1"
    and "entities r' = (entities r)(e_free r := ?e)"
    using ap length_contents [OF ok] c by (simp_all add: a)
  show "entity_ok r'" using 1 2 ap(2) assms(1) by (auto simp: entity_ok_def a)
qed

section \<open>Adding below\<close>

text \<open>An \<open>append\<close> leaves in each cell of an array what was there, or an element of the slice.\<close>

lemma append_at_cells:
  assumes "slice_ok r" and "n \<le> sl_len r" and "arr < a_free r"
  shows "arr < a_free (append_at grow n xs r)" and "length (arrays (append_at grow n xs r) arr) = length (arrays r arr)"
    and "i < length (arrays r arr)
      \<Longrightarrow> arrays (append_at grow n xs r) arr ! i \<in> insert (arrays r arr ! i) (set (contents (append_at grow n xs r)))"
proof -
  let ?a = "arrays r (sl_arr r)"
  show "arr < a_free (append_at grow n xs r)" using assms by (simp add: append_at_def Let_def)
  show "length (arrays (append_at grow n xs r) arr) = length (arrays r arr)"
    using assms by (auto simp: append_at_def Let_def slice_ok_def)
  assume i: "i < length (arrays r arr)"
  show "arrays (append_at grow n xs r) arr ! i \<in> insert (arrays r arr ! i) (set (contents (append_at grow n xs r)))"
  proof (cases "arr = sl_arr r \<and> n + length xs \<le> length ?a")
    case True
    then have "arrays (append_at grow n xs r) arr = take n ?a @ xs @ drop (n + length xs) ?a"
      by (simp add: append_at_def Let_def)
    moreover have "contents (append_at grow n xs r) = take n (contents r) @ xs"
      by (rule append_at_contents(1) [OF assms(1,2)])
    ultimately show ?thesis
      using True i assms by (auto simp: nth_append contents_def slice_ok_def)
  next
    case False
    then show ?thesis using assms(3) by (auto simp: append_at_def Let_def)
  qed
qed

lemma duplicate_cells:
  assumes "slice_ok r" and "idx < sl_len r" and "arr < a_free r"
  shows "arr < a_free (duplicate grow idx e r)" and "length (arrays (duplicate grow idx e r) arr) = length (arrays r arr)"
    and "i < length (arrays r arr)
      \<Longrightarrow> arrays (duplicate grow idx e r) arr ! i \<in> insert (arrays r arr ! i) (set (contents (duplicate grow idx e r)))"
proof -
  define inner where "inner = append_at grow idx [e] r"
  define rest where "rest = drop idx (take (sl_len r) (arrays inner (sl_arr r)))"
  have d: "duplicate grow idx e r = append_at grow (idx + 1) rest inner"
    by (simp add: duplicate_def inner_def rest_def Let_def)
  have ok: "slice_ok inner" "sl_len inner = idx + 1" and c: "contents inner = take idx (contents r) @ [e]"
    using append_at_contents [OF assms(1), of idx grow "[e]"] assms(2) by (simp_all add: inner_def)
  note in1 = append_at_cells [OF assms(1) _ assms(3), where n = idx and grow = grow and xs = "[e]", folded inner_def]
  have a: "arr < a_free inner" using in1(1) assms(2) by simp
  note in2 = append_at_cells [OF ok(1) _ a, where n = "idx + 1" and grow = grow and xs = rest, folded d]
  show "arr < a_free (duplicate grow idx e r)" and len: "length (arrays (duplicate grow idx e r) arr) = length (arrays r arr)"
    using in1 in2 ok assms(2) by simp_all
  have "set (contents inner) \<subseteq> set (contents (duplicate grow idx e r))"
    using duplicate_contents(1) [OF assms(1,2), of grow e] c by auto
  then show "arrays (duplicate grow idx e r) arr ! i \<in> insert (arrays r arr ! i) (set (contents (duplicate grow idx e r)))"
    if "i < length (arrays r arr)"
    using in1(2) in1(3) [of i] in2(3) [of i] that ok assms(2) by auto
qed

text \<open>The loop, when every element of the slice has a larger priority: it duplicates in every round.\<close>

lemma add_loop_below:
  assumes "slice_ok r" and "arr < a_free r" and "idx + left \<le> length (arrays r arr)" and "idx + left \<le> sl_len r"
    and "\<forall>i. idx \<le> i \<and> i < idx + left \<longrightarrow> arrays r arr ! i \<in> S" and "set (contents r) \<subseteq> S"
    and "\<forall>e \<in> S. prio < priority (entities r e)"
    and "contents r \<noteq> [] \<and> hd (contents r) = h" and "idx = 0 \<and> left \<noteq> 0 \<longrightarrow> arrays r arr ! 0 = h"
  shows "\<exists>es. contents (add_loop grow arr idx left prio res replace new r) = h # es @ [new] \<and> set es \<subseteq> S
    \<and> length es + 1 = sl_len r + left \<and> entities (add_loop grow arr idx left prio res replace new r) = entities r"
  using assms
proof (induction left arbitrary: idx r)
  case 0
  then show ?case
    using append_at_contents(1,4) [of r "sl_len r" grow "[new]"] length_contents [of r]
    by (cases "contents r") auto
next
  case (Suc left)
  let ?e = "arrays r arr ! idx"
  let ?r = "duplicate grow idx ?e r"
  have e: "?e \<in> S" and idx: "idx < sl_len r" using Suc.prems(4,5) by auto
  then have "prio < priority (entities r ?e)" using Suc.prems(7) by blast
  then have loop: "add_loop grow arr idx (Suc left) prio res replace new r
      = add_loop grow arr (idx + 1) left prio res replace new ?r"
    by (simp add: Let_def)
  note dc = duplicate_contents [OF Suc.prems(1) idx, where grow = grow and e = ?e]
    and cells = duplicate_cells [OF Suc.prems(1) idx Suc.prems(2), where grow = grow and e = ?e]
  have sub: "set (contents ?r) \<subseteq> S"
    using dc(1) e Suc.prems(6) set_take_subset [of idx "contents r"] set_drop_subset [of "idx + 1" "contents r"] by auto
  have "\<exists>es. contents (add_loop grow arr (idx + 1) left prio res replace new ?r) = h # es @ [new] \<and> set es \<subseteq> S
    \<and> length es + 1 = sl_len ?r + left \<and> entities (add_loop grow arr (idx + 1) left prio res replace new ?r) = entities ?r"
  proof (rule Suc.IH)
    show "\<forall>i. idx + 1 \<le> i \<and> i < idx + 1 + left \<longrightarrow> arrays ?r arr ! i \<in> S"
    proof (intro allI impI)
      fix i assume i: "idx + 1 \<le> i \<and> i < idx + 1 + left"
      then have "arrays ?r arr ! i \<in> insert (arrays r arr ! i) (set (contents ?r))"
        using cells(3) [of i] Suc.prems(3) by simp
      moreover have "arrays r arr ! i \<in> S" using i Suc.prems(5) by simp
      ultimately show "arrays ?r arr ! i \<in> S" using sub by (metis insertE subsetD)
    qed
    show "contents ?r \<noteq> [] \<and> hd (contents ?r) = h"
      using dc(1) Suc.prems(8,9) idx length_contents [OF Suc.prems(1)]
      by (cases idx; cases "contents r") auto
    show "\<forall>e \<in> S. prio < priority (entities ?r e)" using Suc.prems(7) dc(4) by simp
    show "idx + 1 + left \<le> length (arrays ?r arr)" "idx + 1 + left \<le> sl_len ?r"
      using Suc.prems(3,4) cells(2) dc(3) by simp_all
  qed (use dc(2) cells(1) sub in simp_all)
  then show ?case using loop dc(3,4) by simp
qed

lemma add_below:
  assumes "entity_ok r" and "contents r \<noteq> []" and "\<forall>e \<in> set (contents r). prio < priority (entities r e)"
    and r': "r' = add grow r prio res wait replace"
  shows "\<exists>es. contents r' = hd (contents r) # es @ [e_free r] \<and> set es \<subseteq> set (contents r)
    \<and> length es + 1 = 2 * length (contents r)"
    and "entities r' = (entities r)(e_free r := \<lparr>priority = prio, resolver = res, failureTimeout = wait, failedAt = 0\<rparr>)"
proof -
  let ?e = "\<lparr>priority = prio, resolver = res, failureTimeout = wait, failedAt = 0\<rparr>"
  let ?r = "r\<lparr>entities := (entities r)(e_free r := ?e), e_free := e_free r + 1\<rparr>"
  have ok: "slice_ok ?r" "slice_ok r" using assms(1) by (simp_all add: entity_ok_def)
  have cells: "arrays ?r (sl_arr ?r) ! i = contents r ! i" if "i < sl_len r" for i
    using that by (simp add: contents_def)
  have len: "length (contents r) = sl_len r" by (rule length_contents [OF ok(2)])
  have fresh: "\<forall>e \<in> set (contents r). prio < priority (entities ?r e)"
    using assms(1,3) by (auto simp: entity_ok_def)
  have "\<exists>es. contents (add_loop grow (sl_arr ?r) 0 (sl_len ?r) prio res replace (e_free r) ?r) = hd (contents r) # es @ [e_free r]
      \<and> set es \<subseteq> set (contents r) \<and> length es + 1 = sl_len ?r + sl_len ?r
      \<and> entities (add_loop grow (sl_arr ?r) 0 (sl_len ?r) prio res replace (e_free r) ?r) = entities ?r"
  proof (rule add_loop_below [OF ok(1)])
    show "\<forall>i. 0 \<le> i \<and> i < 0 + sl_len ?r \<longrightarrow> arrays ?r (sl_arr ?r) ! i \<in> set (contents r)"
      using cells len by simp
    show "0 = 0 \<and> sl_len ?r \<noteq> 0 \<longrightarrow> arrays ?r (sl_arr ?r) ! 0 = hd (contents r)"
      using cells [of 0] assms(2) by (simp add: hd_conv_nth)
  qed (use ok fresh assms(2) in \<open>simp_all add: slice_ok_def\<close>)
  moreover have "r' = add_loop grow (sl_arr ?r) 0 (sl_len ?r) prio res replace (e_free r) ?r"
    by (simp add: r' add_def Let_def)
  ultimately show "\<exists>es. contents r' = hd (contents r) # es @ [e_free r] \<and> set es \<subseteq> set (contents r)
      \<and> length es + 1 = 2 * length (contents r)"
    and "entities r' = (entities r)(e_free r := ?e)"
    using len by auto
qed

lemma priority_loop_append:
  "priority_loop call now q es r w = (Ok answer, r'', w') \<Longrightarrow> priority_loop call now q (es @ es') r w = (Ok answer, r'', w')"
  by (induction call now q es r w rule: priority_loop.induct) (auto split: if_splits prod.splits outcome.splits)

text \<open>C33: a resolver that is added with a smaller priority than all others, and so should be asked first, is
  asked last: \<open>add\<close> does not insert it but repeats the others (there are now twice as many pointers, with the
  one that was first still in front) and appends the new one behind all of them, however the array of
  the slice grows.  As long as one of the others answers, the new resolver is never asked.\<close>

theorem smaller_priority_asked_last:
  assumes "entity_ok r" and "contents r \<noteq> []" and "\<forall>e \<in> set (contents r). prio < priority (entities r e)"
    and "r' = add grow r prio res wait replace"
    and "priority_loop call now q (butlast (contents r')) r' w = (Ok answer, r'', w')"
  shows "hd (contents r') = hd (contents r) \<and> resolver (entities r' (last (contents r'))) = res
    \<and> set (butlast (contents r')) \<subseteq> set (contents r) \<and> length (contents r') = 2 * length (contents r) + 1
    \<and> Priority_Lookup call now q r' w = (Ok answer, r'', w')"
proof -
  obtain es where es: "contents r' = hd (contents r) # es @ [e_free r]" "set es \<subseteq> set (contents r)"
    "length es + 1 = 2 * length (contents r)"
    using add_below(1) [OF assms(1-4)] by blast
  have split: "contents r' = butlast (contents r') @ [e_free r]" using es(1) by (simp add: butlast_append)
  have "Priority_Lookup call now q r' w = (Ok answer, r'', w')"
    unfolding Priority_Lookup_def by (subst split) (rule priority_loop_append [OF assms(5)])
  then show ?thesis
    using es add_below(2) [OF assms(1-4)] assms(2) by (auto simp: butlast_append)
qed

text \<open>A resolver with priority 10, asked although one with priority 1 is there: the world is the list of the
  resolvers that were asked.\<close>

definition ten :: "nat PriorityResolver" where
  "ten = add (\<lambda>_ need. need) (NewPriorityResolver \<lparr>priority = 0, resolver = 0, failureTimeout = 0, failedAt = 0\<rparr>) 10 7 15 True"

definition ten_one :: "nat PriorityResolver" where
  "ten_one = add (\<lambda>_ need. need) ten 1 8 15 True"

definition log_call :: "(nat, nat list) dispatch" where
  "log_call x q w = (Ok (Some zeroResponse), w @ [x])"

theorem smaller_priority_asked_last_witness:
  "resolver (entities ten_one (last (contents ten_one))) = 8 \<and> length (contents ten_one) = 3
    \<and> Priority_Lookup log_call (\<lambda>_. 100) \<lparr>Domain = ''a'', QueryType = 1, NoLazy = False\<rparr> ten_one []
        = (Ok (Some zeroResponse), ten_one, [7])"
proof -
  have ten: "contents ten = [0]" "entity_ok ten" "priority (entities ten 0) = 10"
    by (simp_all add: ten_def add_def NewPriorityResolver_def append_at_def contents_def entity_ok_def slice_ok_def Let_def)
  have loop: "priority_loop log_call (\<lambda>_. 100) \<lparr>Domain = ''a'', QueryType = 1, NoLazy = False\<rparr>
      (butlast (contents ten_one)) ten_one [] = (Ok (Some zeroResponse), ten_one, [7])"
    by (simp add: ten_one_def ten_def add_def NewPriorityResolver_def append_at_def duplicate_def contents_def Let_def
        log_call_def time_sub_def max_duration_def min_duration_def)
  show ?thesis
    using smaller_priority_asked_last [OF ten(2) _ _ ten_one_def loop] ten by simp
qed

section \<open>Answers\<close>

context resolvers
begin

lemma priority_loop_successful:
  "priority_loop call now q es r w = (Ok resp, r', w') \<Longrightarrow> Successful resp"
proof (induction es arbitrary: r w)
  case (Cons e es)
  show ?case
  proof (cases "call (resolver (entities r e)) q w")
    case (Pair res w1)
    then show ?thesis
      using Cons answer_successful [of "resolver (entities r e)" q w] by (cases res) (auto split: if_splits)
  qed
qed simp

lemma priority_lookup_successful: "fst (Priority_Lookup call now q r w) = Ok resp \<Longrightarrow> Successful resp"
  using priority_loop_successful [of now q "contents r" r w resp]
  by (cases "Priority_Lookup call now q r w") (auto simp: Priority_Lookup_def)

end

text \<open>Servers in ascending order of their priorities: the slice holds them in this order.\<close>

fun with_all :: "(nat \<Rightarrow> nat \<Rightarrow> nat) \<Rightarrow> (int \<times> 'r) list \<Rightarrow> 'w options \<Rightarrow> 'r PriorityResolver \<Rightarrow> 'r PriorityResolver" where
  "with_all grow [] opts r = r"
| "with_all grow ((prio, res) # rest) opts r = with_all grow rest opts (Priority_With grow prio res opts r)"

definition view :: "'r PriorityResolver \<Rightarrow> (int \<times> 'r) list" where
  "view r = map (\<lambda>e. (priority (entities r e), resolver (entities r e))) (contents r)"

lemma with_all_ascending:
  assumes "entity_ok r" and "sorted_wrt (<) (map fst (view r @ xs))"
  shows "view (with_all grow xs opts r) = view r @ xs"
  using assms
proof (induction xs arbitrary: r)
  case (Cons x xs)
  obtain prio res where x: "x = (prio, res)" by (cases x)
  let ?r = "Priority_With grow prio res opts r"
  have small: "\<forall>e \<in> set (contents r). priority (entities r e) \<le> prio \<and> \<not> (priority (entities r e) = prio \<and> True)"
    using Cons.prems(2) by (auto simp: x view_def sorted_wrt_append)
  have r: "contents ?r = contents r @ [e_free r]" "entity_ok ?r" "entities ?r = (entities r)(e_free r := \<lparr>priority = prio,
      resolver = res, failureTimeout = priorityFailureTimeout opts, failedAt = 0\<rparr>)"
    using add_ascending [OF Cons.prems(1) small, of ?r grow res] by (simp_all add: Priority_With_def)
  have "view ?r = view r @ [x]"
    using r Cons.prems(1) by (auto simp: view_def x entity_ok_def)
  then show ?case using Cons.IH [OF r(2)] Cons.prems(2) by (simp add: x)
qed simp

end
