(* ===== verification/Xdns_Lastactive.thy ===== *)
theory Xdns_Lastactive
  imports Xdns_Resolver List_Store
begin

text \<open>
  The resolver that asks the server that answered last first (\<open>src/xdns/client/lastactive.go\<close>), on the linked list
  of \<open>Linked_List\<close>: the values of the list are pointers to entities.  \<open>Lookup\<close> releases the lock between asking
  and moving, so it is modelled as these two critical sections, between which anything may happen, and as
  their composition.  A loop that does not end, or a dereference of nil, is \<open>None\<close>.
\<close>

section \<open>Operations\<close>

record 'r lastActiveEntity =
  tag :: string
  la_resolver :: 'r

record 'r LastActiveResolver =
  la_heap :: "nat list_heap"
  la_list :: nat
  la_ents :: "nat \<Rightarrow> 'r lastActiveEntity"
  la_free :: nat

definition NewLastActive :: "'r lastActiveEntity \<Rightarrow> 'r LastActiveResolver" where
  "NewLastActive e0 =
     (case New (empty_heap 0) of
        (l, h) \<Rightarrow> \<lparr>la_heap = h, la_list = l, la_ents = (\<lambda>_. e0), la_free = 0\<rparr>)"

text \<open>The loops of \<open>add\<close> and \<open>Unset\<close>: the first element whose entity has the tag.\<close>

partial_function (option) find_tag :: "'r LastActiveResolver \<Rightarrow> string \<Rightarrow> eref option \<Rightarrow> nat option option" where
  "find_tag r t pos =
     (case pos of
        None \<Rightarrow> Some None
      | Some (Root l) \<Rightarrow> None
      | Some (El e) \<Rightarrow>
          if tag (la_ents r (h_value (la_heap r) e)) = t then Some (Some e)
          else find_tag r t (Next (la_heap r) e))"

definition la_add :: "'r LastActiveResolver \<Rightarrow> string \<Rightarrow> 'r \<Rightarrow> bool \<Rightarrow> (dns_err option \<times> 'r LastActiveResolver) option" where
  "la_add r t res replace = do {
     found \<leftarrow> find_tag r t (Front (la_heap r) (la_list r));
     case found of
       Some e \<Rightarrow>
         if replace
         then (let p = h_value (la_heap r) e in
               Some (None, r\<lparr>la_ents := (la_ents r)(p := (la_ents r p)\<lparr>la_resolver := res\<rparr>)\<rparr>))
         else Some (Some ErrExists, r)
     | None \<Rightarrow> do {
         (_, h) \<leftarrow> PushBack (la_heap r) (la_list r) (la_free r);
         Some (None, r\<lparr>la_heap := h, la_ents := (la_ents r)(la_free r := \<lparr>tag = t, la_resolver = res\<rparr>),
                       la_free := la_free r + 1\<rparr>)
       }
   }"

definition LastActive_With :: "string \<Rightarrow> 'r \<Rightarrow> 'r LastActiveResolver \<Rightarrow> 'r LastActiveResolver option" where
  "LastActive_With t res r = map_option snd (la_add r t res True)"

definition LastActive_Add :: "string \<Rightarrow> 'r \<Rightarrow> 'r LastActiveResolver \<Rightarrow> (dns_err option \<times> 'r LastActiveResolver) option" where
  "LastActive_Add t res r = la_add r t res False"

definition LastActive_Unset :: "string \<Rightarrow> 'r LastActiveResolver \<Rightarrow> (dns_err option \<times> 'r LastActiveResolver) option" where
  "LastActive_Unset t r = do {
     found \<leftarrow> find_tag r t (Front (la_heap r) (la_list r));
     case found of
       Some e \<Rightarrow> do {
         (_, h) \<leftarrow> Remove (la_heap r) (la_list r) e;
         Some (None, r\<lparr>la_heap := h\<rparr>)
       }
     | None \<Rightarrow> Some (Some ErrNotExists, r)
   }"

text \<open>The loop of \<open>Lookup\<close>: the answer and the element it came from.\<close>

datatype found = Missed | Found "Response option" nat | Crashed string

partial_function (option) la_scan :: "('r, 'w) dispatch \<Rightarrow> Request \<Rightarrow> 'r LastActiveResolver \<Rightarrow> eref option \<Rightarrow> 'w \<Rightarrow> (found \<times> 'w) option" where
  "la_scan call q r pos w =
     (case pos of
        None \<Rightarrow> Some (Missed, w)
      | Some (Root l) \<Rightarrow> None
      | Some (El e) \<Rightarrow>
          (case call (la_resolver (la_ents r (h_value (la_heap r) e))) q w of
             (Ok result, w) \<Rightarrow>
               if Successful result then Some (Found result e, w)
               else la_scan call q r (Next (la_heap r) e) w
           | (Err err, w) \<Rightarrow> la_scan call q r (Next (la_heap r) e) w
           | (Crash m, w) \<Rightarrow> Some (Crashed m, w)))"

definition la_ask :: "('r, 'w) dispatch \<Rightarrow> Request \<Rightarrow> 'r LastActiveResolver \<Rightarrow> 'w \<Rightarrow> (found \<times> bool \<times> 'w) option" where
  "la_ask call q r w = do {
     (f, w) \<leftarrow> la_scan call q r (Front (la_heap r) (la_list r)) w;
     Some (f, (case f of Found result e \<Rightarrow> Some (El e) \<noteq> Front (la_heap r) (la_list r) | _ \<Rightarrow> False), w)
   }"

definition la_move :: "nat \<Rightarrow> 'r LastActiveResolver \<Rightarrow> 'r LastActiveResolver option" where
  "la_move e r = do { h \<leftarrow> MoveToFront (la_heap r) (la_list r) e; Some (r\<lparr>la_heap := h\<rparr>) }"

definition LastActive_Lookup :: "('r, 'w) dispatch \<Rightarrow> Request \<Rightarrow> 'r LastActiveResolver \<Rightarrow> 'w
    \<Rightarrow> ((dns_err, Response option) outcome \<times> 'r LastActiveResolver \<times> 'w) option" where
  "LastActive_Lookup call q r w = do {
     (f, mv, w) \<leftarrow> la_ask call q r w;
     case f of
       Missed \<Rightarrow> Some (Err ErrDNSNoResponse, r, w)
     | Crashed m \<Rightarrow> Some (Crash m, r, w)
     | Found result e \<Rightarrow> do {
         r \<leftarrow> (if mv then la_move e r else Some r);
         Some (Ok result, r, w)
       }
   }"

section \<open>The sequence of resolvers\<close>

text \<open>A resolver stands for the sequence of its elements with their tags and resolvers.\<close>

type_synonym 'r la_seq = "(nat \<times> string \<times> 'r) list"

definition show_ent :: "'r LastActiveResolver \<Rightarrow> nat \<times> nat \<Rightarrow> nat \<times> string \<times> 'r" where
  "show_ent r p = (fst p, tag (la_ents r (snd p)), la_resolver (la_ents r (snd p)))"

definition la_rep :: "'r LastActiveResolver \<Rightarrow> (nat \<times> nat) list \<Rightarrow> bool" where
  "la_rep r ps \<longleftrightarrow> (\<exists>A. store_inv A (la_heap r) \<and> A (la_list r) = Some ps)
     \<and> distinct (map snd ps) \<and> (\<forall>p \<in> set ps. snd p < la_free r)"

definition stands_for :: "'r LastActiveResolver \<Rightarrow> 'r la_seq \<Rightarrow> bool" where
  "stands_for r xs \<longleftrightarrow> (\<exists>ps. la_rep r ps \<and> xs = map (show_ent r) ps) \<and> distinct (map (fst \<circ> snd) xs)"

text \<open>Walking through the list visits the sequence.\<close>

lemma find_tag_list:
  assumes "is_list (la_heap r) (la_list r) (as @ bs)"
  shows "find_tag r t (case bs of [] \<Rightarrow> None | b # _ \<Rightarrow> Some (El (fst b)))
    = Some (map_option fst (find (\<lambda>p. tag (la_ents r (snd p)) = t) bs))"
  using assms
proof (induction bs arbitrary: as)
  case Nil
  show ?case by (simp add: find_tag.simps)
next
  case (Cons b bs)
  obtain e p where b: "b = (e, p)" by (cases b)
  have v: "h_value (la_heap r) e = p" using Cons.prems is_listD(1) [of "la_heap r" "la_list r" "as @ b # bs" e p] b by simp
  have "Next (la_heap r) e = (case bs of [] \<Rightarrow> None | b # _ \<Rightarrow> Some (El (fst b)))"
    using Next_at [of "la_heap r" "la_list r" as e p bs] Cons.prems b by simp
  then show ?case using Cons.IH [of "as @ [b]"] Cons.prems b v by (simp add: find_tag.simps)
qed

lemma la_rep_ok:
  assumes "la_rep r ps"
  shows "list_ok (la_heap r) (la_list r) ps" and "ps \<noteq> [] \<Longrightarrow> is_list (la_heap r) (la_list r) ps"
proof -
  show ok: "list_ok (la_heap r) (la_list r) ps" using assms store_invD(1) by (auto simp: la_rep_def)
  show "is_list (la_heap r) (la_list r) ps" if "ps \<noteq> []" by (rule list_ok_Cons [OF ok that])
qed

lemma find_tag_front:
  assumes "la_rep r ps"
  shows "find_tag r t (Front (la_heap r) (la_list r)) = Some (map_option fst (find (\<lambda>p. tag (la_ents r (snd p)) = t) ps))"
proof (cases "ps = []")
  case True
  then show ?thesis using ends_at(2) [OF la_rep_ok(1) [OF assms]] by (simp add: find_tag.simps)
next
  case False
  then show ?thesis
    using find_tag_list [of r "[]" ps t] la_rep_ok(2) [OF assms] ends_at(2) [OF la_rep_ok(1) [OF assms]] by simp
qed

fun ask :: "('r, 'w) dispatch \<Rightarrow> Request \<Rightarrow> 'r la_seq \<Rightarrow> 'w \<Rightarrow> found \<times> 'w" where
  "ask call q [] w = (Missed, w)"
| "ask call q ((e, t, res) # xs) w =
     (case call res q w of
        (Ok result, w) \<Rightarrow> if Successful result then (Found result e, w) else ask call q xs w
      | (Err err, w) \<Rightarrow> ask call q xs w
      | (Crash m, w) \<Rightarrow> (Crashed m, w))"

lemma la_scan_list:
  assumes "is_list (la_heap r) (la_list r) (as @ bs)"
  shows "la_scan call q r (case bs of [] \<Rightarrow> None | b # _ \<Rightarrow> Some (El (fst b))) w = Some (ask call q (map (show_ent r) bs) w)"
  using assms
proof (induction bs arbitrary: as w)
  case Nil
  show ?case by (simp add: la_scan.simps)
next
  case (Cons b bs)
  obtain e p where b: "b = (e, p)" by (cases b)
  have v: "h_value (la_heap r) e = p" using Cons.prems is_listD(1) [of "la_heap r" "la_list r" "as @ b # bs" e p] b by simp
  have n: "Next (la_heap r) e = (case bs of [] \<Rightarrow> None | b # _ \<Rightarrow> Some (El (fst b)))"
    using Next_at [of "la_heap r" "la_list r" as e p bs] Cons.prems b by simp
  have ih: "la_scan call q r (Next (la_heap r) e) w' = Some (ask call q (map (show_ent r) bs) w')" for w'
    using Cons.IH [of "as @ [b]" w'] Cons.prems by (simp add: n)
  show ?case
    by (subst la_scan.simps) (simp add: b v show_ent_def ih split: prod.split outcome.split)
qed

lemma la_scan_front:
  assumes "la_rep r ps"
  shows "la_scan call q r (Front (la_heap r) (la_list r)) w = Some (ask call q (map (show_ent r) ps) w)"
proof (cases "ps = []")
  case True
  then show ?thesis using ends_at(2) [OF la_rep_ok(1) [OF assms]] by (simp add: la_scan.simps)
next
  case False
  then show ?thesis
    using la_scan_list [of r "[]" ps call q w] la_rep_ok(2) [OF assms] ends_at(2) [OF la_rep_ok(1) [OF assms]] by simp
qed

section \<open>Operations on the sequence\<close>

definition spec_add :: "nat \<Rightarrow> string \<Rightarrow> 'r \<Rightarrow> bool \<Rightarrow> 'r la_seq \<Rightarrow> dns_err option \<times> 'r la_seq" where
  "spec_add n t res replace xs =
     (if \<exists>x \<in> set xs. fst (snd x) = t
      then if replace then (None, map (\<lambda>(e, t', res'). (e, t', if t' = t then res else res')) xs) else (Some ErrExists, xs)
      else (None, xs @ [(n, t, res)]))"

definition spec_unset :: "string \<Rightarrow> 'r la_seq \<Rightarrow> dns_err option \<times> 'r la_seq" where
  "spec_unset t xs =
     (if \<exists>x \<in> set xs. fst (snd x) = t then (None, filter (\<lambda>x. fst (snd x) \<noteq> t) xs) else (Some ErrNotExists, xs))"

definition spec_move :: "nat \<Rightarrow> 'r la_seq \<Rightarrow> 'r la_seq" where
  "spec_move e xs = filter (\<lambda>x. fst x = e) xs @ filter (\<lambda>x. fst x \<noteq> e) xs"

lemma find_tag_none: "find (\<lambda>p. tag (la_ents r (snd p)) = t) ps = None
    \<longleftrightarrow> \<not> (\<exists>x \<in> set (map (show_ent r) ps). fst (snd x) = t)"
  by (simp add: find_None_iff show_ent_def del: split_paired_All split_paired_Ex) blast

lemma find_tag_some:
  assumes "find (\<lambda>p. tag (la_ents r (snd p)) = t) ps = Some p" and "distinct (map (fst \<circ> snd) (map (show_ent r) ps))"
  shows "p \<in> set ps" and "tag (la_ents r (snd p)) = t"
    and "\<forall>p' \<in> set ps. tag (la_ents r (snd p')) = t \<longrightarrow> p' = p"
proof -
  show p: "p \<in> set ps" "tag (la_ents r (snd p)) = t" using assms(1) by (auto simp: find_Some_iff)
  have inj: "inj_on (\<lambda>p. tag (la_ents r (snd p))) (set ps)"
    using assms(2) by (simp add: distinct_map comp_def show_ent_def)
  show "\<forall>p' \<in> set ps. tag (la_ents r (snd p')) = t \<longrightarrow> p' = p"
  proof (intro ballI impI)
    fix p' assume "p' \<in> set ps" and "tag (la_ents r (snd p')) = t"
    then show "p' = p" using inj_onD [OF inj, of p' p] p by simp
  qed
qed

lemma la_add_new:
  assumes "la_rep r ps" and "find (\<lambda>p. tag (la_ents r (snd p)) = t) ps = None"
  shows "\<exists>r'. la_add r t res replace = Some (None, r') \<and> la_rep r' (ps @ [(h_free (la_heap r), la_free r)])
    \<and> map (show_ent r') (ps @ [(h_free (la_heap r), la_free r)]) = map (show_ent r) ps @ [(h_free (la_heap r), t, res)]
    \<and> h_free (la_heap r') = h_free (la_heap r) + 1"
proof -
  obtain A where A: "store_inv A (la_heap r)" "A (la_list r) = Some ps"
    and d: "distinct (map snd ps)" "\<forall>p \<in> set ps. snd p < la_free r"
    using assms(1) by (auto simp: la_rep_def)
  obtain x h where h: "PushBack (la_heap r) (la_list r) (la_free r) = Some (x, h)"
    and inv: "store_inv (A(la_list r \<mapsto> ps @ [(h_free (la_heap r), la_free r)])) h" "h_free h = h_free (la_heap r) + 1"
    using PushBack_reaches [OF A, of "la_free r"] by (auto simp: reaches_def)
  let ?r = "r\<lparr>la_heap := h, la_ents := (la_ents r)(la_free r := \<lparr>tag = t, la_resolver = res\<rparr>), la_free := la_free r + 1\<rparr>"
  have "la_add r t res replace = Some (None, ?r)"
    using assms(2) find_tag_front [OF assms(1)] h by (simp add: la_add_def)
  moreover have "la_rep ?r (ps @ [(h_free (la_heap r), la_free r)])"
    using inv d by (fastforce simp: la_rep_def intro!: exI [of _ "A(la_list r \<mapsto> ps @ [(h_free (la_heap r), la_free r)])"])
  moreover have "map (show_ent ?r) ps = map (show_ent r) ps"
    using d(2) by (auto simp: show_ent_def)
  ultimately show ?thesis using inv(2) by (intro exI [of _ ?r]) (simp add: show_ent_def)
qed

lemma la_add_found:
  assumes "la_rep r ps" and "distinct (map (fst \<circ> snd) (map (show_ent r) ps))"
    and "find (\<lambda>p. tag (la_ents r (snd p)) = t) ps = Some p"
  shows "\<exists>r'. la_add r t res True = Some (None, r') \<and> la_rep r' ps
    \<and> map (show_ent r') ps = map (\<lambda>(e, t', res'). (e, t', if t' = t then res else res')) (map (show_ent r) ps)
    \<and> h_free (la_heap r') = h_free (la_heap r)"
    and "la_add r t res False = Some (Some ErrExists, r)"
proof -
  note f = find_tag_some [OF assms(3,2)]
  have ne: "ps \<noteq> []" using f(1) by auto
  have v: "h_value (la_heap r) (fst p) = snd p"
    using is_listD(1) [OF la_rep_ok(2) [OF assms(1) ne], of "fst p" "snd p"] f(1) by simp
  let ?r = "r\<lparr>la_ents := (la_ents r)(snd p := (la_ents r (snd p))\<lparr>la_resolver := res\<rparr>)\<rparr>"
  have "la_add r t res True = Some (None, ?r)"
    using assms(3) find_tag_front [OF assms(1), of t] v by (simp add: la_add_def Let_def)
  moreover have "la_rep ?r ps" using assms(1) by (simp add: la_rep_def)
  moreover have "map (show_ent ?r) ps = map (\<lambda>(e, t', res'). (e, t', if t' = t then res else res')) (map (show_ent r) ps)"
  proof -
    have "show_ent ?r x = (case show_ent r x of (e, t', res') \<Rightarrow> (e, t', if t' = t then res else res'))" if x: "x \<in> set ps" for x
    proof -
      have "inj_on snd (set ps)" using assms(1) by (simp add: la_rep_def distinct_map)
      then have "snd x = snd p \<longleftrightarrow> x = p" using x f(1) by (rule inj_on_eq_iff)
      moreover have "tag (la_ents r (snd x)) = t \<longleftrightarrow> x = p" using x f(2,3) by metis
      ultimately show ?thesis by (cases "x = p") (simp_all add: show_ent_def)
    qed
    then show ?thesis by (simp add: comp_def)
  qed
  ultimately show "\<exists>r'. la_add r t res True = Some (None, r') \<and> la_rep r' ps
    \<and> map (show_ent r') ps = map (\<lambda>(e, t', res'). (e, t', if t' = t then res else res')) (map (show_ent r) ps)
    \<and> h_free (la_heap r') = h_free (la_heap r)"
    by (intro exI [of _ ?r]) simp
  show "la_add r t res False = Some (Some ErrExists, r)"
    using assms(3) find_tag_front [OF assms(1), of t] by (simp add: la_add_def)
qed

lemma la_rep_heap:
  assumes "la_rep r ps" and "store_inv S h" and "S (la_list r) = Some ps'" and "set ps' \<subseteq> set ps" and "distinct (map snd ps')"
  shows "la_rep (r\<lparr>la_heap := h\<rparr>) ps'" and "map (show_ent (r\<lparr>la_heap := h\<rparr>)) ps' = map (show_ent r) ps'"
  using assms by (auto simp: la_rep_def show_ent_def)

lemma la_rep_distinct: "la_rep r ps \<Longrightarrow> distinct (map fst ps)"
  using la_rep_ok(2) [of r ps] distinct_fst by (cases "ps = []") auto

lemma la_unset_found:
  assumes "la_rep r ps" and "distinct (map (fst \<circ> snd) (map (show_ent r) ps))"
    and "find (\<lambda>p. tag (la_ents r (snd p)) = t) ps = Some p"
  shows "\<exists>r'. LastActive_Unset t r = Some (None, r') \<and> la_rep r' (without (fst p) ps)
    \<and> map (show_ent r') (without (fst p) ps) = filter (\<lambda>x. fst (snd x) \<noteq> t) (map (show_ent r) ps)
    \<and> h_free (la_heap r') = h_free (la_heap r)"
proof -
  note f = find_tag_some [OF assms(3,2)]
  obtain A where A: "store_inv A (la_heap r)" "A (la_list r) = Some ps" using assms(1) by (auto simp: la_rep_def)
  obtain x h where h: "Remove (la_heap r) (la_list r) (fst p) = Some (x, h)"
    and inv: "store_inv (A(la_list r \<mapsto> without (fst p) ps)) h" "h_free h = h_free (la_heap r)"
    using Remove_reaches [OF A, of "fst p"] by (auto simp: reaches_def)
  have "LastActive_Unset t r = Some (None, r\<lparr>la_heap := h\<rparr>)"
    using assms(3) find_tag_front [OF assms(1), of t] h by (simp add: LastActive_Unset_def)
  moreover have "distinct (map snd ps)" using assms(1) by (simp add: la_rep_def)
  then have sub: "set (without (fst p) ps) \<subseteq> set ps" "distinct (map snd (without (fst p) ps))"
    by (simp_all add: without_def distinct_map, auto intro: inj_on_subset)
  note rep = la_rep_heap [OF assms(1) inv(1) _ sub]
  moreover have "map (show_ent r) (without (fst p) ps) = filter (\<lambda>x. fst (snd x) \<noteq> t) (map (show_ent r) ps)"
  proof -
    have "inj_on fst (set ps)" using la_rep_distinct [OF assms(1)] by (simp add: distinct_map)
    then have "fst x = fst p \<longleftrightarrow> x = p" if "x \<in> set ps" for x using that f(1) by (rule inj_on_eq_iff)
    then have "fst x \<noteq> fst p \<longleftrightarrow> tag (la_ents r (snd x)) \<noteq> t" if "x \<in> set ps" for x
      using that f(2,3) by metis
    then show ?thesis by (simp add: without_def filter_map comp_def show_ent_def cong: filter_cong)
  qed
  ultimately show ?thesis using inv(2) rep by (intro exI [of _ "r\<lparr>la_heap := h\<rparr>"]) simp
qed

lemma la_move_rep:
  assumes "la_rep r ps"
  shows "\<exists>r' ps'. la_move e r = Some r' \<and> la_rep r' ps' \<and> map (show_ent r') ps' = spec_move e (map (show_ent r) ps)
    \<and> h_free (la_heap r') = h_free (la_heap r)"
proof -
  let ?ps = "if member e ps then pair_of e ps # without e ps else ps"
  obtain A where A: "store_inv A (la_heap r)" "A (la_list r) = Some ps" and d: "distinct (map snd ps)"
    using assms by (auto simp: la_rep_def)
  obtain h where h: "MoveToFront (la_heap r) (la_list r) e = Some h"
    and inv: "store_inv (A(la_list r \<mapsto> ?ps)) h" "h_free h = h_free (la_heap r)"
    using MoveToFront_reaches [OF A, of e] by (auto simp: reaches_def)
  have ps: "set ?ps = set ps \<and> distinct (map snd ?ps) \<and> map (show_ent r) ?ps = spec_move e (map (show_ent r) ps)"
  proof (cases "member e ps")
    case True
    obtain as v bs where s: "ps = as @ (e, v) # bs" "e \<notin> fst ` set as" "e \<notin> fst ` set bs"
      "without e ps = as @ bs" "pair_of e ps = (e, v)"
      by (rule member_split [OF la_rep_distinct [OF assms] True])
    have "filter (\<lambda>x. fst x = e) (map (show_ent r) cs) = []" "filter (\<lambda>x. fst x \<noteq> e) (map (show_ent r) cs) = map (show_ent r) cs"
      if "e \<notin> fst ` set cs" for cs
      using that by (auto simp: filter_empty_conv filter_id_conv show_ent_def)
    then show ?thesis using True s d by (auto simp: spec_move_def show_ent_def)
  next
    case False
    then have "\<forall>x \<in> set (map (show_ent r) ps). fst x \<noteq> e" by (auto simp: member_def show_ent_def)
    then have "filter (\<lambda>x. fst x = e) (map (show_ent r) ps) = []" "filter (\<lambda>x. fst x \<noteq> e) (map (show_ent r) ps) = map (show_ent r) ps"
      by (auto simp: filter_empty_conv filter_id_conv)
    then show ?thesis using False d by (simp add: spec_move_def)
  qed
  have "set ?ps \<subseteq> set ps" "distinct (map snd ?ps)" using ps by blast+
  from la_rep_heap [OF assms inv(1) _ this]
  have "la_rep (r\<lparr>la_heap := h\<rparr>) ?ps" "map (show_ent (r\<lparr>la_heap := h\<rparr>)) ?ps = map (show_ent r) ?ps"
    by (simp_all del: if_image_distrib)
  then show ?thesis
    using ps h inv(2) by (intro exI [of _ "r\<lparr>la_heap := h\<rparr>"] exI [of _ ?ps]) (simp add: la_move_def)
qed

section \<open>Runs\<close>

text \<open>The calls, with \<open>Lookup\<close> as its two sections: \<open>LaMove e\<close> may come at any time after the element was found, or
  at any time at all.\<close>

datatype 'r la_op = LaAdd string 'r bool | LaUnset string | LaAsk Request | LaMove nat

fun la_step :: "('r, 'w) dispatch \<Rightarrow> 'r la_op \<Rightarrow> 'r LastActiveResolver \<times> 'w
    \<Rightarrow> ((dns_err option + found) \<times> 'r LastActiveResolver \<times> 'w) option" where
  "la_step call (LaAdd t res replace) (r, w) = do { (e, r) \<leftarrow> la_add r t res replace; Some (Inl e, r, w) }"
| "la_step call (LaUnset t) (r, w) = do { (e, r) \<leftarrow> LastActive_Unset t r; Some (Inl e, r, w) }"
| "la_step call (LaAsk q) (r, w) = do { (f, mv, w) \<leftarrow> la_ask call q r w; Some (Inr f, r, w) }"
| "la_step call (LaMove e) (r, w) = do { r \<leftarrow> la_move e r; Some (Inl None, r, w) }"

fun seq_step :: "('r, 'w) dispatch \<Rightarrow> 'r la_op \<Rightarrow> nat \<times> 'r la_seq \<times> 'w \<Rightarrow> (dns_err option + found) \<times> nat \<times> 'r la_seq \<times> 'w" where
  "seq_step call (LaAdd t res replace) (n, xs, w) =
     (case spec_add n t res replace xs of (e, xs') \<Rightarrow> (Inl e, if length xs' = length xs then n else n + 1, xs', w))"
| "seq_step call (LaUnset t) (n, xs, w) = (case spec_unset t xs of (e, xs') \<Rightarrow> (Inl e, n, xs', w))"
| "seq_step call (LaAsk q) (n, xs, w) = (case ask call q xs w of (f, w) \<Rightarrow> (Inr f, n, xs, w))"
| "seq_step call (LaMove e) (n, xs, w) = (Inl None, n, spec_move e xs, w)"

fun la_run :: "('r, 'w) dispatch \<Rightarrow> 'r la_op list \<Rightarrow> 'r LastActiveResolver \<times> 'w
    \<Rightarrow> ((dns_err option + found) list \<times> 'r LastActiveResolver \<times> 'w) option" where
  "la_run call [] s = Some ([], s)"
| "la_run call (op # ops) s = do { (o1, s) \<leftarrow> la_step call op s; (os, s) \<leftarrow> la_run call ops s; Some (o1 # os, s) }"

fun seq_run :: "('r, 'w) dispatch \<Rightarrow> 'r la_op list \<Rightarrow> nat \<times> 'r la_seq \<times> 'w
    \<Rightarrow> (dns_err option + found) list \<times> nat \<times> 'r la_seq \<times> 'w" where
  "seq_run call [] s = ([], s)"
| "seq_run call (op # ops) s = (case seq_step call op s of (o1, s) \<Rightarrow> case seq_run call ops s of (os, s) \<Rightarrow> (o1 # os, s))"

definition matches :: "'r LastActiveResolver \<Rightarrow> nat \<times> 'r la_seq \<Rightarrow> bool" where
  "matches r s \<longleftrightarrow> stands_for r (snd s) \<and> fst s = h_free (la_heap r)"

lemma distinct_moved: "distinct (map f xs) \<Longrightarrow> distinct (map f (spec_move e xs))"
  by (induction xs) (auto simp: spec_move_def)

lemma distinct_replaced:
  "map (fst \<circ> snd) (map (\<lambda>(e, t', res'). (e, t', if t' = t then res else res')) xs) = map (fst \<circ> snd) xs"
  by auto

lemma distinct_filtered: "distinct (map f xs) \<Longrightarrow> distinct (map f (filter P xs))"
  by (simp add: distinct_map inj_on_def)

lemma matchesI:
  "la_rep r ps \<Longrightarrow> map (show_ent r) ps = xs \<Longrightarrow> distinct (map (fst \<circ> snd) xs) \<Longrightarrow> h_free (la_heap r) = n \<Longrightarrow> matches r (n, xs)"
  by (auto simp: matches_def stands_for_def)

lemma la_add_matches:
  assumes "matches r (n, xs)"
  shows "\<exists>r'. la_add r t res replace = Some (fst (spec_add n t res replace xs), r')
    \<and> matches r' (if length (snd (spec_add n t res replace xs)) = length xs then n else n + 1, snd (spec_add n t res replace xs))"
proof -
  obtain ps where rep: "la_rep r ps" and xs: "xs = map (show_ent r) ps" and d: "distinct (map (fst \<circ> snd) xs)"
    and n: "n = h_free (la_heap r)"
    using assms by (auto simp: matches_def stands_for_def)
  show ?thesis
  proof (cases "find (\<lambda>p. tag (la_ents r (snd p)) = t) ps")
    case None
    then have no: "\<not> (\<exists>x \<in> set xs. fst (snd x) = t)" using find_tag_none xs by metis
    then have sp: "spec_add n t res replace xs = (None, xs @ [(n, t, res)])" unfolding spec_add_def by (rule if_not_P)
    have "distinct (map (fst \<circ> snd) (xs @ [(n, t, res)]))" using d no by auto
    moreover obtain r' ps' where "la_add r t res replace = Some (None, r')" "la_rep r' ps'"
      "map (show_ent r') ps' = xs @ [(n, t, res)]" "h_free (la_heap r') = n + 1"
      using la_add_new [OF rep None, of res replace] n xs by auto
    ultimately show ?thesis using sp matchesI [of r' ps' "xs @ [(n, t, res)]" "n + 1"] by simp
  next
    case (Some p)
    then have yes: "\<exists>x \<in> set xs. fst (snd x) = t" using find_tag_none xs by (metis option.distinct(1))
    note f = la_add_found [OF rep d [unfolded xs] Some, of res]
    show ?thesis
    proof (cases replace)
      case True
      define ys where "ys = map (\<lambda>(e, t', res'). (e, t', if t' = t then res else res')) xs"
      have "spec_add n t res replace xs = (None, ys)" using True yes unfolding spec_add_def ys_def by simp
      moreover obtain r' where "la_add r t res replace = Some (None, r')" "la_rep r' ps" "map (show_ent r') ps = ys"
        "h_free (la_heap r') = n"
        using f(1) True n xs ys_def by auto
      moreover have "distinct (map (fst \<circ> snd) ys)" unfolding ys_def distinct_replaced by (rule d)
      ultimately show ?thesis using matchesI [of r' ps ys n] ys_def by simp
    next
      case False
      then have "spec_add n t res replace xs = (Some ErrExists, xs)" using yes unfolding spec_add_def by simp
      then show ?thesis using f(2) False assms by simp
    qed
  qed
qed

lemma la_unset_matches:
  assumes "matches r (n, xs)"
  shows "\<exists>r'. LastActive_Unset t r = Some (fst (spec_unset t xs), r') \<and> matches r' (n, snd (spec_unset t xs))"
proof -
  obtain ps where rep: "la_rep r ps" and xs: "xs = map (show_ent r) ps" and d: "distinct (map (fst \<circ> snd) xs)"
    and n: "n = h_free (la_heap r)"
    using assms by (auto simp: matches_def stands_for_def)
  show ?thesis
  proof (cases "find (\<lambda>p. tag (la_ents r (snd p)) = t) ps")
    case None
    then have "spec_unset t xs = (Some ErrNotExists, xs)"
      using find_tag_none [of r t ps] xs unfolding spec_unset_def by simp
    moreover have "LastActive_Unset t r = Some (Some ErrNotExists, r)"
      using None find_tag_front [OF rep, of t] by (simp add: LastActive_Unset_def)
    ultimately show ?thesis using assms by simp
  next
    case (Some p)
    then have "\<exists>x \<in> set xs. fst (snd x) = t" using find_tag_none xs by (metis option.distinct(1))
    then have "spec_unset t xs = (None, filter (\<lambda>x. fst (snd x) \<noteq> t) xs)" unfolding spec_unset_def by simp
    moreover obtain r' ps' where "LastActive_Unset t r = Some (None, r')" "la_rep r' ps'"
      "map (show_ent r') ps' = filter (\<lambda>x. fst (snd x) \<noteq> t) xs" "h_free (la_heap r') = n"
      using la_unset_found [OF rep d [unfolded xs] Some] n xs by auto
    moreover have "distinct (map (fst \<circ> snd) (filter (\<lambda>x. fst (snd x) \<noteq> t) xs))" using d by (rule distinct_filtered)
    ultimately show ?thesis using matchesI [of r' ps'] by simp
  qed
qed

lemma la_move_matches:
  assumes "matches r (n, xs)"
  shows "\<exists>r'. la_move e r = Some r' \<and> matches r' (n, spec_move e xs)"
proof -
  obtain ps where rep: "la_rep r ps" and xs: "xs = map (show_ent r) ps" and d: "distinct (map (fst \<circ> snd) xs)"
    and n: "n = h_free (la_heap r)"
    using assms by (auto simp: matches_def stands_for_def)
  obtain r' ps' where "la_move e r = Some r'" "la_rep r' ps'" "map (show_ent r') ps' = spec_move e xs" "h_free (la_heap r') = n"
    using la_move_rep [OF rep, of e] n xs by auto
  then show ?thesis using matchesI [of r' ps'] distinct_moved [OF d] by simp
qed

lemma la_ask_matches:
  assumes "matches r (n, xs)"
  shows "\<exists>mv. la_ask call q r w = Some (fst (ask call q xs w), mv, snd (ask call q xs w))"
proof -
  obtain ps where "la_rep r ps" and "xs = map (show_ent r) ps"
    using assms by (auto simp: matches_def stands_for_def)
  then show ?thesis using la_scan_front [of r ps call q w] by (simp add: la_ask_def split: prod.split)
qed

lemma la_step_matches:
  assumes "matches r (n, xs)" and "seq_step call op (n, xs, w) = (out, n', xs', w')"
  shows "\<exists>r'. la_step call op (r, w) = Some (out, r', w') \<and> matches r' (n', xs')"
proof (cases op)
  case (LaAdd t res replace)
  then show ?thesis using la_add_matches [OF assms(1), of t res replace] assms(2) by (auto split: prod.splits)
next
  case (LaUnset t)
  then show ?thesis using la_unset_matches [OF assms(1), of t] assms(2) by (auto split: prod.splits)
next
  case (LaAsk q)
  then show ?thesis using la_ask_matches [OF assms(1), of call q w] assms by (auto split: prod.splits)
next
  case (LaMove e)
  then show ?thesis using la_move_matches [OF assms(1), of e] assms(2) by auto
qed

lemma la_run_matches:
  assumes "matches r (n, xs)" and "seq_run call ops (n, xs, w) = (outs, n', xs', w')"
  shows "\<exists>r'. la_run call ops (r, w) = Some (outs, r', w') \<and> matches r' (n', xs')"
  using assms
proof (induction ops arbitrary: r n xs w outs)
  case (Cons op ops)
  obtain out n1 xs1 w1 outs1 where 1: "seq_step call op (n, xs, w) = (out, n1, xs1, w1)"
    "seq_run call ops (n1, xs1, w1) = (outs1, n', xs', w')" "outs = out # outs1"
    using Cons.prems(2) by (auto split: prod.splits)
  obtain r1 where "la_step call op (r, w) = Some (out, r1, w1)" "matches r1 (n1, xs1)"
    using la_step_matches [OF Cons.prems(1) 1(1)] by blast
  moreover obtain r' where "la_run call ops (r1, w1) = Some (outs1, r', w')" "matches r' (n', xs')"
    using Cons.IH [OF \<open>matches r1 (n1, xs1)\<close> 1(2)] by blast
  ultimately show ?case using 1(3) by simp
qed simp

lemma spec_move_front:
  assumes "distinct (map fst ((e, x) # xs))"
  shows "spec_move e ((e, x) # xs) = (e, x) # xs"
proof -
  have "\<forall>y \<in> set xs. fst y \<noteq> e" using assms by force
  then have "filter (\<lambda>y. fst y = e) xs = []" "filter (\<lambda>y. fst y \<noteq> e) xs = xs"
    by (auto simp: filter_empty_conv filter_id_conv)
  then show ?thesis by (simp add: spec_move_def)
qed

lemma la_lookup_matches:
  assumes "matches r (n, xs)" and "ask call q xs w = (f, w')"
  shows "\<exists>r'. LastActive_Lookup call q r w
      = Some (case f of Found result e \<Rightarrow> Ok result | Missed \<Rightarrow> Err ErrDNSNoResponse | Crashed m \<Rightarrow> Crash m, r', w')
    \<and> stands_for r' (case f of Found result e \<Rightarrow> spec_move e xs | _ \<Rightarrow> xs)"
proof -
  have st: "stands_for r xs" using assms(1) by (simp add: matches_def)
  then obtain ps where rep: "la_rep r ps" and xs: "xs = map (show_ent r) ps" by (auto simp: stands_for_def)
  have scan: "la_scan call q r (Front (la_heap r) (la_list r)) w = Some (f, w')"
    using la_scan_front [OF rep, of call q w] assms(2) xs by simp
  show ?thesis
  proof (cases f)
    case (Found result e)
    show ?thesis
    proof (cases "Some (El e) = Front (la_heap r) (la_list r)")
      case True
      then obtain p ps' where ps: "ps = (e, p) # ps'" using ends_at(2) [OF la_rep_ok(1) [OF rep]] by (cases ps) auto
      have "distinct (map fst xs)" using la_rep_distinct [OF rep] xs by (simp add: show_ent_def comp_def)
      moreover obtain x xs' where "xs = (e, x) # xs'" using ps xs by (auto simp: show_ent_def)
      ultimately have "spec_move e xs = xs" using spec_move_front by metis
      then show ?thesis using True Found scan st by (simp add: LastActive_Lookup_def la_ask_def)
    next
      case False
      obtain r' where "la_move e r = Some r'" "matches r' (n, spec_move e xs)" using la_move_matches [OF assms(1)] by blast
      then show ?thesis using False Found scan by (simp add: LastActive_Lookup_def la_ask_def matches_def)
    qed
  qed (use scan st in \<open>simp_all add: LastActive_Lookup_def la_ask_def\<close>)
qed

lemma New_matches: "matches (NewLastActive e0) (1, [])"
proof -
  have "store_inv Map.empty (empty_heap (0::nat))" by (simp add: store_inv_def empty_heap_def)
  then obtain h where h: "snd (New (empty_heap (0::nat))) = h" "store_inv [0 \<mapsto> []] h" "h_free h = 1"
    using New_reaches [of Map.empty "empty_heap (0::nat)"] by (auto simp: reaches_def empty_heap_def)
  have "New (empty_heap (0::nat)) = (0, h)" using h(1) by (simp add: New_def empty_heap_def Let_def)
  then show ?thesis using h by (intro matchesI [where ps = "[]"]) (auto simp: la_rep_def NewLastActive_def)
qed

text \<open>C29: the resolver implements a sequence of tagged resolvers: every sequence of calls returns, also when other
  calls, \<open>Unset\<close> of the very server that answered among them, come between the two critical sections of a
  lookup; its answers and its contents are those of the sequence.  A lookup asks in the order of the
  sequence, returns the first successful answer, and moves the server that gave it to the front.\<close>

theorem lastactive_runs_refine:
  assumes "seq_run call ops (1, [], w) = (outs, n, xs, w')" and "ask call q xs w' = (f, w'')"
  shows "\<exists>r. la_run call ops (NewLastActive e0, w) = Some (outs, r, w') \<and> stands_for r xs
    \<and> (\<exists>r'. LastActive_Lookup call q r w'
            = Some (case f of Found result e \<Rightarrow> Ok result | Missed \<Rightarrow> Err ErrDNSNoResponse | Crashed m \<Rightarrow> Crash m, r', w'')
          \<and> stands_for r' (case f of Found result e \<Rightarrow> spec_move e xs | _ \<Rightarrow> xs))"
proof -
  obtain r where "la_run call ops (NewLastActive e0, w) = Some (outs, r, w')" and m: "matches r (n, xs)"
    using la_run_matches [OF New_matches assms(1)] by blast
  then show ?thesis using la_lookup_matches [OF m assms(2)] by (auto simp: matches_def)
qed

text \<open>Three servers of which the second answers: it is asked after the first, moves to the front although the
  first was removed in the meantime, and is asked first from then on.\<close>

definition demo_answer :: Response where
  "demo_answer = \<lparr>Exists = True, Addresses = [[10, 0, 0, 1]], Expires = 0, ProtectionRequired = False\<rparr>"

definition demo_call :: "(nat, nat list) dispatch" where
  "demo_call x q w = (if x = 2 then Ok (Some demo_answer) else Err ErrDNSEmptyResponse, w @ [x])"

definition demo_req :: Request where
  "demo_req = \<lparr>Domain = ''a'', QueryType = QueryIp4, NoLazy = False\<rparr>"

definition demo_ops :: "nat la_op list" where
  "demo_ops = [LaAdd ''a'' 1 True, LaAdd ''b'' 2 True, LaAdd ''c'' 3 True, LaAsk demo_req, LaUnset ''a'', LaMove 2]"

theorem lastactive_runs_refine_witness:
  "\<exists>r r'. la_run demo_call demo_ops (NewLastActive \<lparr>tag = ''x'', la_resolver = 0\<rparr>, [])
        = Some ([Inl None, Inl None, Inl None, Inr (Found (Some demo_answer) 2), Inl None, Inl None], r, [1, 2])
     \<and> stands_for r [(2, ''b'', 2), (3, ''c'', 3)]
     \<and> LastActive_Lookup demo_call demo_req r [1, 2] = Some (Ok (Some demo_answer), r', [1, 2, 2])
     \<and> stands_for r' [(2, ''b'', 2), (3, ''c'', 3)]"
proof -
  have run: "seq_run demo_call demo_ops (1, [], []) = ([Inl None, Inl None, Inl None, Inr (Found (Some demo_answer) 2), Inl None, Inl None],
      4, [(2, ''b'', 2), (3, ''c'', 3)], [1, 2])"
    by (simp add: demo_ops_def spec_add_def spec_unset_def spec_move_def demo_call_def Successful_def demo_answer_def)
  have ask: "ask demo_call demo_req [(2, ''b'', 2), (3, ''c'', 3)] [1, 2] = (Found (Some demo_answer) 2, [1, 2, 2])"
    by (simp add: demo_call_def Successful_def demo_answer_def)
  have "spec_move 2 [(2::nat, ''b'', 2::nat), (3, ''c'', 3)] = [(2, ''b'', 2), (3, ''c'', 3)]" by (simp add: spec_move_def)
  then show ?thesis using lastactive_runs_refine [OF run ask] by auto
qed

end
