(* ===== verification/Expiring_Map.thy ===== *)
theory Expiring_Map
  imports Xttlmap
begin

text \<open>
  What the clients of the LRU map rely on, as an interface: a lookup finds the entry stored last unless it has
  expired or was dropped, and no operation invents entries.  The map of \<open>Xttlmap\<close> is an instance.
\<close>

section \<open>The interface\<close>

text \<open>An operation may drop entries, but adds none.\<close>

definition drops :: "('k \<Rightarrow> 'e option) \<Rightarrow> ('k \<Rightarrow> 'e option) \<Rightarrow> bool" where
  "drops c c' \<longleftrightarrow> (\<forall>k. c' k = None \<or> c' k = c k)"

locale expiring_map =
  fixes valid :: "'m \<Rightarrow> bool"
    and content :: "'m \<Rightarrow> 'k \<Rightarrow> ('v \<times> int) option"
    and get :: "'m \<Rightarrow> 'k \<Rightarrow> int \<Rightarrow> 'v option \<times> 'm"
    and put :: "'m \<Rightarrow> 'k \<Rightarrow> 'v \<Rightarrow> int \<Rightarrow> int \<Rightarrow> 'm option"
    and del :: "'m \<Rightarrow> 'k \<Rightarrow> int \<Rightarrow> 'm"
  assumes get_value: "valid m \<Longrightarrow> fst (get m k now)
      = (case content m k of Some (v, d) \<Rightarrow> if expired d now then None else Some v | None \<Rightarrow> None)"
    and get_valid: "valid m \<Longrightarrow> valid (snd (get m k now))"
    and get_drops: "valid m \<Longrightarrow> drops (content m) (content (snd (get m k now)))"
    and put_stores: "valid m \<Longrightarrow> \<exists>m'. put m k v d now = Some m' \<and> valid m' \<and> content m' k = Some (v, d)
      \<and> drops ((content m)(k \<mapsto> (v, d))) (content m')"
    and del_valid: "valid m \<Longrightarrow> valid (del m k now)"
    and del_drops: "valid m \<Longrightarrow> content (del m k now) = (content m)(k := None)"
begin

text \<open>Every entry is what was stored last under its key, as \<open>H\<close> records it.\<close>

definition recorded :: "('k \<Rightarrow> ('v \<times> int) option) \<Rightarrow> 'm \<Rightarrow> bool" where
  "recorded H m \<longleftrightarrow> valid m \<and> drops H (content m)"

lemma drops_trans: "drops a b \<Longrightarrow> drops b c \<Longrightarrow> drops a c"
  unfolding drops_def by metis

lemma recorded_get:
  assumes "recorded H m"
  shows "recorded H (snd (get m k now))"
    and "fst (get m k now) = Some v \<Longrightarrow> \<exists>d. H k = Some (v, d) \<and> \<not> expired d now"
proof -
  have v: "valid m" and d: "drops H (content m)" using assms by (simp_all add: recorded_def)
  show "recorded H (snd (get m k now))"
    using get_valid [OF v, of k now] drops_trans [OF d get_drops [OF v, of k now]] by (simp add: recorded_def)
  show "\<exists>d. H k = Some (v, d) \<and> \<not> expired d now" if found: "fst (get m k now) = Some v"
  proof -
    obtain d' where "content m k = Some (v, d')" "\<not> expired d' now"
      using found get_value [OF v, of k now] by (cases "content m k") (auto split: if_splits)
    then show ?thesis using d unfolding drops_def by (metis option.distinct(1))
  qed
qed

lemma recorded_put:
  assumes "recorded H m"
  obtains m' where "put m k v d now = Some m'" and "recorded (H(k \<mapsto> (v, d))) m'" and "content m' k = Some (v, d)"
proof -
  have v: "valid m" and d: "drops H (content m)" using assms by (simp_all add: recorded_def)
  obtain m' where m': "put m k v d now = Some m'" "valid m'" "content m' k = Some (v, d)"
    "drops ((content m)(k \<mapsto> (v, d))) (content m')"
    using put_stores [OF v] by blast
  have "drops (H(k \<mapsto> (v, d))) ((content m)(k \<mapsto> (v, d)))" using d by (simp add: drops_def)
  then have "drops (H(k \<mapsto> (v, d))) (content m')" using m'(4) by (rule drops_trans)
  then show thesis using that m' by (simp add: recorded_def)
qed

lemma recorded_del: "recorded H m \<Longrightarrow> recorded (H(k := None)) (del m k now)"
  using del_valid del_drops by (auto simp: recorded_def drops_def)

lemma get_after_put:
  assumes "valid m" and "put m k v d now = Some m'" and "\<not> expired d now'"
  shows "fst (get m' k now') = Some v"
  using put_stores [OF assms(1), of k v d now] assms(2,3) get_value [of m' k now'] by auto

end

section \<open>The LRU map\<close>

definition ttl_valid :: "('k, 'v) ttl_map \<Rightarrow> bool" where
  "ttl_valid s \<longleftrightarrow> (\<exists>l. represents s l)"

definition ttl_content :: "('k, 'v) ttl_map \<Rightarrow> 'k \<Rightarrow> ('v \<times> int) option" where
  "ttl_content s k = map_option (\<lambda>a. (n_value s a, n_deadline s a)) (map_of (items s) k)"

lemma represents_content:
  assumes "represents s (limit, es)"
  shows "ttl_content s = map_of es"
proof -
  obtain xs where "ttl_inv s xs" "es = entries s xs" using assms by (auto simp: represents_def refines_def)
  then show ?thesis using map_of_entries [of s xs] by (auto simp: ttl_content_def fun_eq_iff)
qed

lemma map_of_without: "map_of (lru_without k es) = (map_of es)(k := None)"
  by (induction es) (auto simp: lru_without_def fun_eq_iff)

lemma drops_take:
  assumes "distinct (map fst es)"
  shows "drops (map_of es) (map_of (take n es))"
  unfolding drops_def
proof
  fix k
  show "map_of (take n es) k = None \<or> map_of (take n es) k = map_of es k"
  proof (cases "map_of (take n es) k")
    case (Some v)
    then have "(k, v) \<in> set es" using map_of_SomeD in_set_takeD by metis
    then show ?thesis using Some assms by simp
  qed simp
qed

lemma ttl_put:
  assumes "represents s (limit, es)"
  obtains s' where "ttl_Set s k v d now = Some s'" and "represents s' (limit, lru_set limit k v d es)"
  using ttl_step_represents [OF assms, of "TSet k v d" now] by (auto simp: Option.bind_eq_Some_conv)

lemma ttl_get:
  assumes "represents s (limit, es)"
  obtains s' where "ttl_Get s k now = (fst (lru_get k now es), s')" and "represents s' (limit, snd (lru_get k now es))"
  using ttl_step_represents [OF assms, of "TGet k" now] by (auto simp: split_beta)

lemma ttl_del:
  assumes "represents s (limit, es)"
  shows "represents (ttl_Delete s k now) (limit, lru_without k es)"
  using ttl_step_represents [OF assms, of "TDelete k" now] by auto

lemma ttl_valid_cases:
  assumes "ttl_valid s"
  obtains limit es where "represents s (limit, es)" and "ttl_content s = map_of es" and "distinct (map fst es)"
proof -
  obtain limit es where r: "represents s (limit, es)" using assms by (auto simp: ttl_valid_def)
  then have "distinct (map fst es)" using refines_distinct by (auto simp: represents_def)
  then show thesis using that r represents_content [OF r] by blast
qed

lemma ttl_put_stores:
  assumes "ttl_valid s"
  shows "\<exists>s'. ttl_Set s k v d now = Some s' \<and> ttl_valid s' \<and> ttl_content s' k = Some (v, d)
    \<and> drops ((ttl_content s)(k \<mapsto> (v, d))) (ttl_content s')"
proof -
  obtain limit es where r: "represents s (limit, es)" and c: "ttl_content s = map_of es" and dist: "distinct (map fst es)"
    using ttl_valid_cases [OF assms] .
  obtain s' where s': "ttl_Set s k v d now = Some s'" "represents s' (limit, lru_set limit k v d es)"
    using ttl_put [OF r] .
  have "ttl_content s' = map_of (lru_set limit k v d es)" by (rule represents_content [OF s'(2)])
  moreover have "map_of (lru_set limit k v d es) k = Some (v, d)
      \<and> drops ((map_of es)(k \<mapsto> (v, d))) (map_of (lru_set limit k v d es))"
    using drops_take [OF dist, of "nat (limit - 1)"] by (auto simp: lru_set_def drops_def map_of_without)
  ultimately show ?thesis using s' c by (auto simp: ttl_valid_def)
qed

lemma ttl_get_laws:
  assumes "ttl_valid s"
  shows "fst (ttl_Get s k now) = (case ttl_content s k of Some (v, d) \<Rightarrow> if expired d now then None else Some v | None \<Rightarrow> None)"
    and "ttl_valid (snd (ttl_Get s k now))" and "drops (ttl_content s) (ttl_content (snd (ttl_Get s k now)))"
proof -
  obtain limit es where r: "represents s (limit, es)" and c: "ttl_content s = map_of es"
    using ttl_valid_cases [OF assms] .
  obtain s' where s': "ttl_Get s k now = (fst (lru_get k now es), s')" "represents s' (limit, snd (lru_get k now es))"
    using ttl_get [OF r] .
  have c': "ttl_content s' = map_of (snd (lru_get k now es))" by (rule represents_content [OF s'(2)])
  show "fst (ttl_Get s k now) = (case ttl_content s k of Some (v, d) \<Rightarrow> if expired d now then None else Some v | None \<Rightarrow> None)"
    using s' c by (auto simp: lru_get_def split: option.split)
  show "ttl_valid (snd (ttl_Get s k now))" using s' by (auto simp: ttl_valid_def)
  show "drops (ttl_content s) (ttl_content (snd (ttl_Get s k now)))"
    using s'(1) c c' by (auto simp: drops_def lru_get_def map_of_without split: option.split)
qed

lemma ttl_del_laws:
  assumes "ttl_valid s"
  shows "ttl_valid (ttl_Delete s k now)" and "ttl_content (ttl_Delete s k now) = (ttl_content s)(k := None)"
proof -
  obtain limit es where r: "represents s (limit, es)" and c: "ttl_content s = map_of es"
    using ttl_valid_cases [OF assms] .
  show "ttl_valid (ttl_Delete s k now)" using ttl_del [OF r] by (auto simp: ttl_valid_def)
  show "ttl_content (ttl_Delete s k now) = (ttl_content s)(k := None)"
    using represents_content [OF ttl_del [OF r]] c by (simp add: map_of_without)
qed

interpretation ttl: expiring_map ttl_valid ttl_content ttl_Get ttl_Set ttl_Delete
  by unfold_locales (simp_all add: ttl_get_laws ttl_put_stores ttl_del_laws)

lemma ttl_New_valid: "0 < limit \<Longrightarrow> ttl_valid (ttl_New k0 v0 limit now)" "ttl_content (ttl_New k0 v0 limit now) = Map.empty"
  using ttl_New_represents [of limit k0 v0 now] by (auto simp: ttl_valid_def ttl_content_def ttl_New_def)

lemma ttl_Resize_drops:
  assumes "ttl_valid s" and "0 < n"
  shows "\<exists>s'. ttl_Resize s n = Some s' \<and> ttl_valid s' \<and> drops (ttl_content s) (ttl_content s')"
proof -
  obtain limit es where r: "represents s (limit, es)" and c: "ttl_content s = map_of es" and dist: "distinct (map fst es)"
    using ttl_valid_cases [OF assms(1)] .
  obtain s' where "ttl_Resize s n = Some s'" "represents s' (n, take (nat n) es)"
    using ttl_step_represents [OF r, of "TResize n" 0] assms(2) by (auto simp: Option.bind_eq_Some_conv)
  then show ?thesis using represents_content [of s' n] drops_take [OF dist] c by (auto simp: ttl_valid_def)
qed

end
