(* ===== verification/Xdns_Cached.thy ===== *)
theory Xdns_Cached
  imports Xdns_Resolver Expiring_Map "HOL-Library.Monad_Syntax"
begin

text \<open>
  The resolver that remembers answers (\<open>src/xdns/client/cached.go\<close>), on the LRU map of \<open>Xttlmap\<close>: its
  operations, and the specification they implement: what was learned last for each domain and query type, and
  which of it a lookup may answer with.  An insertion into a map whose size is not positive does not end:
  this is \<open>None\<close>.
\<close>

section \<open>Operations\<close>

record cacheKey =
  domain :: string
  queryType :: uint16

record 'r CachedResolver =
  dns_cache :: "(cacheKey, Response) ttl_map"
  nestedResolver :: 'r
  minTtl :: int
  maxTtl :: int
  keepTime :: int

definition zeroKey :: cacheKey where "zeroKey = \<lparr>domain = [], queryType = 0\<rparr>"

definition NewCachedResolver :: "'r \<Rightarrow> 'w options \<Rightarrow> int \<Rightarrow> 'r CachedResolver" where
  "NewCachedResolver nested opts now =
     \<lparr>dns_cache = ttl_New zeroKey zeroResponse (cacheMaxSize opts) now, nestedResolver = nested,
      minTtl = cacheMinTtl opts, maxTtl = cacheMaxTtl opts, keepTime = cacheKeepTime opts\<rparr>"

definition WithMaxSize :: "int \<Rightarrow> 'r CachedResolver \<Rightarrow> 'r CachedResolver option" where
  "WithMaxSize v r = map_option (\<lambda>c. r\<lparr>dns_cache := c\<rparr>) (ttl_Resize (dns_cache r) v)"

definition WithMinTtl :: "int \<Rightarrow> 'r CachedResolver \<Rightarrow> 'r CachedResolver" where
  "WithMinTtl v r = r\<lparr>minTtl := v\<rparr>"

definition WithMaxTtl :: "int \<Rightarrow> 'r CachedResolver \<Rightarrow> 'r CachedResolver" where
  "WithMaxTtl v r = r\<lparr>maxTtl := v\<rparr>"

definition WithKeepTime :: "int \<Rightarrow> 'r CachedResolver \<Rightarrow> 'r CachedResolver" where
  "WithKeepTime v r = r\<lparr>keepTime := v\<rparr>"

definition cacheResult :: "int \<Rightarrow> cacheKey \<Rightarrow> Response \<Rightarrow> 'r CachedResolver \<Rightarrow> 'r CachedResolver option" where
  "cacheResult now key result r =
     (let result = Clone result in
      if Expires result = 0
      then map_option (\<lambda>c. r\<lparr>dns_cache := c\<rparr>) (ttl_Set (dns_cache r) key result 0 now)
      else
        (let ttl = time_sub (Expires result) now;
             result = (if ttl < minTtl r then result\<lparr>Expires := now + minTtl r\<rparr> else result);
             result = (if ttl > maxTtl r then result\<lparr>Expires := now + maxTtl r\<rparr> else result) in
         map_option (\<lambda>c. r\<lparr>dns_cache := c\<rparr>) (ttl_Set (dns_cache r) key result (now + keepTime r) now)))"

definition Cached_Lookup :: "('w \<Rightarrow> int) \<Rightarrow> ('r, 'w) dispatch \<Rightarrow> Request \<Rightarrow> 'r CachedResolver \<Rightarrow> 'w
    \<Rightarrow> ((dns_err, Response option) outcome \<times> 'r CachedResolver \<times> 'w) option" where
  "Cached_Lookup now call q r w =
     (let key = \<lparr>domain = Domain q, queryType = QueryType q\<rparr>;
          (got, c) = ttl_Get (dns_cache r) key (now w);
          r = r\<lparr>dns_cache := c\<rparr>;
          found = (got \<noteq> None);
          cachedResult = (case got of Some v \<Rightarrow> v | None \<Rightarrow> zeroResponse) in
      if found \<and> \<not> Expired (now w) cachedResult then Some (Ok (Some cachedResult), r, w)
      else
        (case call (nestedResolver r) q w of
           (Err err, w) \<Rightarrow> Some (Ok (Some cachedResult), r, w)
         | (Crash m, w) \<Rightarrow> Some (Crash m, r, w)
         | (Ok None, w) \<Rightarrow> Some (Crash ''nil pointer dereference'', r, w)
         | (Ok (Some lookupResult), w) \<Rightarrow>
             map_option (\<lambda>r. (Ok (Some lookupResult), r, w)) (cacheResult (now w) key lookupResult r)))"

definition Cached_Preset :: "int \<Rightarrow> string \<Rightarrow> uint16 \<Rightarrow> Response option \<Rightarrow> 'r CachedResolver \<Rightarrow> 'r CachedResolver option" where
  "Cached_Preset now d qt response r =
     (case response of
        None \<Rightarrow> Some (r\<lparr>dns_cache := ttl_Delete (dns_cache r) \<lparr>domain = d, queryType = qt\<rparr> now\<rparr>)
      | Some response \<Rightarrow> cacheResult now \<lparr>domain = d, queryType = qt\<rparr> response r)"

section \<open>What the cache promises\<close>

text \<open>A response learned at time \<open>t\<close> is kept with its validity bounded by the two limits, and for \<open>keepTime\<close>.\<close>

definition bounded :: "int \<Rightarrow> int \<Rightarrow> int \<Rightarrow> Response \<Rightarrow> Response" where
  "bounded lo hi t R =
     (if Expires R = 0 then R
      else R\<lparr>Expires := (if hi < time_sub (Expires R) t then t + hi
                       else if time_sub (Expires R) t < lo then t + lo else Expires R)\<rparr>)"

definition kept_until :: "int \<Rightarrow> int \<Rightarrow> Response \<Rightarrow> int" where
  "kept_until keep t R = (if Expires R = 0 then 0 else t + keep)"

lemma bounded_limits:
  assumes "lo \<le> hi" and "is_int64 lo" and "is_int64 hi" and "lo \<noteq> min_duration" and "hi \<noteq> max_duration"
    and "Expires R \<noteq> 0"
  shows "t + lo \<le> Expires (bounded lo hi t R) \<and> Expires (bounded lo hi t R) \<le> t + hi"
  using assms by (auto simp: bounded_def time_sub_def is_int64_def max_duration_def min_duration_def)

text \<open>
  The specification: \<open>H\<close> holds what was learned last for each key, and when.  A lookup answers with what it
  holds while this is valid, with a new answer of the nested resolver, which it learns, or, when the nested
  resolver fails, with what it still keeps, valid or not, or with the empty response.
\<close>

type_synonym learned = "cacheKey \<Rightarrow> (Response \<times> int) option"

datatype cached_op = CLookup Request | CPreset string uint16 "Response option"

record ttl_limits =
  lim_min :: int
  lim_max :: int
  lim_keep :: int

definition limits_of :: "'r CachedResolver \<Rightarrow> ttl_limits" where
  "limits_of r = \<lparr>lim_min = minTtl r, lim_max = maxTtl r, lim_keep = keepTime r\<rparr>"

definition key_of :: "Request \<Rightarrow> cacheKey" where
  "key_of q = \<lparr>domain = Domain q, queryType = QueryType q\<rparr>"

definition holds :: "ttl_limits \<Rightarrow> learned \<Rightarrow> cacheKey \<Rightarrow> int \<Rightarrow> Response \<Rightarrow> bool" where
  "holds L H k now c \<longleftrightarrow>
     (\<exists>R t. H k = Some (R, t) \<and> c = bounded (lim_min L) (lim_max L) t R \<and> \<not> expired (kept_until (lim_keep L) t R) now)"

inductive cache_spec :: "('w \<Rightarrow> int) \<Rightarrow> (Request \<Rightarrow> 'w \<Rightarrow> (dns_err, Response option) outcome \<times> 'w) \<Rightarrow> ttl_limits
    \<Rightarrow> learned \<Rightarrow> cached_op \<times> 'w \<Rightarrow> (dns_err, Response option) outcome option \<Rightarrow> learned \<Rightarrow> bool"
  for now nested L where
  hit: "holds L H (key_of q) (now w) c \<Longrightarrow> \<not> Expired (now w) c
    \<Longrightarrow> cache_spec now nested L H (CLookup q, w) (Some (Ok (Some c))) H"
| fresh: "nested q w = (Ok (Some R), w')
    \<Longrightarrow> cache_spec now nested L H (CLookup q, w) (Some (Ok (Some R))) (H(key_of q \<mapsto> (R, now w')))"
| stale: "nested q w = (Err e, w') \<Longrightarrow> holds L H (key_of q) (now w) c
    \<Longrightarrow> cache_spec now nested L H (CLookup q, w) (Some (Ok (Some c))) H"
| none: "nested q w = (Err e, w') \<Longrightarrow> cache_spec now nested L H (CLookup q, w) (Some (Ok (Some zeroResponse))) H"
| crash: "nested q w = (Crash m, w') \<Longrightarrow> cache_spec now nested L H (CLookup q, w) (Some (Crash m)) H"
| nil: "nested q w = (Ok None, w')
    \<Longrightarrow> cache_spec now nested L H (CLookup q, w) (Some (Crash ''nil pointer dereference'')) H"
| preset: "cache_spec now nested L H (CPreset d qt (Some R), w) None (H(\<lparr>domain = d, queryType = qt\<rparr> \<mapsto> (R, now w)))"
| forget: "cache_spec now nested L H (CPreset d qt None, w) None (H(\<lparr>domain = d, queryType = qt\<rparr> := None))"

inductive_cases lookup_specE: "cache_spec now nested L H (CLookup q, w) out H'"

text \<open>The state of a resolver is related to what was learned by the entries of its map.\<close>

definition entry_of :: "ttl_limits \<Rightarrow> Response \<times> int \<Rightarrow> Response \<times> int" where
  "entry_of L e = (bounded (lim_min L) (lim_max L) (snd e) (fst e), kept_until (lim_keep L) (snd e) (fst e))"

definition caches :: "learned \<Rightarrow> 'r CachedResolver \<Rightarrow> bool" where
  "caches H r \<longleftrightarrow> ttl.recorded (\<lambda>k. map_option (entry_of (limits_of r)) (H k)) (dns_cache r)"

lemma cacheResult_learns:
  assumes "caches H r"
  obtains c where "cacheResult now key R r = Some (r\<lparr>dns_cache := c\<rparr>)" and "caches (H(key \<mapsto> (R, now))) (r\<lparr>dns_cache := c\<rparr>)"
    and "ttl_content c key = Some (entry_of (limits_of r) (R, now))"
proof -
  let ?e = "entry_of (limits_of r) (R, now)"
  obtain c where c: "ttl_Set (dns_cache r) key (fst ?e) (snd ?e) now = Some c"
    "ttl.recorded ((\<lambda>k. map_option (entry_of (limits_of r)) (H k))(key \<mapsto> ?e)) c" "ttl_content c key = Some ?e"
    using ttl.recorded_put [OF assms [unfolded caches_def], of key "fst ?e" "snd ?e" now] by auto
  have "cacheResult now key R r = map_option (\<lambda>c. r\<lparr>dns_cache := c\<rparr>) (ttl_Set (dns_cache r) key (fst ?e) (snd ?e) now)"
    by (auto simp: cacheResult_def entry_of_def bounded_def kept_until_def limits_of_def Let_def)
  moreover have "(\<lambda>k. map_option (entry_of (limits_of r)) (H k))(key \<mapsto> ?e)
      = (\<lambda>k. map_option (entry_of (limits_of r)) ((H(key \<mapsto> (R, now))) k))" by auto
  moreover have "limits_of (r\<lparr>dns_cache := c\<rparr>) = limits_of r" by (simp add: limits_of_def)
  ultimately show thesis using that c by (simp add: caches_def)
qed
lemma caches_get:
  assumes "caches H r"
  shows "caches H (r\<lparr>dns_cache := snd (ttl_Get (dns_cache r) k now)\<rparr>)"
    and "fst (ttl_Get (dns_cache r) k now) = Some c \<Longrightarrow> holds (limits_of r) H k now c"
proof -
  have rec: "ttl.recorded (\<lambda>k. map_option (entry_of (limits_of r)) (H k)) (dns_cache r)"
    using assms by (simp add: caches_def)
  show "caches H (r\<lparr>dns_cache := snd (ttl_Get (dns_cache r) k now)\<rparr>)"
    using ttl.recorded_get(1) [OF rec, of k now] by (simp add: caches_def limits_of_def)
  show "holds (limits_of r) H k now c" if "fst (ttl_Get (dns_cache r) k now) = Some c"
    using ttl.recorded_get(2) [OF rec that] by (auto simp: holds_def entry_of_def)
qed

text \<open>Every operation returns, and does what the specification allows.\<close>

definition cached_step :: "('w \<Rightarrow> int) \<Rightarrow> ('r, 'w) dispatch \<Rightarrow> cached_op \<times> 'w \<Rightarrow> 'r CachedResolver
    \<Rightarrow> ((dns_err, Response option) outcome option \<times> 'r CachedResolver) option" where
  "cached_step now call opw r =
     (case opw of
        (CLookup q, w) \<Rightarrow> map_option (\<lambda>(res, r, w). (Some res, r)) (Cached_Lookup now call q r w)
      | (CPreset d qt response, w) \<Rightarrow> map_option (\<lambda>r. (None, r)) (Cached_Preset (now w) d qt response r))"

fun cached_run :: "('w \<Rightarrow> int) \<Rightarrow> ('r, 'w) dispatch \<Rightarrow> 'r CachedResolver \<Rightarrow> (cached_op \<times> 'w) list
    \<Rightarrow> ((dns_err, Response option) outcome option list \<times> 'r CachedResolver) option" where
  "cached_run now call r [] = Some ([], r)"
| "cached_run now call r (opw # ops) = do {
     (out, r) \<leftarrow> cached_step now call opw r;
     (outs, r) \<leftarrow> cached_run now call r ops;
     Some (out # outs, r)
   }"

inductive cache_specs :: "('w \<Rightarrow> int) \<Rightarrow> (Request \<Rightarrow> 'w \<Rightarrow> (dns_err, Response option) outcome \<times> 'w) \<Rightarrow> ttl_limits
    \<Rightarrow> learned \<Rightarrow> (cached_op \<times> 'w) list \<Rightarrow> (dns_err, Response option) outcome option list \<Rightarrow> bool"
  for now nested L where
  no_ops: "cache_specs now nested L H [] []"
| more_ops: "cache_spec now nested L H opw out H' \<Longrightarrow> cache_specs now nested L H' ops outs
    \<Longrightarrow> cache_specs now nested L H (opw # ops) (out # outs)"

definition same_config :: "'r CachedResolver \<Rightarrow> 'r CachedResolver \<Rightarrow> bool" where
  "same_config r r' \<longleftrightarrow> limits_of r' = limits_of r \<and> nestedResolver r' = nestedResolver r"

lemma same_config_cache [simp]: "same_config r (r\<lparr>dns_cache := c\<rparr>)"
  by (simp add: same_config_def limits_of_def)

lemma lookup_allowed:
  assumes "caches H r"
  shows "\<exists>res r' w' H'. Cached_Lookup now call q r w = Some (res, r', w') \<and> caches H' r' \<and> same_config r r'
    \<and> cache_spec now (call (nestedResolver r)) (limits_of r) H (CLookup q, w) (Some res) H'"
proof -
  define r1 where "r1 = r\<lparr>dns_cache := snd (ttl_Get (dns_cache r) (key_of q) (now w))\<rparr>"
  define got where "got = fst (ttl_Get (dns_cache r) (key_of q) (now w))"
  have r1: "caches H r1" "same_config r r1" using caches_get(1) [OF assms] by (simp_all add: r1_def)
  have held: "holds (limits_of r) H (key_of q) (now w) c" if "got = Some c" for c
    using caches_get(2) [OF assms] that by (simp add: got_def)
  have run: "Cached_Lookup now call q r w =
     (if got \<noteq> None \<and> \<not> Expired (now w) (case got of Some v \<Rightarrow> v | None \<Rightarrow> zeroResponse)
      then Some (Ok (Some (case got of Some v \<Rightarrow> v | None \<Rightarrow> zeroResponse)), r1, w)
      else
        (case call (nestedResolver r) q w of
           (Err err, w) \<Rightarrow> Some (Ok (Some (case got of Some v \<Rightarrow> v | None \<Rightarrow> zeroResponse)), r1, w)
         | (Crash m, w) \<Rightarrow> Some (Crash m, r1, w)
         | (Ok None, w) \<Rightarrow> Some (Crash ''nil pointer dereference'', r1, w)
         | (Ok (Some lookupResult), w) \<Rightarrow>
             map_option (\<lambda>r. (Ok (Some lookupResult), r, w)) (cacheResult (now w) (key_of q) lookupResult r1)))"
    unfolding Cached_Lookup_def Let_def r1_def got_def key_of_def by (simp add: split_beta)
  show ?thesis
  proof (cases "got \<noteq> None \<and> \<not> Expired (now w) (case got of Some v \<Rightarrow> v | None \<Rightarrow> zeroResponse)")
    case True
    then obtain c where c: "got = Some c" "\<not> Expired (now w) c" by auto
    from c have "Cached_Lookup now call q r w = Some (Ok (Some c), r1, w)" using run by simp
    with r1 cache_spec.hit [of _ _ _ now, OF held [OF c(1)] c(2)] show ?thesis by blast
  next
    case miss: False
    obtain res w' where call: "call (nestedResolver r) q w = (res, w')" by (cases "call (nestedResolver r) q w")
    consider R where "res = Ok (Some R)" | "res = Ok None" | e where "res = Err e" | m where "res = Crash m"
      by (cases res) (auto split: option.split)
    then show ?thesis
    proof cases
      case (1 R)
      obtain c where "cacheResult (now w') (key_of q) R r1 = Some (r1\<lparr>dns_cache := c\<rparr>)"
        "caches (H(key_of q \<mapsto> (R, now w'))) (r1\<lparr>dns_cache := c\<rparr>)"
        using cacheResult_learns [OF r1(1)] .
      moreover have "same_config r (r1\<lparr>dns_cache := c\<rparr>)" by (simp add: r1_def)
      ultimately show ?thesis using run miss call 1 cache_spec.fresh [of "call (nestedResolver r)" q w R w'] by auto
    next
      case 2
      then show ?thesis using run miss call r1 cache_spec.nil [of "call (nestedResolver r)"] by auto
    next
      case (3 e)
      show ?thesis
      proof (cases got)
        case None
        then show ?thesis using run call 3 r1 cache_spec.none [of "call (nestedResolver r)" q w e w'] by auto
      next
        case (Some c)
        then show ?thesis
          using run miss call 3 r1 held [of c] cache_spec.stale [of "call (nestedResolver r)" q w e w'] by auto
      qed
    next
      case (4 m)
      then show ?thesis using run miss call r1 cache_spec.crash [of "call (nestedResolver r)"] by auto
    qed
  qed
qed

lemma preset_allowed:
  assumes "caches H r"
  shows "\<exists>r' H'. Cached_Preset (now w) d qt response r = Some r' \<and> caches H' r' \<and> same_config r r'
    \<and> cache_spec now nested (limits_of r) H (CPreset d qt response, w) None H'"
proof (cases response)
  case None
  let ?k = "\<lparr>domain = d, queryType = qt\<rparr>"
  have "caches (H(?k := None)) (r\<lparr>dns_cache := ttl_Delete (dns_cache r) ?k (now w)\<rparr>)"
    using ttl.recorded_del [OF assms [unfolded caches_def], of ?k "now w"]
    by (auto simp: caches_def limits_of_def fun_upd_def if_distrib cong: if_cong)
  then show ?thesis
    using None same_config_cache cache_spec.forget [of now nested "limits_of r" H d qt w]
    unfolding Cached_Preset_def by fastforce
next
  case (Some R)
  then show ?thesis
    using cacheResult_learns [OF assms, of "now w" "\<lparr>domain = d, queryType = qt\<rparr>" R] cache_spec.preset [of now nested]
    by (auto simp: Cached_Preset_def) (metis same_config_cache)
qed

lemma cached_step_allowed:
  assumes "caches H r"
  obtains out r' H' where "cached_step now call opw r = Some (out, r')" and "caches H' r'" and "same_config r r'"
    and "cache_spec now (call (nestedResolver r)) (limits_of r) H opw out H'"
proof (cases opw)
  case (Pair op w)
  show thesis
  proof (cases op)
    case (CLookup q)
    then show thesis using lookup_allowed [OF assms, of now call q w] that Pair by (fastforce simp: cached_step_def)
  next
    case (CPreset d qt response)
    then show thesis
      using preset_allowed [OF assms, of now w d qt response "call (nestedResolver r)"] that Pair
      by (fastforce simp: cached_step_def)
  qed
qed

lemma cached_run_allowed:
  assumes "caches H r"
  shows "\<exists>outs r'. cached_run now call r ops = Some (outs, r')
    \<and> cache_specs now (call (nestedResolver r)) (limits_of r) H ops outs"
  using assms
proof (induction ops arbitrary: H r)
  case (Cons opw ops)
  obtain out r' H' where step: "cached_step now call opw r = Some (out, r')" "caches H' r'" "same_config r r'"
    "cache_spec now (call (nestedResolver r)) (limits_of r) H opw out H'"
    using cached_step_allowed [OF Cons.prems] .
  obtain outs r'' where "cached_run now call r' ops = Some (outs, r'')"
    "cache_specs now (call (nestedResolver r')) (limits_of r') H' ops outs"
    using Cons.IH [OF step(2)] by blast
  then show ?case using step by (auto simp: same_config_def intro: cache_specs.more_ops)
qed (auto intro: cache_specs.no_ops)

lemma caches_New: "0 < cacheMaxSize opts \<Longrightarrow> caches Map.empty (NewCachedResolver nested opts t0)"
  by (simp add: caches_def NewCachedResolver_def ttl.recorded_def drops_def ttl_New_valid)

section \<open>Properties\<close>

text \<open>C30: A cached resolver implements its specification: started with room for an answer, any sequence of lookups and presets, each at any time and whatever the nested resolver answers, runs to its end, and every lookup returns what the specification allows - what was learned last for this domain and query type while it is valid, a new answer of the nested resolver, or, when the nested resolver failed, what is still kept or the empty response - never an error.\<close>

theorem cached_runs_refine:
  assumes "0 < cacheMaxSize opts"
  shows "\<exists>outs r. cached_run now call (NewCachedResolver nested opts t0) ops = Some (outs, r)
    \<and> cache_specs now (call nested)
        \<lparr>lim_min = cacheMinTtl opts, lim_max = cacheMaxTtl opts, lim_keep = cacheKeepTime opts\<rparr> Map.empty ops outs"
  using cached_run_allowed [OF caches_New [OF assms, of nested t0], of now call ops]
  by (simp add: limits_of_def NewCachedResolver_def)

theorem cached_runs_refine_witness:
  "\<exists>outs r. cached_run id (\<lambda>_ _ w. (Err ErrDNSNoResponse, w)) (NewCachedResolver () (Defaults :: int options) 0)
      [(CPreset ''a'' 1 (Some (zeroResponse\<lparr>Exists := True, Addresses := [[1, 1, 1, 1]]\<rparr>)), 5),
       (CLookup \<lparr>Domain = ''a'', QueryType = 1, NoLazy = False\<rparr>, 9)] = Some (outs, r)
    \<and> cache_specs id (\<lambda>_ w. (Err ErrDNSNoResponse, w))
        \<lparr>lim_min = 60 * Second, lim_max = 3600 * Second, lim_keep = 24 * 3600 * Second\<rparr> Map.empty
        [(CPreset ''a'' 1 (Some (zeroResponse\<lparr>Exists := True, Addresses := [[1, 1, 1, 1]]\<rparr>)), 5),
         (CLookup \<lparr>Domain = ''a'', QueryType = 1, NoLazy = False\<rparr>, 9)] outs"
  using cached_runs_refine [of "Defaults :: int options" id "\<lambda>_ _ w. (Err ErrDNSNoResponse, w)" "()" 0
      "[(CPreset ''a'' 1 (Some (zeroResponse\<lparr>Exists := True, Addresses := [[1, 1, 1, 1]]\<rparr>)), 5),
        (CLookup \<lparr>Domain = ''a'', QueryType = 1, NoLazy = False\<rparr>, 9)]"]
  by (simp add: Defaults_def)


lemma miss_asks:
  assumes "caches H r" and "fst (ttl_Get (dns_cache r) (key_of q) (now w)) = None"
    and "call (nestedResolver r) q w = (Ok (Some R), w1)"
  obtains r1 where "Cached_Lookup now call q r w = Some (Ok (Some R), r1, w1)"
proof -
  have "Cached_Lookup now call q r w = map_option (\<lambda>r. (Ok (Some R), r, w1))
      (cacheResult (now w1) (key_of q) R (r\<lparr>dns_cache := snd (ttl_Get (dns_cache r) (key_of q) (now w))\<rparr>))"
    using assms(2,3) unfolding Cached_Lookup_def key_of_def by (simp add: split_beta Let_def)
  moreover obtain c where "cacheResult (now w1) (key_of q) R (r\<lparr>dns_cache := snd (ttl_Get (dns_cache r) (key_of q) (now w))\<rparr>)
      = Some (r\<lparr>dns_cache := snd (ttl_Get (dns_cache r) (key_of q) (now w))\<rparr>\<lparr>dns_cache := c\<rparr>)"
    using cacheResult_learns [OF caches_get(1) [OF assms(1)]] .
  ultimately show thesis using that by simp
qed

lemma new_cache_misses:
  assumes "0 < cacheMaxSize opts"
  shows "fst (ttl_Get (dns_cache (NewCachedResolver nested opts t0)) k t) = None"
  using ttl_get_laws(1) [OF ttl_New_valid(1) [OF assms], of zeroKey zeroResponse t0 k t]
  by (simp add: NewCachedResolver_def ttl_New_valid)


text \<open>A failure of the nested resolver is not reported: without an answer for the key the caller gets the empty
  response and no error.\<close>

lemma failure_hidden:
  assumes "fst (ttl_Get (dns_cache r) (key_of q) (now w)) = None" and "call (nestedResolver r) q w = (Err e, w1)"
  shows "\<exists>r1. Cached_Lookup now call q r w = Some (Ok (Some zeroResponse), r1, w1)"
  using assms unfolding Cached_Lookup_def key_of_def by (simp add: split_beta Let_def)

end
