(* ===== verification/Xdns_Builder.thy ===== *)
theory Xdns_Builder
  imports Xdns_Priority Xdns_Lastactive Xdns_Cached
begin

text \<open>
  Putting resolvers together (\<open>src/xdns/client/builder.go\<close>).  The resolvers a builder makes are objects behind
  pointers, and a value of the interface \<open>Resolver\<close> is a pointer with its dynamic type: a type switch is a case
  distinction, and a failed type assertion a crash.
\<close>

section \<open>Objects\<close>

datatype 'w resolver_ref =
    RDirect "'w DirectResolver" | RSystem SystemResolver
  | RLastActive nat | RPriority nat | RCached nat

record 'w objects =
  o_priority :: "nat \<Rightarrow> 'w resolver_ref PriorityResolver"
  o_last :: "nat \<Rightarrow> 'w resolver_ref LastActiveResolver"
  o_cached :: "nat \<Rightarrow> 'w resolver_ref CachedResolver"
  o_free :: nat

text \<open>A zero reference fills the fields of entities that are not allocated.\<close>

definition zeroRef :: "'w resolver_ref" where "zeroRef = RPriority 0"

definition new_priority :: "'w resolver_ref PriorityResolver" where
  "new_priority = NewPriorityResolver \<lparr>priority = 0, resolver = zeroRef, failureTimeout = 0, failedAt = 0\<rparr>"

definition new_last :: "'w resolver_ref LastActiveResolver" where
  "new_last = NewLastActive \<lparr>tag = [], la_resolver = zeroRef\<rparr>"

section \<open>Operations\<close>

record 'w Builder = root :: "'w resolver_ref"

definition Builder_New :: "'w objects \<Rightarrow> 'w Builder \<times> 'w objects" where
  "Builder_New obs =
     (let p = o_free obs in
      (\<lparr>root = RPriority p\<rparr>, obs\<lparr>o_priority := (o_priority obs)(p := new_priority), o_free := p + 1\<rparr>))"

definition Builder_Lookup :: "('w resolver_ref, 'v) dispatch \<Rightarrow> 'w Builder \<Rightarrow> Request \<Rightarrow> 'v
    \<Rightarrow> (dns_err, Response option) outcome \<times> 'v" where
  "Builder_Lookup call b q v = call (root b) q v"

definition WithCache :: "'w options \<Rightarrow> int \<Rightarrow> 'w Builder \<Rightarrow> 'w objects \<Rightarrow> 'w Builder \<times> 'w objects" where
  "WithCache opts now b obs =
     (case root b of
        RCached _ \<Rightarrow> (b, obs)
      | _ \<Rightarrow>
        (let c = o_free obs in
         (b\<lparr>root := RCached c\<rparr>,
          obs\<lparr>o_cached := (o_cached obs)(c := NewCachedResolver (root b) opts now), o_free := c + 1\<rparr>)))"

definition priorityResolver :: "'w Builder \<Rightarrow> 'w objects \<Rightarrow> (dns_err, nat) outcome" where
  "priorityResolver b obs =
     (case (case root b of RCached c \<Rightarrow> nestedResolver (o_cached obs c) | r \<Rightarrow> r) of
        RPriority p \<Rightarrow> Ok p
      | _ \<Rightarrow> Crash ''interface conversion'')"

definition cachedResolver :: "'w Builder \<Rightarrow> nat option" where
  "cachedResolver b = (case root b of RCached c \<Rightarrow> Some c | _ \<Rightarrow> None)"

text \<open>The loop over the servers: each goes to the object behind \<open>lastActiveResolver\<close>, asserted to be a
  \<open>LastActiveResolver\<close> in every round.\<close>

fun add_servers :: "(Addr \<Rightarrow> string) \<Rightarrow> 'w options \<Rightarrow> 'w resolver_ref \<Rightarrow> Addr list \<Rightarrow> 'w objects
    \<Rightarrow> (dns_err, 'w objects) outcome option" where
  "add_servers addrString opts r [] obs = Some (Ok obs)"
| "add_servers addrString opts r (srv # servers) obs =
     (case r of
        RLastActive l \<Rightarrow> do {
          la \<leftarrow> LastActive_With (addrString srv) (RDirect (NewDirectResolver srv opts)) (o_last obs l);
          add_servers addrString opts r servers (obs\<lparr>o_last := (o_last obs)(l := la)\<rparr>)
        }
      | _ \<Rightarrow> Some (Crash ''interface conversion''))"

definition WithDNSServers :: "(nat \<Rightarrow> nat \<Rightarrow> nat) \<Rightarrow> (Addr \<Rightarrow> string) \<Rightarrow> int \<Rightarrow> Addr list \<Rightarrow> 'w options \<Rightarrow> 'w Builder
    \<Rightarrow> 'w objects \<Rightarrow> (dns_err, 'w objects) outcome option" where
  "WithDNSServers grow addrString prio servers opts b obs =
     (case priorityResolver b obs of
        Crash m \<Rightarrow> Some (Crash m)
      | Err e \<Rightarrow> Some (Err e)
      | Ok p \<Rightarrow>
          (case Priority_Get (o_priority obs p) prio of
             Ok r \<Rightarrow> add_servers addrString opts r servers obs
           | Crash m \<Rightarrow> Some (Crash m)
           | Err _ \<Rightarrow>
               (let l = o_free obs;
                    obs = obs\<lparr>o_last := (o_last obs)(l := new_last), o_free := l + 1\<rparr>;
                    pr = Priority_With grow prio (RLastActive l) opts (o_priority obs p) in
                add_servers addrString opts (RLastActive l) servers (obs\<lparr>o_priority := (o_priority obs)(p := pr)\<rparr>))))"

definition WithSystem :: "(nat \<Rightarrow> nat \<Rightarrow> nat) \<Rightarrow> int \<Rightarrow> 'w options \<Rightarrow> 'w Builder \<Rightarrow> 'w objects
    \<Rightarrow> (dns_err, 'w objects) outcome" where
  "WithSystem grow prio opts b obs =
     (case priorityResolver b obs of
        Ok p \<Rightarrow> Ok (obs\<lparr>o_priority := (o_priority obs)
                 (p := Priority_With grow prio (RSystem (NewSystemResolver opts)) opts (o_priority obs p))\<rparr>)
      | Err e \<Rightarrow> Err e
      | Crash m \<Rightarrow> Crash m)"

definition Builder_Preset :: "int \<Rightarrow> string \<Rightarrow> uint16 \<Rightarrow> Response option \<Rightarrow> 'w Builder \<Rightarrow> 'w objects
    \<Rightarrow> (dns_err, 'w objects) outcome option" where
  "Builder_Preset now d qt response b obs =
     (case cachedResolver b of
        None \<Rightarrow> Some (Err ErrNoCache)
      | Some c \<Rightarrow> do {
          r \<leftarrow> Cached_Preset now d qt response (o_cached obs c);
          Some (Ok (obs\<lparr>o_cached := (o_cached obs)(c := r)\<rparr>))
        })"

section \<open>Builders as they are built\<close>

text \<open>The states of a builder: what its methods, called one after the other, make of a new one.\<close>

inductive built :: "'w Builder \<Rightarrow> 'w objects \<Rightarrow> bool" where
  start: "Builder_New obs = (b, obs') \<Longrightarrow> built b obs'"
| cache: "built b obs \<Longrightarrow> 0 < cacheMaxSize opts \<Longrightarrow> WithCache opts now b obs = (b', obs') \<Longrightarrow> built b' obs'"
| servers: "built b obs \<Longrightarrow> WithDNSServers grow addrString prio servers opts b obs = Some (Ok obs') \<Longrightarrow> built b obs'"
| system: "built b obs \<Longrightarrow> WithSystem grow prio opts b obs = Ok obs' \<Longrightarrow> built b obs'"
| preset: "built b obs \<Longrightarrow> Builder_Preset now d qt response b obs = Some (Ok obs') \<Longrightarrow> built b obs'"

text \<open>The root is a priority resolver, or a cache over one.  What a priority resolver knows as a last-active
  resolver is one.\<close>

definition is_last :: "'w objects \<Rightarrow> 'w resolver_ref \<Rightarrow> bool" where
  "is_last obs r \<longleftrightarrow> (case r of RLastActive l \<Rightarrow> l < o_free obs \<and> (\<exists>n xs. matches (o_last obs l) (n, xs)) | _ \<Rightarrow> True)"

definition base :: "(nat \<Rightarrow> 'w resolver_ref CachedResolver) \<Rightarrow> nat \<Rightarrow> 'w resolver_ref \<Rightarrow> nat \<Rightarrow> bool" where
  "base cs n r p \<longleftrightarrow> p < n
     \<and> (r = RPriority p \<or> (\<exists>c H. r = RCached c \<and> c < n \<and> nestedResolver (cs c) = RPriority p \<and> caches H (cs c)))"

definition typed :: "'w Builder \<Rightarrow> 'w objects \<Rightarrow> nat \<Rightarrow> bool" where
  "typed b obs p \<longleftrightarrow> base (o_cached obs) (o_free obs) (root b) p
     \<and> (\<forall>e. is_last obs (resolver (entities (o_priority obs p) e)))"

lemma typed_priority: "typed b obs p \<Longrightarrow> priorityResolver b obs = Ok p"
  by (auto simp: typed_def base_def priorityResolver_def)

lemma append_at_entities [simp]: "entities (append_at grow n xs r) = entities r"
  by (simp add: append_at_def Let_def)

lemma duplicate_entities [simp]: "entities (duplicate grow idx e r) = entities r"
  by (simp add: duplicate_def Let_def)

lemma add_loop_resolvers:
  "resolver (entities (add_loop grow arr idx left prio res replace new r) e) \<in> {res, resolver (entities r e)}"
proof (induction left arbitrary: idx r)
  case (Suc left)
  show ?case
    using Suc.IH [of "idx + 1" "duplicate grow idx (arrays r arr ! idx) r"] Suc.IH [of "idx + 1" r]
    by (auto simp: Let_def)
qed simp

lemma add_resolvers: "resolver (entities (Priority_With grow prio res opts r) e) \<in> {res, resolver (entities r e)}"
  using add_loop_resolvers [of grow "sl_arr r" 0 "sl_len r" prio res True "e_free r"
      "r\<lparr>entities := (entities r)(e_free r := \<lparr>priority = prio, resolver = res, failureTimeout = priorityFailureTimeout opts, failedAt = 0\<rparr>),
         e_free := e_free r + 1\<rparr>" e]
  by (auto simp: Priority_With_def add_def Let_def split: if_splits)

text \<open>Adding servers to a last-active resolver ends, and changes only this resolver.\<close>

lemma add_servers_ok:
  assumes "\<exists>n xs. matches (o_last obs l) (n, xs)"
  shows "\<exists>la. add_servers addrString opts (RLastActive l) servers obs = Some (Ok (obs\<lparr>o_last := (o_last obs)(l := la)\<rparr>))
    \<and> (\<exists>n xs. matches la (n, xs))"
  using assms
proof (induction servers arbitrary: obs)
  case Nil
  then show ?case by (intro exI [of _ "o_last obs l"]) simp
next
  case (Cons srv servers)
  obtain n xs where m: "matches (o_last obs l) (n, xs)" using Cons.prems by blast
  obtain la n' xs' where la: "LastActive_With (addrString srv) (RDirect (NewDirectResolver srv opts)) (o_last obs l) = Some la"
    "matches la (n', xs')"
    using la_add_matches [OF m, of "addrString srv" "RDirect (NewDirectResolver srv opts)" True]
    unfolding LastActive_With_def by auto
  let ?obs = "obs\<lparr>o_last := (o_last obs)(l := la)\<rparr>"
  have m: "\<exists>n xs. matches (o_last ?obs l) (n, xs)" using la(2) by auto
  obtain la' where la': "add_servers addrString opts (RLastActive l) servers ?obs
      = Some (Ok (?obs\<lparr>o_last := (o_last ?obs)(l := la')\<rparr>))" "\<exists>n xs. matches la' (n, xs)"
    using Cons.IH [OF m] by blast
  moreover have "?obs\<lparr>o_last := (o_last ?obs)(l := la')\<rparr> = obs\<lparr>o_last := (o_last obs)(l := la')\<rparr>" by simp
  ultimately show ?case using la(1) by (intro exI [of _ la']) (simp add: fun_upd_def)
qed

lemma add_servers_other:
  "(case r of RLastActive l \<Rightarrow> False | _ \<Rightarrow> True)
    \<Longrightarrow> add_servers addrString opts r servers obs = Some (if servers = [] then Ok obs else Crash ''interface conversion'')"
  by (cases servers) (auto split: resolver_ref.splits)

lemma is_last_upd:
  "is_last obs r \<Longrightarrow> \<exists>n xs. matches la (n, xs) \<Longrightarrow> is_last (obs\<lparr>o_last := (o_last obs)(l := la)\<rparr>) r"
  by (auto simp: is_last_def split: resolver_ref.splits)

lemma typed_with:
  assumes "typed b obs p" and "is_last obs r"
  shows "typed b (obs\<lparr>o_priority := (o_priority obs)(p := Priority_With grow prio r opts (o_priority obs p))\<rparr>) p"
proof -
  let ?obs = "obs\<lparr>o_priority := (o_priority obs)(p := Priority_With grow prio r opts (o_priority obs p))\<rparr>"
  have same: "is_last ?obs = is_last obs" by (auto simp: is_last_def fun_eq_iff split: resolver_ref.split)
  have "is_last ?obs (resolver (entities (o_priority ?obs p) e))" for e
    using add_resolvers [of grow prio r opts "o_priority obs p" e] assms unfolding same by (auto simp: typed_def)
  then show ?thesis using assms(1) by (simp add: typed_def)
qed

lemma typed_last:
  "typed b obs p \<Longrightarrow> \<exists>n xs. matches la (n, xs) \<Longrightarrow> typed b (obs\<lparr>o_last := (o_last obs)(l := la)\<rparr>) p"
  using is_last_upd [of obs _ la l] by (simp add: typed_def)

lemma typed_alloc:
  assumes "typed b obs p" and "o_free obs \<le> n"
  shows "typed b (obs\<lparr>o_free := n\<rparr>) p"
proof -
  have "is_last obs r \<Longrightarrow> is_last (obs\<lparr>o_free := n\<rparr>) r" for r
    using assms(2) by (auto simp: is_last_def split: resolver_ref.splits)
  moreover have "base (o_cached obs) n (root b) p" using assms by (auto simp: typed_def base_def)
  ultimately show ?thesis using assms(1) by (simp add: typed_def)
qed

lemma new_last_matches: "\<exists>n xs. matches new_last (n, xs)"
  using New_matches by (auto simp: new_last_def)

text \<open>The outcome of adding servers: only an entry of another kind with this priority makes it crash.\<close>

definition wrong_kind :: "'w objects \<Rightarrow> nat \<Rightarrow> int \<Rightarrow> bool" where
  "wrong_kind obs p prio \<longleftrightarrow>
     (case Priority_Get (o_priority obs p) prio of Ok (RLastActive _) \<Rightarrow> False | Ok _ \<Rightarrow> True | _ \<Rightarrow> False)"

lemma Priority_Get_cases:
  obtains e where "Priority_Get r prio = Ok (resolver (entities r e))" and "e \<in> set (contents r)" and "priority (entities r e) = prio"
  | "Priority_Get r prio = Err ErrNotExists"
  by (cases "find (\<lambda>e. priority (entities r e) = prio) (contents r)")
    (auto simp: Priority_Get_def find_Some_iff intro: that)

lemma servers_typed:
  assumes t: "typed b obs p"
  shows "\<exists>obs'. WithDNSServers grow addrString prio servers opts b obs
      = Some (if wrong_kind obs p prio \<and> servers \<noteq> [] then Crash ''interface conversion'' else Ok obs') \<and> typed b obs' p"
proof (cases rule: Priority_Get_cases [of "o_priority obs p" prio])
  case (1 e)
  let ?r = "resolver (entities (o_priority obs p) e)"
  have l: "is_last obs ?r" using t by (simp add: typed_def)
  have W: "WithDNSServers grow addrString prio servers opts b obs = add_servers addrString opts ?r servers obs"
    using typed_priority [OF t] 1 by (simp add: WithDNSServers_def)
  show ?thesis
  proof (cases "case ?r of RLastActive l \<Rightarrow> False | _ \<Rightarrow> True")
    case True
    then have "wrong_kind obs p prio" using 1 by (auto simp: wrong_kind_def split: resolver_ref.splits)
    then show ?thesis using add_servers_other [OF True] W t by auto
  next
    case False
    then obtain l where rl: "?r = RLastActive l" by (auto split: resolver_ref.splits)
    then have m: "\<exists>n xs. matches (o_last obs l) (n, xs)" using l by (simp add: is_last_def)
    have "\<not> wrong_kind obs p prio" using 1 rl by (simp add: wrong_kind_def)
    moreover obtain la where "add_servers addrString opts (RLastActive l) servers obs
        = Some (Ok (obs\<lparr>o_last := (o_last obs)(l := la)\<rparr>))" "\<exists>n xs. matches la (n, xs)"
      using add_servers_ok [OF m] by blast
    ultimately show ?thesis using W rl typed_last [OF t] by auto
  qed
next
  case 2
  let ?l = "o_free obs"
  let ?o1 = "obs\<lparr>o_free := ?l + 1\<rparr>\<lparr>o_last := (o_last obs)(?l := new_last)\<rparr>"
  let ?o2 = "?o1\<lparr>o_priority := (o_priority obs)(p := Priority_With grow prio (RLastActive ?l) opts (o_priority obs p))\<rparr>"
  have t1: "typed b ?o1 p" using typed_last [OF typed_alloc [OF t, of "?l + 1"] new_last_matches, of ?l] by simp
  have "is_last ?o1 (RLastActive ?l)" using new_last_matches by (simp add: is_last_def)
  then have t2: "typed b ?o2 p" using typed_with [OF t1, of "RLastActive ?l"] by simp
  have m: "\<exists>n xs. matches (o_last ?o2 ?l) (n, xs)" using new_last_matches by simp
  have "WithDNSServers grow addrString prio servers opts b obs = add_servers addrString opts (RLastActive ?l) servers ?o2"
    using typed_priority [OF t] 2 by (cases obs) (simp add: WithDNSServers_def Let_def)
  moreover have "\<not> wrong_kind obs p prio" using 2 by (simp add: wrong_kind_def)
  moreover obtain la where la: "add_servers addrString opts (RLastActive ?l) servers ?o2
      = Some (Ok (?o2\<lparr>o_last := (o_last ?o2)(?l := la)\<rparr>))" "\<exists>n xs. matches la (n, xs)"
    using add_servers_ok [OF m] by blast
  ultimately show ?thesis using typed_last [OF t2 la(2), of ?l]
    by (intro exI [of _ "?o2\<lparr>o_last := (o_last ?o2)(?l := la)\<rparr>"]) simp
qed

lemma preset_typed:
  assumes "typed b obs p"
  shows "Builder_Preset now d qt response b obs = Some (Err ErrNoCache) \<and> root b = RPriority p
    \<or> (\<exists>obs' c. Builder_Preset now d qt response b obs = Some (Ok obs') \<and> root b = RCached c \<and> typed b obs' p)"
proof (cases "root b = RPriority p")
  case False
  then obtain c H where c: "root b = RCached c" "c < o_free obs" "nestedResolver (o_cached obs c) = RPriority p"
    "caches H (o_cached obs c)" "p < o_free obs"
    using assms by (auto simp: typed_def base_def)
  obtain r' H' where r': "Cached_Preset now d qt response (o_cached obs c) = Some r'" "caches H' r'" "same_config (o_cached obs c) r'"
    using preset_allowed [OF c(4), of id now d qt response "\<lambda>_ _. undefined"] by auto
  have same: "is_last (obs\<lparr>o_cached := f\<rparr>) = is_last obs" for f by (auto simp: is_last_def fun_eq_iff split: resolver_ref.split)
  have "typed b (obs\<lparr>o_cached := (o_cached obs)(c := r')\<rparr>) p"
    using assms c r'(2,3) by (auto simp: typed_def base_def same same_config_def)
  then show ?thesis using c(1) r'(1) by (auto simp: Builder_Preset_def cachedResolver_def)
qed (simp add: Builder_Preset_def cachedResolver_def)

lemma cache_typed:
  assumes "typed b obs p" and "0 < cacheMaxSize opts" and "WithCache opts now b obs = (b', obs')"
  shows "typed b' obs' p"
proof (cases "root b = RPriority p")
  case True
  let ?c = "o_free obs"
  have lt: "p < o_free obs" using assms(1) by (simp add: typed_def base_def)
  have b': "root b' = RCached ?c"
    and obs': "obs' = obs\<lparr>o_free := ?c + 1\<rparr>\<lparr>o_cached := (o_cached obs)(?c := NewCachedResolver (root b) opts now)\<rparr>"
    using assms(3) True by (cases obs; auto simp: WithCache_def Let_def)+
  have "base (o_cached obs') (o_free obs') (root b') p"
    using caches_New [OF assms(2), of "root b" now] lt b' True by (auto simp: base_def obs' NewCachedResolver_def)
  moreover have "is_last obs r \<Longrightarrow> is_last obs' r" for r by (auto simp: is_last_def obs' split: resolver_ref.splits)
  ultimately show ?thesis using assms(1) by (simp add: typed_def obs')
next
  case False
  then show ?thesis using assms by (auto simp: typed_def base_def WithCache_def)
qed

lemma built_typed: "built b obs \<Longrightarrow> \<exists>p. typed b obs p"
proof (induction rule: built.induct)
  case (start obs b obs')
  then have b: "b = \<lparr>root = RPriority (o_free obs)\<rparr>" "o_priority obs' (o_free obs) = new_priority" "o_free obs' = o_free obs + 1"
    by (auto simp: Builder_New_def Let_def)
  have "typed b obs' (o_free obs)"
    by (simp add: b typed_def base_def is_last_def new_priority_def NewPriorityResolver_def zeroRef_def)
  then show ?case ..
next
  case (cache b obs opts now b' obs')
  then show ?case using cache_typed by blast
next
  case (servers b obs grow addrString prio servers opts obs')
  then obtain p where t: "typed b obs p" by blast
  show ?case using servers_typed [OF t, of grow addrString prio servers opts] servers.hyps(2) by (auto split: if_splits)
next
  case (system b obs grow prio opts obs')
  then obtain p where t: "typed b obs p" by blast
  show ?case
    using typed_with [OF t, of "RSystem (NewSystemResolver opts)" grow prio opts] typed_priority [OF t] system.hyps(2)
    by (auto simp: WithSystem_def is_last_def)
next
  case (preset b obs now d qt response obs')
  then obtain p where t: "typed b obs p" by blast
  show ?case using preset_typed [OF t, of now d qt response] preset.hyps(2) by auto
qed

section \<open>Properties\<close>

text \<open>C32: The type assertions of a builder hold: whatever its methods built, the root is a priority resolver or a cache over one, so adding the system resolver never panics, presetting an answer ends and fails exactly when there is no cache, and adding servers ends without a panic, except when there is a server to add and the resolver already known under this priority is not a last-active resolver, as after adding the system resolver with it.\<close>

theorem builder_type_safe:
  assumes "built b obs"
  shows "\<exists>p. priorityResolver b obs = Ok p
    \<and> is_ok (WithSystem grow prio opts b obs)
    \<and> (\<exists>obs'. WithDNSServers grow addrString prio servers opts b obs
          = Some (if wrong_kind obs p prio \<and> servers \<noteq> [] then Crash ''interface conversion'' else Ok obs'))
    \<and> (\<exists>res. Builder_Preset now d qt response b obs = Some res \<and> (is_ok res \<longleftrightarrow> cachedResolver b \<noteq> None))"
proof -
  obtain p where t: "typed b obs p" using built_typed [OF assms] by blast
  have "is_ok (WithSystem grow prio opts b obs)" by (simp add: WithSystem_def typed_priority [OF t])
  moreover have "\<exists>res. Builder_Preset now d qt response b obs = Some res \<and> (is_ok res \<longleftrightarrow> cachedResolver b \<noteq> None)"
    using preset_typed [OF t, of now d qt response] by (auto simp: cachedResolver_def)
  ultimately show ?thesis using typed_priority [OF t] servers_typed [OF t] by blast
qed


text \<open>A builder with the system of priority 2 and a cache.\<close>

definition no_objects :: "unit objects" where
  "no_objects = \<lparr>o_priority = (\<lambda>_. new_priority), o_last = (\<lambda>_. new_last),
     o_cached = (\<lambda>_. NewCachedResolver zeroRef (Defaults :: unit options) 0), o_free = 0\<rparr>"

definition demo_builder :: "unit Builder" where
  "demo_builder = fst (WithCache Defaults 0 (fst (Builder_New no_objects)) (snd (Builder_New no_objects)))"

definition demo_objects :: "unit objects" where
  "demo_objects =
     (let obs = snd (WithCache Defaults 0 (fst (Builder_New no_objects)) (snd (Builder_New no_objects))) in
      case WithSystem (\<lambda>_ n. n) 2 Defaults demo_builder obs of Ok obs \<Rightarrow> obs | _ \<Rightarrow> obs)"

lemma demo_built: "built demo_builder demo_objects"
proof -
  obtain b0 obs0 where 0: "Builder_New no_objects = (b0, obs0)" by (cases "Builder_New no_objects")
  obtain b1 obs1 where 1: "WithCache Defaults 0 b0 obs0 = (b1, obs1)" by (cases "WithCache Defaults 0 b0 obs0")
  have b1: "built b1 obs1" by (rule built.cache [OF built.start [OF 0] _ 1]) (simp add: Defaults_def)
  obtain p where "typed b1 obs1 p" using built_typed [OF b1] by blast
  then obtain obs2 where 2: "WithSystem (\<lambda>_ n. n) 2 Defaults b1 obs1 = Ok obs2" by (simp add: WithSystem_def typed_priority)
  have "demo_builder = b1" "demo_objects = obs2" by (simp_all add: demo_builder_def demo_objects_def 0 1 2)
  then show ?thesis using built.system [OF b1 2] by simp
qed

theorem builder_type_safe_witness:
  "priorityResolver demo_builder demo_objects = Ok 0
    \<and> is_ok (WithSystem (\<lambda>_ n. n) 3 Defaults demo_builder demo_objects)
    \<and> (\<exists>obs'. WithDNSServers (\<lambda>_ n. n) (\<lambda>_. ''s'') 1 [[1, 1, 1, 1]] Defaults demo_builder demo_objects = Some (Ok obs'))
    \<and> WithDNSServers (\<lambda>_ n. n) (\<lambda>_. ''s'') 2 [[1, 1, 1, 1]] Defaults demo_builder demo_objects
        = Some (Crash ''interface conversion'')
    \<and> (\<exists>res. Builder_Preset 0 ''a'' 1 None demo_builder demo_objects = Some res \<and> is_ok res)"
proof -
  note defs = demo_builder_def demo_objects_def no_objects_def Builder_New_def WithCache_def WithSystem_def priorityResolver_def
    NewCachedResolver_def new_priority_def NewPriorityResolver_def Priority_With_def add_def append_at_def Let_def
  have p: "priorityResolver demo_builder demo_objects = Ok 0" by (simp add: defs)
  have k: "\<not> wrong_kind demo_objects 0 1" "wrong_kind demo_objects 0 2" and c: "cachedResolver demo_builder \<noteq> None"
    by (simp_all add: wrong_kind_def Priority_Get_def contents_def cachedResolver_def defs)
  show ?thesis
    using builder_type_safe [OF demo_built, of "\<lambda>_ n. n" 3 Defaults "\<lambda>_. ''s''" "[[1, 1, 1, 1]]" 0 "''a''" 1 None]
      builder_type_safe [OF demo_built, of "\<lambda>_ n. n" 1 Defaults "\<lambda>_. ''s''" "[[1, 1, 1, 1]]" 0 "''a''" 1 None]
      builder_type_safe [OF demo_built, of "\<lambda>_ n. n" 2 Defaults "\<lambda>_. ''s''" "[[1, 1, 1, 1]]" 0 "''a''" 1 None] p k c
    by auto
qed

end
