(* ===== verification/Control.thy ===== *)
theory Control
  imports Xerror
begin

text \<open>
  Services and their runtime (\<open>src/control/service.go\<close>, \<open>runtime.go\<close>): the map of the services of a program, which
  it stops in the reverse of the order in which they were registered, and the loop that waits for signals and events.
  A service is a value of the interface \<open>ServiceController\<close>: its two methods are arguments, on a world of the
  services' states.  \<open>zap.L().Fatal\<close> ends the process: a crash.
\<close>

section \<open>Services\<close>

text \<open>A registered name may hold a nil service: \<open>Some None\<close>.\<close>

record 's ServiceMap =
  services :: "string \<Rightarrow> 's option option"
  order :: "string list"

definition NewServiceMap :: "'s ServiceMap" where
  "NewServiceMap = \<lparr>services = Map.empty, order = []\<rparr>"

definition RegisterService :: "string \<Rightarrow> 's option \<Rightarrow> 's ServiceMap \<Rightarrow> (go_error, 's ServiceMap) outcome" where
  "RegisterService name service m =
     (if services m name \<noteq> None then Crash ''Service is already registered''
      else if service = None then Crash ''Service is nil''
      else Ok (m\<lparr>services := (services m)(name \<mapsto> service), order := order m @ [name]\<rparr>))"

definition Replace :: "('s \<Rightarrow> 'w \<Rightarrow> go_error option \<times> 'w) \<Rightarrow> string \<Rightarrow> 's option \<Rightarrow> 's ServiceMap \<Rightarrow> 'w
    \<Rightarrow> (go_error, 's ServiceMap) outcome \<times> 'w" where
  "Replace shut name s m w =
     (case services m name of
        None \<Rightarrow> (Err (WInternalError ''services'' ''replace: service is not registered'' None), w)
      | Some None \<Rightarrow> (Crash ''nil pointer dereference'', w)
      | Some (Some old) \<Rightarrow>
          (case shut old w of
             (Some err, w) \<Rightarrow> (Err (WInternalError ''services'' ''replace: failed to shutdown'' (Some err)), w)
           | (None, w) \<Rightarrow> (Ok (m\<lparr>services := (services m)(name \<mapsto> s)\<rparr>), w)))"

text \<open>The loop runs through the names from the last one registered to the first.\<close>

fun shutdown_loop :: "('s \<Rightarrow> 'w \<Rightarrow> go_error option \<times> 'w) \<Rightarrow> ('s \<Rightarrow> 'w \<Rightarrow> bool) \<Rightarrow> string list \<Rightarrow> 's ServiceMap \<Rightarrow> 'w
    \<Rightarrow> go_error option \<times> 's ServiceMap \<times> 'w" where
  "shutdown_loop shut running [] m w = (None, m, w)"
| "shutdown_loop shut running (name # names) m w =
     (case services m name of
        Some (Some service) \<Rightarrow>
          (case shut service w of
             (Some err, w) \<Rightarrow> (Some (EInternalError ''service is failed to shutdown'' (Some err)), m, w)
           | (None, w) \<Rightarrow>
               if running service w then (Some (EInternalError ''service is still running'' None), m, w)
               else shutdown_loop shut running names (m\<lparr>services := (services m)(name \<mapsto> None)\<rparr>) w)
      | _ \<Rightarrow> (Some (EInternalError ''service is nil'' None), m, w))"

definition ServiceMap_Shutdown :: "('s \<Rightarrow> 'w \<Rightarrow> go_error option \<times> 'w) \<Rightarrow> ('s \<Rightarrow> 'w \<Rightarrow> bool) \<Rightarrow> 's ServiceMap \<Rightarrow> 'w
    \<Rightarrow> go_error option \<times> 's ServiceMap \<times> 'w" where
  "ServiceMap_Shutdown shut running m w =
     (case shutdown_loop shut running (rev (order m)) m w of
        (Some err, m, w) \<Rightarrow> (Some err, m, w)
      | (None, m, w) \<Rightarrow>
          (let m = m\<lparr>order := [], services := Map.empty\<rparr> in
           if length (order m) \<noteq> 0 \<or> services m \<noteq> Map.empty
           then (Some (EInvalidArgument ''services data is not empty after shutdown'' None), m, w)
           else (None, m, w)))"

section \<open>The runtime\<close>

datatype 'e input = SigHup | SigStop | RtEvent 'e

record ('e, 'w) Runtime =
  rt_start :: "'w \<Rightarrow> go_error option \<times> 'w"
  rt_stop :: "'w \<Rightarrow> go_error option \<times> 'w"
  rt_restart :: "'w \<Rightarrow> go_error option \<times> 'w"
  rt_process :: "'e \<Rightarrow> 'w \<Rightarrow> 'w"

text \<open>What \<open>Exec\<close> has done when the inputs are used up: it returned, the process ended, or it still waits.\<close>

datatype exec_state = Returned | Exited | Waiting

fun exec_loop :: "('e, 'w) Runtime \<Rightarrow> 'e input list \<Rightarrow> 'w \<Rightarrow> exec_state \<times> 'w" where
  "exec_loop r [] w = (Waiting, w)"
| "exec_loop r (SigHup # ins) w =
     (case rt_restart r w of (None, w) \<Rightarrow> exec_loop r ins w | (Some err, w) \<Rightarrow> (Exited, w))"
| "exec_loop r (SigStop # ins) w = (case rt_stop r w of (None, w) \<Rightarrow> (Returned, w) | (Some err, w) \<Rightarrow> (Exited, w))"
| "exec_loop r (RtEvent ev # ins) w = exec_loop r ins (rt_process r ev w)"

definition Exec :: "('e, 'w) Runtime \<Rightarrow> 'e input list \<Rightarrow> 'w \<Rightarrow> exec_state \<times> 'w" where
  "Exec r ins w = (case rt_start r w of (None, w) \<Rightarrow> exec_loop r ins w | (Some err, w) \<Rightarrow> (Exited, w))"

section \<open>What stopping does\<close>

text \<open>Services registered from an empty map: distinct names, each with a service.\<close>

fun register_all :: "(string \<times> 's) list \<Rightarrow> 's ServiceMap \<Rightarrow> (go_error, 's ServiceMap) outcome" where
  "register_all [] m = Ok m"
| "register_all ((name, s) # rest) m =
     (case RegisterService name (Some s) m of Ok m \<Rightarrow> register_all rest m | Err e \<Rightarrow> Err e | Crash c \<Rightarrow> Crash c)"

lemma register_all_result:
  assumes "distinct (map fst xs)" and "\<forall>n \<in> set (map fst xs). services m n = None"
  shows "register_all xs m = Ok (m\<lparr>services := services m ++ map_of (map (\<lambda>(n, s). (n, Some s)) xs),
     order := order m @ map fst xs\<rparr>)"
  using assms
proof (induction xs arbitrary: m)
  case (Cons x xs)
  obtain n s where x: "x = (n, s)" by (cases x)
  have "map_of (map (\<lambda>(n, s). (n, Some s)) xs) n = None"
    using Cons.prems(1) x by (auto simp: map_of_eq_None_iff image_iff)
  then have "(services m)(n \<mapsto> Some s) ++ map_of (map (\<lambda>(n, s). (n, Some s)) xs)
      = services m ++ map_of (map (\<lambda>(n, s). (n, Some s)) (x # xs))"
    by (auto simp: x map_add_def fun_eq_iff split: option.split)
  moreover have "\<forall>n' \<in> set (map fst xs). services (m\<lparr>services := (services m)(n \<mapsto> Some s), order := order m @ [n]\<rparr>) n' = None"
    using Cons.prems x by auto
  ultimately show ?case using Cons.IH Cons.prems x by (simp add: RegisterService_def fun_upd_def)
qed simp

text \<open>Stopping a service ends well when \<open>Shutdown\<close> reports no error and the service does not run any more.
  Services in the order in which they are stopped: all those before the first that does not, which ends it.\<close>

definition stops :: "('s \<Rightarrow> 'w \<Rightarrow> go_error option \<times> 'w) \<Rightarrow> ('s \<Rightarrow> 'w \<Rightarrow> bool) \<Rightarrow> 's \<Rightarrow> 'w \<Rightarrow> bool" where
  "stops shut running s w \<longleftrightarrow> fst (shut s w) = None \<and> \<not> running s (snd (shut s w))"

fun stop_all :: "('s \<Rightarrow> 'w \<Rightarrow> go_error option \<times> 'w) \<Rightarrow> ('s \<Rightarrow> 'w \<Rightarrow> bool) \<Rightarrow> (string \<times> 's) list \<Rightarrow> 'w
    \<Rightarrow> (string \<times> 's) list \<times> (string \<times> 's) list \<times> 'w" where
  "stop_all shut running [] w = ([], [], w)"
| "stop_all shut running (x # xs) w =
     (if stops shut running (snd x) w
      then (let (stopped, left, w') = stop_all shut running xs (snd (shut (snd x) w)) in (x # stopped, left, w'))
      else ([], x # xs, snd (shut (snd x) w)))"

definition marked :: "(string \<times> 's) list \<Rightarrow> 's ServiceMap \<Rightarrow> 's ServiceMap" where
  "marked xs m = m\<lparr>services := \<lambda>n. if n \<in> fst ` set xs then Some None else services m n\<rparr>"

lemma stop_all_split: "stop_all shut running xs w = (stopped, left, w') \<Longrightarrow> xs = stopped @ left"
  by (induction xs arbitrary: w stopped) (auto simp: Let_def split: prod.splits if_splits)

lemma shutdown_loop_stop_all:
  assumes "distinct (map fst xs)" and "\<forall>(n, s) \<in> set xs. services m n = Some (Some s)"
    and "stop_all shut running xs w = (stopped, left, w')"
  shows "\<exists>e. shutdown_loop shut running (map fst xs) m w = (e, marked stopped m, w') \<and> (e = None \<longleftrightarrow> left = [])"
  using assms
proof (induction xs arbitrary: m w stopped)
  case (Cons x xs)
  obtain n s where x: "x = (n, s)" by (cases x)
  have s: "services m n = Some (Some s)" using Cons.prems(2) x by simp
  obtain err w1 where shut: "shut s w = (err, w1)" by (cases "shut s w")
  let ?m = "m\<lparr>services := (services m)(n \<mapsto> None)\<rparr>"
  show ?case
  proof (cases "stops shut running s w")
    case True
    then have ok: "err = None" "\<not> running s w1" using shut by (simp_all add: stops_def)
    obtain st where st: "stop_all shut running xs w1 = (st, left, w')" "stopped = x # st"
      using Cons.prems(3) True x shut by (auto simp: Let_def split: prod.splits)
    have "\<forall>(n', s') \<in> set xs. services ?m n' = Some (Some s')"
      using Cons.prems(1,2) x by (auto simp: image_iff split_beta)
    then have "\<exists>e. shutdown_loop shut running (map fst xs) ?m w1 = (e, marked st ?m, w') \<and> (e = None \<longleftrightarrow> left = [])"
      using Cons.IH [OF _ _ st(1)] Cons.prems(1) by simp
    moreover have "marked st ?m = marked stopped m" by (auto simp: marked_def st(2) x fun_eq_iff)
    ultimately show ?thesis using x s shut ok by simp
  next
    case False
    then have "stopped = []" "left = x # xs" "w' = w1" using Cons.prems(3) x shut by auto
    moreover have "marked [] m = m" by (simp add: marked_def)
    moreover have "\<exists>e. shutdown_loop shut running (map fst (x # xs)) m w = (Some e, m, w1)"
      using x s shut False by (cases err) (auto simp: stops_def)
    ultimately show ?thesis by auto
  qed
qed (simp add: marked_def)

section \<open>Properties\<close>

text \<open>C34: Stopping the registered services goes from the last one registered to the first, each once, up to the first that reports an error or still runs: without such a service it succeeds and the map is empty; otherwise it fails, every service stopped so far is set to nil, the others are kept, and none of them has been touched. Stopping again after such a failure then fails at once with a nil service, without reaching the services that are still to be stopped, if any service had been stopped.\<close>

theorem services_stop_in_reverse:
  assumes "distinct (map fst xs)" and "register_all xs NewServiceMap = Ok m"
    and "stop_all shut running (rev xs) w = (stopped, left, w')"
  shows "\<exists>e m'. ServiceMap_Shutdown shut running m w = (e, m', w')
    \<and> (if left = [] then e = None \<and> m' = NewServiceMap
       else e \<noteq> None \<and> m' = marked stopped m
         \<and> (stopped \<noteq> [] \<longrightarrow> ServiceMap_Shutdown shut' running' m' w'' = (Some (EInternalError ''service is nil'' None), m', w'')))"
proof -
  have m: "m = \<lparr>services = map_of (map (\<lambda>(n, s). (n, Some s)) xs), order = map fst xs\<rparr>"
    using register_all_result [OF assms(1), of NewServiceMap] assms(2) by (simp add: NewServiceMap_def)
  have "\<forall>(n, s) \<in> set xs. services m n = Some (Some s)"
  proof safe
    fix n s assume "(n, s) \<in> set xs"
    then have "(n, Some s) \<in> set (map (\<lambda>(n, s). (n, Some s)) xs)" by force
    moreover have "distinct (map fst (map (\<lambda>(n, s). (n, Some s)) xs))" using assms(1) by (simp add: split_def comp_def)
    ultimately show "services m n = Some (Some s)" by (simp add: m)
  qed
  moreover have d: "distinct (map fst (rev xs))" using assms(1) by (simp add: distinct_map)
  ultimately obtain e where e: "shutdown_loop shut running (map fst (rev xs)) m w = (e, marked stopped m, w')" "e = None \<longleftrightarrow> left = []"
    using shutdown_loop_stop_all [OF d _ assms(3), of m] by auto
  have S: "ServiceMap_Shutdown shut running m w = (if left = [] then (None, NewServiceMap, w') else (e, marked stopped m, w'))"
    using e by (cases e) (auto simp: ServiceMap_Shutdown_def m rev_map marked_def NewServiceMap_def)
  have "ServiceMap_Shutdown shut' running' (marked stopped m) w'' = (Some (EInternalError ''service is nil'' None), marked stopped m, w'')"
    if ne: "stopped \<noteq> []"
  proof -
    obtain x st where st: "stopped = x # st" using ne by (cases stopped) auto
    then have "rev (map fst xs) = fst x # map fst (st @ left)"
      using stop_all_split [OF assms(3)] by (metis Cons_eq_appendI list.simps(9) rev_map)
    then show ?thesis using st by (simp add: ServiceMap_Shutdown_def m marked_def)
  qed
  then show ?thesis using S e(2) by auto
qed

text \<open>A log of the services that were asked to stop; service 2 fails.\<close>

definition demo_shut :: "nat \<Rightarrow> nat list \<Rightarrow> go_error option \<times> nat list" where
  "demo_shut s w = (if s = 2 then Some (EInternalError ''busy'' None) else None, w @ [s])"

theorem services_stop_in_reverse_witness:
  "\<exists>m m'. register_all [(''a'', 1), (''b'', 2), (''c'', 3)] NewServiceMap = Ok m
    \<and> ServiceMap_Shutdown demo_shut (\<lambda>_ _. False) m []
        = (Some (EInternalError ''service is failed to shutdown'' (Some (EInternalError ''busy'' None))), m', [3, 2])
    \<and> ServiceMap_Shutdown demo_shut (\<lambda>_ _. False) m' [] = (Some (EInternalError ''service is nil'' None), m', [])"
proof -
  let ?xs = "[(''a'', 1), (''b'', 2), (''c'', 3)] :: (string \<times> nat) list"
  obtain m where m: "register_all ?xs NewServiceMap = Ok m" by (simp add: RegisterService_def NewServiceMap_def)
  have st: "stop_all demo_shut (\<lambda>_ _. False) (rev ?xs) [] = ([(''c'', 3)], [(''b'', 2), (''a'', 1)], [3, 2])"
    by (simp add: stops_def demo_shut_def)
  have "ServiceMap_Shutdown demo_shut (\<lambda>_ _. False) m []
      = (Some (EInternalError ''service is failed to shutdown'' (Some (EInternalError ''busy'' None))), marked [(''c'', 3)] m, [3, 2])"
    using m by (auto simp: RegisterService_def NewServiceMap_def ServiceMap_Shutdown_def demo_shut_def marked_def fun_eq_iff)
  moreover have "ServiceMap_Shutdown demo_shut (\<lambda>_ _. False) (marked [(''c'', 3)] m) []
      = (Some (EInternalError ''service is nil'' None), marked [(''c'', 3)] m, [])"
    using services_stop_in_reverse [OF _ m st, of demo_shut "\<lambda>_ _. False" "[]"] by auto
  ultimately show ?thesis using m by blast
qed

text \<open>The process ends by itself only after its services were stopped, unless a start, a restart or the stop itself failed: while nothing fails, whatever signals and events arrive, \<open>Exec\<close> returns exactly at the first signal to stop, having processed the events and restarts before it in their order and then stopped the services, and it waits when there is none.\<close>

lemma exec_stops_services:
  assumes "\<forall>w. fst (rt_start r w) = None \<and> fst (rt_restart r w) = None \<and> fst (rt_stop r w) = None"
  shows "Exec r ins w =
    (let before = takeWhile (\<lambda>i. i \<noteq> SigStop) ins;
         w' = fold (\<lambda>i w. case i of RtEvent ev \<Rightarrow> rt_process r ev w | _ \<Rightarrow> snd (rt_restart r w)) before (snd (rt_start r w)) in
     if SigStop \<in> set ins then (Returned, snd (rt_stop r w')) else (Waiting, w'))"
proof -
  have loop: "exec_loop r ins w =
    (let before = takeWhile (\<lambda>i. i \<noteq> SigStop) ins;
         w' = fold (\<lambda>i w. case i of RtEvent ev \<Rightarrow> rt_process r ev w | _ \<Rightarrow> snd (rt_restart r w)) before w in
     if SigStop \<in> set ins then (Returned, snd (rt_stop r w')) else (Waiting, w'))" for w
  proof (induction ins arbitrary: w)
    case (Cons i ins)
    show ?case using Cons.IH assms by (cases i) (simp_all add: Let_def case_prod_beta)
  qed simp
  show ?thesis using loop [of "snd (rt_start r w)"] assms by (simp add: Exec_def case_prod_beta)
qed

end
