(* ===== verification/Xhttp_Auth.thy ===== *)
theory Xhttp_Auth
  imports Go_Strings
begin

text \<open>
  Requests as the handlers of \<open>src/xhttp\<close> and \<open>src/xproxy\<close> see them, and the authorization header
  (\<open>src/xhttp/auth.go\<close>).  The header is the map of its canonical names to their values.
\<close>

type_synonym header = "(string \<times> string list) list"

record request =
  rq_method :: string
  rq_proto :: nat
  rq_scheme :: string
  rq_urlhost :: string
  rq_url :: string
  rq_host :: string
  rq_header :: header

definition header_get :: "header \<Rightarrow> string \<Rightarrow> string" where
  "header_get h name = (case map_of h name of Some (v # vs) \<Rightarrow> v | _ \<Rightarrow> [])"

text \<open>\<open>strings.Fields\<close> on ASCII text.\<close>

fun fields_from :: "string \<Rightarrow> string \<Rightarrow> string list" where
  "fields_from word [] = (if word = [] then [] else [word])"
| "fields_from word (c # cs) =
     (if is_space c then (if word = [] then fields_from [] cs else word # fields_from [] cs)
      else fields_from (word @ [c]) cs)"

definition Fields :: "string \<Rightarrow> string list" where
  "Fields s = fields_from [] s"

definition AuthIsBearer :: "string \<Rightarrow> bool" where
  "AuthIsBearer authType = (ToLower authType = ''bearer'')"

definition ExtractAuthorizationInfo :: "request \<Rightarrow> string \<Rightarrow> string \<times> string" where
  "ExtractAuthorizationInfo r name =
     (let authHeader = header_get (rq_header r) name in
      if authHeader = [] then ([], [])
      else (let authHeaderParts = Fields authHeader in
            if length authHeaderParts \<noteq> 2 then ([], [])
            else (authHeaderParts ! 0, authHeaderParts ! 1)))"

definition ExtractTokenFromRequest :: "request \<Rightarrow> string \<times> bool" where
  "ExtractTokenFromRequest r =
     (let (authType, authToken) = ExtractAuthorizationInfo r ''Authorization'' in
      if authToken = [] then ([], False)
      else if \<not> AuthIsBearer authType then ([], False)
      else (authToken, True))"

text \<open>The header is given as a scheme and a token, with any amount of space around them.\<close>

lemma fields_of_two:
  assumes "a \<noteq> []" and "b \<noteq> []" and "\<forall>c \<in> set (a @ b). \<not> is_space c"
    and "\<forall>c \<in> set (s1 @ s2 @ s3). is_space c" and "s2 \<noteq> []"
  shows "Fields (s1 @ a @ s2 @ b @ s3) = [a, b]"
proof -
  have skip: "fields_from [] (sp @ t) = fields_from [] t" if "\<forall>c \<in> set sp. is_space c" for sp t
    using that by (induction sp) auto
  have word: "fields_from w (a @ t) = fields_from (w @ a) t" if "\<forall>c \<in> set a. \<not> is_space c" for w a t
    using that by (induction a arbitrary: w) auto
  have stop: "fields_from w (sp @ t) = w # fields_from [] t" if "w \<noteq> []" "sp \<noteq> []" "\<forall>c \<in> set sp. is_space c" for w sp t
    using that skip [of "tl sp" t] by (cases sp) auto
  have end_: "fields_from w sp = [w]" if "w \<noteq> []" "\<forall>c \<in> set sp. is_space c" for w sp
    using stop [of w sp "[]"] that by (cases sp) auto
  have "Fields (s1 @ a @ s2 @ b @ s3) = fields_from [] (a @ s2 @ b @ s3)" using assms(4) skip [of s1] by (simp add: Fields_def)
  also have "\<dots> = fields_from a (s2 @ b @ s3)" using assms(3) word [of a "[]"] by simp
  also have "\<dots> = a # fields_from [] (b @ s3)" using assms(1,4,5) stop [of a s2] by simp
  also have "\<dots> = a # fields_from b s3" using assms(3) word [of b "[]"] by simp
  finally show ?thesis using assms(2,4) end_ [of b s3] by simp
qed

lemma token_extracted:
  assumes "header_get (rq_header r) ''Authorization'' = s1 @ scheme @ s2 @ token @ s3"
    and "scheme \<noteq> []" and "token \<noteq> []" and "\<forall>c \<in> set (scheme @ token). \<not> is_space c"
    and "\<forall>c \<in> set (s1 @ s2 @ s3). is_space c" and "s2 \<noteq> []"
  shows "ExtractTokenFromRequest r = (if AuthIsBearer scheme then (token, True) else ([], False))"
  using fields_of_two [OF assms(2-6)] assms(1-3)
  by (simp add: ExtractTokenFromRequest_def ExtractAuthorizationInfo_def)
end
