(* ===== verification/Xproxy.thy ===== *)
theory Xproxy
  imports Xerror Xhttp_Auth "HOL-Library.Sublist"
begin

text \<open>
  The HTTP proxy (\<open>src/xproxy\<close>): the two goroutines that forward a tunnel's bytes, as steps that a schedule
  interleaves; and the handlers, as the sequence of what they do, given what the callbacks, the network and the
  request's connection answer.  The release callback is set, and names of headers are in their canonical form.
\<close>

section \<open>Tunnels\<close>

text \<open>A connection: what its peer has sent and nobody has read yet, what was written to it, whether it is closed.\<close>

record conn =
  c_in :: "byte list"
  c_out :: "byte list"
  c_closed :: bool

text \<open>A goroutine of \<open>doPairedForward\<close> is about to read, holds what it read, or has returned.\<close>

datatype forwarder = Reading | Holding "byte list" | Finished

record tunnel =
  client :: conn
  remote :: conn
  fw_tx :: forwarder
  fw_rx :: forwarder
  rep_tx :: "uint64 list"
  rep_rx :: "uint64 list"

text \<open>One \<open>Read\<close> or \<open>Write\<close> of the loop, as the network answers it: a \<open>Read\<close> returns bytes, at most the buffer, or
  fails, with bytes that are then dropped; a \<open>Write\<close> succeeds, or fails after some of the bytes went out.  On a closed connection both fail.
  Returning closes the destination.\<close>

datatype answer = Returns nat | Fails nat

definition doPairedForward :: "answer \<Rightarrow> conn \<Rightarrow> conn \<Rightarrow> forwarder \<Rightarrow> uint64 list
    \<Rightarrow> conn \<times> conn \<times> forwarder \<times> uint64 list" where
  "doPairedForward answer src dst f rep =
     (case f of
        Finished \<Rightarrow> (src, dst, Finished, rep)
      | Reading \<Rightarrow>
          (case answer of
             Returns n \<Rightarrow>
               if c_closed src then (src, dst\<lparr>c_closed := True\<rparr>, Finished, rep)
               else (let n = min n (min 4096 (length (c_in src))) in
                     (src\<lparr>c_in := drop n (c_in src)\<rparr>, dst, Holding (take n (c_in src)), rep))
           | Fails n \<Rightarrow> (src\<lparr>c_in := drop n (c_in src)\<rparr>, dst\<lparr>c_closed := True\<rparr>, Finished, rep))
      | Holding b \<Rightarrow>
          if c_closed dst then (src, dst\<lparr>c_closed := True\<rparr>, Finished, rep)
          else
            (case answer of
               Returns _ \<Rightarrow> (src, dst\<lparr>c_out := c_out dst @ b\<rparr>, Reading, rep @ [of_nat (length b)])
             | Fails n \<Rightarrow> (src, dst\<lparr>c_out := c_out dst @ take n b, c_closed := True\<rparr>, Finished, rep)))"

definition start_tunnel :: "byte list \<Rightarrow> byte list \<Rightarrow> tunnel" where
  "start_tunnel sent answered =
     \<lparr>client = \<lparr>c_in = sent, c_out = [], c_closed = False\<rparr>, remote = \<lparr>c_in = answered, c_out = [], c_closed = False\<rparr>,
      fw_tx = Reading, fw_rx = Reading, rep_tx = [], rep_rx = []\<rparr>"

datatype turn = Tx answer | Rx answer

fun tunnel_step :: "turn \<Rightarrow> tunnel \<Rightarrow> tunnel" where
  "tunnel_step (Tx answer) t =
     (case doPairedForward answer (client t) (remote t) (fw_tx t) (rep_tx t) of
        (src, dst, f, rep) \<Rightarrow> t\<lparr>client := src, remote := dst, fw_tx := f, rep_tx := rep\<rparr>)"
| "tunnel_step (Rx answer) t =
     (case doPairedForward answer (remote t) (client t) (fw_rx t) (rep_rx t) of
        (src, dst, f, rep) \<Rightarrow> t\<lparr>remote := src, client := dst, fw_rx := f, rep_rx := rep\<rparr>)"

definition tunnel_run :: "turn list \<Rightarrow> tunnel \<Rightarrow> tunnel" where
  "tunnel_run ts t = fold tunnel_step ts t"

section \<open>What a tunnel delivers\<close>

fun held :: "forwarder \<Rightarrow> byte list" where
  "held (Holding b) = b"
| "held _ = []"

text \<open>Of the bytes \<open>sent\<close>, first what was written, then what the goroutine holds, then what is still to be read.  A
  goroutine that has returned has closed the destination and dropped what it held; the last write may have gone out in
  part without being reported.\<close>

definition delivers :: "byte list \<Rightarrow> conn \<Rightarrow> conn \<Rightarrow> forwarder \<Rightarrow> uint64 list \<Rightarrow> bool" where
  "delivers sent src dst f rep \<longleftrightarrow>
     (if f = Finished
      then c_closed dst \<and> (\<exists>lost. sent = c_out dst @ lost @ c_in src)
        \<and> (\<exists>k \<le> 4096. sum_list rep + of_nat k = of_nat (length (c_out dst)))
      else sent = c_out dst @ held f @ c_in src \<and> sum_list rep = of_nat (length (c_out dst)) \<and> length (held f) \<le> 4096)"

lemma delivers_prefix: "delivers sent src dst f rep \<Longrightarrow> prefix (c_out dst) sent"
  by (auto simp: delivers_def split: if_splits)

lemma delivers_return:
  assumes "delivers sent src dst (Holding b) rep"
  shows "delivers sent src (dst\<lparr>c_out := c_out dst @ take n b, c_closed := True\<rparr>) Finished rep"
proof -
  have "sent = (c_out dst @ take n b) @ drop n b @ c_in src" using assms by (simp add: delivers_def)
  moreover have "length (take n b) \<le> 4096 \<and> sum_list rep + of_nat (length (take n b)) = of_nat (length (c_out dst @ take n b))"
    using assms by (auto simp: delivers_def)
  ultimately show ?thesis unfolding delivers_def by auto
qed

lemma forward_delivers:
  assumes "delivers sent src dst f rep" and "doPairedForward answer src dst f rep = (src', dst', f', rep')"
  shows "delivers sent src' dst' f' rep'"
proof (cases f)
  case Reading
  have "\<exists>k \<le> 4096. sum_list rep + of_nat k = of_nat (length (c_out dst))"
    using assms(1) Reading by (intro exI [of _ 0]) (simp add: delivers_def)
  moreover have "\<exists>lost. c_in src = lost @ drop n (c_in src)" for n by (rule exI [of _ "take n (c_in src)"]) simp
  ultimately show ?thesis
    using assms Reading by (cases answer) (auto simp: delivers_def doPairedForward_def Let_def split: if_splits)
next
  case (Holding b)
  have "\<exists>k \<le> 4096. sum_list rep + of_nat k = of_nat (length (c_out dst))"
    using assms(1) Holding by (intro exI [of _ 0]) (simp add: delivers_def)
  then show ?thesis
    using assms Holding delivers_return [of sent src dst b rep]
    by (cases answer) (auto simp: doPairedForward_def delivers_def split: if_splits)
next
  case Finished
  then show ?thesis using assms by (simp add: doPairedForward_def)
qed

text \<open>The other direction uses the same two connections the other way round: this one sees at most that the
  connection it reads from is closed.\<close>

lemma forward_keeps:
  assumes "doPairedForward answer src dst f rep = (src', dst', f', rep')"
  shows "c_in dst' = c_in dst" and "c_out src' = c_out src" and "c_closed src' = c_closed src"
    and "f = Finished \<or> f' \<noteq> Finished \<or> c_closed dst'" and "c_closed dst \<Longrightarrow> c_closed dst'"
  using assms by (cases f; cases answer; auto simp: doPairedForward_def Let_def split: if_splits)+

lemma forward_frame:
  assumes "delivers sent dst src g rep" and "doPairedForward answer src dst f rep0 = (src', dst', f', rep0')"
  shows "delivers sent dst' src' g rep"
  using assms(1) forward_keeps [OF assms(2)] by (simp add: delivers_def)

lemma tunnel_step_delivers:
  assumes "delivers sent (client t) (remote t) (fw_tx t) (rep_tx t)"
    and "delivers answered (remote t) (client t) (fw_rx t) (rep_rx t)" and "t' = tunnel_step turn t"
  shows "delivers sent (client t') (remote t') (fw_tx t') (rep_tx t')
    \<and> delivers answered (remote t') (client t') (fw_rx t') (rep_rx t')"
proof (cases turn)
  case (Tx answer)
  obtain src dst f rep where s: "doPairedForward answer (client t) (remote t) (fw_tx t) (rep_tx t) = (src, dst, f, rep)"
    by (cases "doPairedForward answer (client t) (remote t) (fw_tx t) (rep_tx t)") auto
  then show ?thesis using forward_delivers [OF assms(1) s] forward_frame [OF assms(2) s] assms(3) Tx by simp
next
  case (Rx answer)
  obtain src dst f rep where s: "doPairedForward answer (remote t) (client t) (fw_rx t) (rep_rx t) = (src, dst, f, rep)"
    by (cases "doPairedForward answer (remote t) (client t) (fw_rx t) (rep_rx t)") auto
  then show ?thesis using forward_delivers [OF assms(2) s] forward_frame [OF assms(1) s] assms(3) Rx by simp
qed

lemma tunnel_run_delivers:
  assumes "t = tunnel_run ts (start_tunnel sent answered)"
  shows "delivers sent (client t) (remote t) (fw_tx t) (rep_tx t)
    \<and> delivers answered (remote t) (client t) (fw_rx t) (rep_rx t)"
  using assms
proof (induction ts arbitrary: t rule: rev_induct)
  case Nil
  then show ?case by (simp add: tunnel_run_def start_tunnel_def delivers_def)
next
  case (snoc turn ts)
  then show ?case
    using tunnel_step_delivers [of sent "tunnel_run ts (start_tunnel sent answered)" answered t turn]
    by (simp add: tunnel_run_def)
qed

text \<open>A goroutine whose source is closed returns within two of its turns.\<close>

lemma closed_source_finishes:
  assumes "c_closed src" and "doPairedForward a src dst f rep = (src1, dst1, f1, rep1)"
    and "doPairedForward b src1 dst1 f1 rep1 = (src2, dst2, f2, rep2)"
  shows "f2 = Finished"
  using assms by (cases f; cases a; cases b) (auto simp: doPairedForward_def split: if_splits)

section \<open>Handlers\<close>

text \<open>What a handler does, in its order.  The two goroutines of a tunnel are one step, described above.\<close>

datatype 'i event =
    Authorize | Release 'i
  | Dial string | CloseRemote | Hijack | CloseClient | RawWrite string | AcceptV2 | Tunnel 'i
  | ReplyError string int | ReplyHeader header | ReplyStatus int | CopyBody "'i option" | CloseBody
  | SendRequest string string header "'i option"

text \<open>The proxy, and what its surroundings answer.\<close>

record 'i Instance =
  MarkHeaderName :: string
  AuthCallback :: "(request \<Rightarrow> go_error + 'i) option"

record surroundings =
  dial_ok :: "string \<Rightarrow> bool"
  can_hijack :: bool
  hijack_ok :: bool
  write_ok :: bool
  accept_ok :: bool
  newreq_ok :: bool
  random_mark :: string
  send :: "string \<Rightarrow> string \<Rightarrow> header \<Rightarrow> (int \<times> header) option"

text \<open>\<open>hasPort\<close>: a colon and at least one digit at the end.\<close>

definition hasPort :: "string \<Rightarrow> bool" where
  "hasPort host =
     (let ds = takeWhile (\<lambda>c. digit_val c \<noteq> None) (rev host); rest = dropWhile (\<lambda>c. digit_val c \<noteq> None) (rev host) in
      ds \<noteq> [] \<and> rest \<noteq> [] \<and> hd rest = CHR '':'')"

definition remoteEndpoint :: "request \<Rightarrow> string" where
  "remoteEndpoint r = (let host = rq_urlhost r in if \<not> hasPort host then host @ '':80'' else host)"

definition handleV1Connect :: "surroundings \<Rightarrow> request \<Rightarrow> 'i \<Rightarrow> 'i event list" where
  "handleV1Connect sur r info =
     Dial (remoteEndpoint r) #
     (if \<not> dial_ok sur (remoteEndpoint r) then [ReplyError ''Not found'' 404]
      else if \<not> can_hijack sur then [ReplyError ''Hijack not supported'' 503]
      else Hijack #
        (if \<not> hijack_ok sur then [CloseBody]
         else RawWrite (''HTTP/1.1 200 OK'' @ [CHR 0x0D, CHR 0x0A, CHR 0x0D, CHR 0x0A]) #
           (if \<not> write_ok sur then [CloseClient, CloseRemote] else [Tunnel info])))"

definition handleV2Connect :: "surroundings \<Rightarrow> request \<Rightarrow> 'i \<Rightarrow> 'i event list" where
  "handleV2Connect sur r info =
     Dial (remoteEndpoint r) #
     (if \<not> dial_ok sur (remoteEndpoint r) then [ReplyError ''Not found'' 404]
      else AcceptV2 # (if \<not> accept_ok sur then [CloseRemote] else [Tunnel info]))"

definition header_del :: "string \<Rightarrow> header \<Rightarrow> header" where
  "header_del name h = filter (\<lambda>(n, vs). n \<noteq> name) h"

definition header_add :: "string \<Rightarrow> string \<Rightarrow> header \<Rightarrow> header" where
  "header_add name v h =
     (case map_of h name of None \<Rightarrow> h @ [(name, [v])] | Some _ \<Rightarrow> map (\<lambda>(n, vs). (n, if n = name then vs @ [v] else vs)) h)"

definition proxy_header :: "'i Instance \<Rightarrow> surroundings \<Rightarrow> header \<Rightarrow> header" where
  "proxy_header i sur h =
     (let h = header_del ''Proxy-Authorization'' (header_del ''Proxy-Authenticate'' (header_del ''Proxy-Connection'' h)) in
      if MarkHeaderName i \<noteq> [] then header_add (MarkHeaderName i) (random_mark sur) h else h)"

definition handleProxy :: "'i Instance \<Rightarrow> surroundings \<Rightarrow> request \<Rightarrow> bool \<Rightarrow> 'i option \<Rightarrow> 'i event list" where
  "handleProxy i sur r isCORS info =
     (if rq_proto r = 2 then [ReplyError ''Bad request'' 505] else []) @
     (if \<not> isCORS \<and> rq_scheme r = ''https'' then [ReplyError ''Proxying HTTPS as plain text is dumb idea'' 418]
      else if \<not> newreq_ok sur then [ReplyError ''Error creating proxy request'' 500]
      else
        (let h = proxy_header i sur (rq_header r) in
         SendRequest (rq_method r) (rq_url r) h (if isCORS then None else info) #
         (case send sur (rq_method r) (rq_url r) h of
            None \<Rightarrow> [ReplyError ''Error sending proxy request'' 500]
          | Some (status, resp) \<Rightarrow>
              [ReplyHeader resp, ReplyStatus status] @ (if isCORS then [] else [CopyBody info]) @ [CloseBody])))"

definition handleAuth :: "'i Instance \<Rightarrow> request \<Rightarrow> (go_error + 'i) \<times> 'i event list" where
  "handleAuth i r =
     (case AuthCallback i of
        None \<Rightarrow> (Inl (Plain ''ErrAuthCallbackNotSet'' ''auth callback is not set'' None), [])
      | Some cb \<Rightarrow>
          (let (_, authInfo) = ExtractAuthorizationInfo r ''Proxy-Authorization'' in
           if authInfo = [] then (Inl (Plain ''ErrCantExtractAuthInfo'' (''can'' @ [CHR 0x27] @ ''t extract authorization info'') None), [])
           else (cb r, [Authorize])))"

definition ServeHTTP :: "'i Instance \<Rightarrow> surroundings \<Rightarrow> request \<Rightarrow> 'i event list" where
  "ServeHTTP i sur r =
     (if rq_method r = ''OPTIONS'' then handleProxy i sur r True None
      else
        (case handleAuth i r of
           (Inr info, es) \<Rightarrow>
             es @
             (if rq_method r = ''CONNECT''
              then (if rq_proto r = 1 then handleV1Connect sur r info
                    else if rq_proto r = 2 then handleV2Connect sur r info
                    else [ReplyError ''Unsupported protocol version'' 505])
              else handleProxy i sur r False (Some info))
             @ [Release info]
         | (Inl err, es) \<Rightarrow>
             es @ [ReplyHeader [(''Proxy-Authenticate'', [''Basic realm='' @ [CHR 0x22] @ ''proxy'' @ [CHR 0x22]])],
                   ReplyError ''Proxy authentication required'' 407]))"

text \<open>Counting the bytes of a proxied body: the report is made before the read, with its zero result.\<close>

definition accounter_Read :: "(uint64 \<Rightarrow> 'w \<Rightarrow> 'w) option \<Rightarrow> ('w \<Rightarrow> (byte list \<times> go_error option) \<times> 'w) \<Rightarrow> 'w
    \<Rightarrow> (byte list \<times> go_error option) \<times> 'w" where
  "accounter_Read reporter parent w =
     (let w = (case reporter of Some report \<Rightarrow> report 0 w | None \<Rightarrow> w) in parent w)"


lemma handleAuth_events: "handleAuth i r = (Inr info, es) \<Longrightarrow> es = [Authorize]"
  "handleAuth i r = (Inl err, es) \<Longrightarrow> es = [] \<or> es = [Authorize]"
  by (auto simp: handleAuth_def split: option.splits prod.splits if_splits)

lemma handlers_do_not_release:
  "e \<in> set (handleProxy i sur r cors info) \<Longrightarrow> e \<noteq> Authorize \<and> (\<forall>x. e \<noteq> Release x)"
  "e \<in> set (handleV1Connect sur r info') \<Longrightarrow> e \<noteq> Authorize \<and> (\<forall>x. e \<noteq> Release x)"
  "e \<in> set (handleV2Connect sur r info') \<Longrightarrow> e \<noteq> Authorize \<and> (\<forall>x. e \<noteq> Release x)"
  by (auto simp: handleProxy_def handleV1Connect_def handleV2Connect_def Let_def split: if_splits option.splits prod.splits)

lemma map_of_header_del: "map_of (header_del name h) n = (if n = name then None else map_of h n)"
  by (induction h) (auto simp: header_del_def)

lemma map_of_header_add: "n \<noteq> name \<Longrightarrow> map_of (header_add name v h) n = map_of h n"
proof -
  assume n: "n \<noteq> name"
  have "map_of (map (\<lambda>(n, vs). (n, if n = name then vs @ [v] else vs)) h) n = map_of h n"
    using n by (induction h) auto
  moreover have "map_of (h @ [(name, [v])]) n = map_of h n"
    using n by (simp add: map_of_append map_add_def split: option.split)
  ultimately show ?thesis by (simp add: header_add_def split: option.split)
qed

lemma proxy_header_strips:
  assumes "n \<in> {''Proxy-Authorization'', ''Proxy-Authenticate'', ''Proxy-Connection''}" and "MarkHeaderName i \<noteq> n"
  shows "map_of (proxy_header i sur h) n = None"
  using assms by (auto simp: proxy_header_def Let_def map_of_header_add map_of_header_del)

lemma sent_header:
  "SendRequest m u h b \<in> set (ServeHTTP i sur r) \<Longrightarrow> h = proxy_header i sur (rq_header r)"
  by (auto simp: ServeHTTP_def handleProxy_def handleV1Connect_def handleV2Connect_def handleAuth_def Let_def
      split: if_splits option.splits prod.splits sum.splits)

section \<open>Properties\<close>

text \<open>C36: A tunnel delivers what was sent: however the two goroutines interleave and however the network cuts and fails their calls, what either side got is a prefix of what the other side sent, the bytes reported for a running direction are exactly those delivered, modulo 2^64, and a direction that has returned has closed its destination and reported all but at most one buffer of what it delivered, after which the other direction returns within two of its calls.\<close>

theorem tunnel_delivers_prefixes:
  assumes "t = tunnel_run ts (start_tunnel sent answered)"
  shows "prefix (c_out (remote t)) sent \<and> prefix (c_out (client t)) answered
    \<and> (fw_tx t \<noteq> Finished \<longrightarrow> sum_list (rep_tx t) = of_nat (length (c_out (remote t))))
    \<and> (fw_rx t \<noteq> Finished \<longrightarrow> sum_list (rep_rx t) = of_nat (length (c_out (client t))))
    \<and> (fw_tx t = Finished \<longrightarrow> c_closed (remote t) \<and> fw_rx (tunnel_run [Rx a, Rx b] t) = Finished
        \<and> (\<exists>k \<le> 4096. sum_list (rep_tx t) + of_nat k = of_nat (length (c_out (remote t)))))
    \<and> (fw_rx t = Finished \<longrightarrow> c_closed (client t) \<and> fw_tx (tunnel_run [Tx a, Tx b] t) = Finished
        \<and> (\<exists>k \<le> 4096. sum_list (rep_rx t) + of_nat k = of_nat (length (c_out (client t)))))"
proof -
  note d = tunnel_run_delivers [OF assms]
  have rx: "fw_rx (tunnel_run [Rx a, Rx b] t) = Finished" if "c_closed (remote t)"
    using closed_source_finishes [OF that] by (auto simp: tunnel_run_def split: prod.splits)
  have tx: "fw_tx (tunnel_run [Tx a, Tx b] t) = Finished" if "c_closed (client t)"
    using closed_source_finishes [OF that] by (auto simp: tunnel_run_def split: prod.splits)
  have pre: "prefix (c_out (remote t)) sent" "prefix (c_out (client t)) answered"
    using d delivers_prefix by blast+
  show ?thesis
    using pre d [unfolded delivers_def] rx tx by (simp split: if_splits)
qed

theorem tunnel_delivers_prefixes_witness:
  "let t = tunnel_run [Tx (Returns 2), Rx (Returns 9), Tx (Returns 0), Rx (Returns 0), Tx (Fails 0)] (start_tunnel [1, 2, 3] [7]) in
   c_out (remote t) = [1, 2] \<and> c_out (client t) = [7] \<and> sum_list (rep_rx t) = 1 \<and> c_closed (remote t)
   \<and> fw_rx (tunnel_run [Rx (Returns 1), Rx (Returns 1)] t) = Finished"
proof -
  define t where "t = tunnel_run [Tx (Returns 2), Rx (Returns 9), Tx (Returns 0), Rx (Returns 0), Tx (Fails 0)] (start_tunnel [1, 2, 3] [7])"
  have t: "fw_tx t = Finished" "fw_rx t = Reading" "c_out (remote t) = [1, 2]" "c_out (client t) = [7]"
    by (simp_all add: t_def tunnel_run_def start_tunnel_def doPairedForward_def Let_def)
  show ?thesis
    using tunnel_delivers_prefixes [OF t_def, of "Returns 1" "Returns 1"] t by (simp flip: t_def)
qed

text \<open>C35: The proxy serves only who is authorized: a request other than OPTIONS that the callback does not accept gets the answer 407 and reaches neither the network nor the release callback, one that it accepts is authorized once, first, and released once, last, with what the callback returned; and no request is passed on with the headers that are meant for the proxy, the credentials among them.\<close>

theorem proxy_authorizes_and_releases:
  assumes "es = ServeHTTP i sur r" and "handleAuth i r = (res, aes)"
  shows "(rq_method r \<noteq> ''OPTIONS'' \<longrightarrow>
      (case res of
         Inr info \<Rightarrow> \<exists>mid. es = Authorize # mid @ [Release info] \<and> (\<forall>e \<in> set mid. e \<noteq> Authorize \<and> (\<forall>x. e \<noteq> Release x))
       | Inl err \<Rightarrow> last es = ReplyError ''Proxy authentication required'' 407
           \<and> (\<forall>e \<in> set es. case e of Dial _ \<Rightarrow> False | SendRequest _ _ _ _ \<Rightarrow> False | Tunnel _ \<Rightarrow> False | Release _ \<Rightarrow> False | _ \<Rightarrow> True)))
    \<and> (\<forall>m u h b n. SendRequest m u h b \<in> set es
         \<longrightarrow> n \<in> {''Proxy-Authorization'', ''Proxy-Authenticate'', ''Proxy-Connection''} \<longrightarrow> MarkHeaderName i \<noteq> n \<longrightarrow> map_of h n = None)"
proof -
  have "map_of h n = None" if "SendRequest m u h b \<in> set es"
    "n \<in> {''Proxy-Authorization'', ''Proxy-Authenticate'', ''Proxy-Connection''}" "MarkHeaderName i \<noteq> n" for m u h b n
    using proxy_header_strips [OF that(2,3)] sent_header that(1) assms(1) by metis
  moreover have "case res of
         Inr info \<Rightarrow> \<exists>mid. es = Authorize # mid @ [Release info] \<and> (\<forall>e \<in> set mid. e \<noteq> Authorize \<and> (\<forall>x. e \<noteq> Release x))
       | Inl err \<Rightarrow> last es = ReplyError ''Proxy authentication required'' 407
           \<and> (\<forall>e \<in> set es. case e of Dial _ \<Rightarrow> False | SendRequest _ _ _ _ \<Rightarrow> False | Tunnel _ \<Rightarrow> False | Release _ \<Rightarrow> False | _ \<Rightarrow> True)"
    if "rq_method r \<noteq> ''OPTIONS''"
  proof (cases res)
    case (Inl err)
    then show ?thesis
      using that assms handleAuth_events(2) [of i r err aes] by (auto simp: ServeHTTP_def)
  next
    case (Inr info)
    let ?mid = "if rq_method r = ''CONNECT''
              then (if rq_proto r = 1 then handleV1Connect sur r info
                    else if rq_proto r = 2 then handleV2Connect sur r info
                    else [ReplyError ''Unsupported protocol version'' 505])
              else handleProxy i sur r False (Some info)"
    have "es = Authorize # ?mid @ [Release info]"
      using that assms Inr handleAuth_events(1) [of i r info aes] by (simp add: ServeHTTP_def)
    moreover have "\<forall>e \<in> set ?mid. e \<noteq> Authorize \<and> (\<forall>x. e \<noteq> Release x)"
      using handlers_do_not_release(1) [of _ i sur r False "Some info"] handlers_do_not_release(2,3) [of _ sur r info]
      by (simp split: if_split)
    ultimately show ?thesis using Inr by auto
  qed
  ultimately show ?thesis by blast
qed


definition demo_surroundings :: surroundings where
  "demo_surroundings =
     \<lparr>dial_ok = (\<lambda>_. True), can_hijack = True, hijack_ok = True, write_ok = True, accept_ok = True, newreq_ok = True,
      random_mark = ''m'', send = (\<lambda>_ _ _. Some (200, []))\<rparr>"

definition demo_request :: request where
  "demo_request =
     \<lparr>rq_method = ''GET'', rq_proto = 1, rq_scheme = ''http'', rq_urlhost = ''h'', rq_url = ''http://h/'', rq_host = ''h'',
      rq_header = [(''Proxy-Authorization'', [''Basic abc'']), (''Accept'', [''*''])]\<rparr>"

theorem proxy_authorizes_and_releases_witness:
  "\<exists>mid. ServeHTTP \<lparr>MarkHeaderName = [], AuthCallback = Some (\<lambda>_. Inr (7 :: nat))\<rparr> demo_surroundings demo_request
       = Authorize # mid @ [Release 7] \<and> SendRequest ''GET'' ''http://h/'' [(''Accept'', [''*''])] (Some 7) \<in> set mid"
proof -
  let ?i = "\<lparr>MarkHeaderName = [], AuthCallback = Some (\<lambda>_. Inr (7 :: nat))\<rparr>"
  have auth: "handleAuth ?i demo_request = (Inr 7, [Authorize])"
    by (simp add: handleAuth_def demo_request_def ExtractAuthorizationInfo_def header_get_def Fields_def is_space_def)
  have "rq_method demo_request \<noteq> ''OPTIONS''" by (simp add: demo_request_def)
  then obtain mid where mid: "ServeHTTP ?i demo_surroundings demo_request = Authorize # mid @ [Release 7]"
    using proxy_authorizes_and_releases [OF refl auth, of demo_surroundings] by auto
  moreover have "SendRequest ''GET'' ''http://h/'' [(''Accept'', [''*''])] (Some 7) \<in> set (ServeHTTP ?i demo_surroundings demo_request)"
    using auth by (simp add: ServeHTTP_def handleProxy_def proxy_header_def header_del_def demo_request_def demo_surroundings_def Let_def)
  ultimately show ?thesis by auto
qed

text \<open>A CONNECT request on HTTP/1 whose connection cannot be taken over leaves the dialled connection open.\<close>

lemma failed_hijack_leaks:
  assumes "dial_ok sur (remoteEndpoint r)" and "\<not> (can_hijack sur \<and> hijack_ok sur)"
  shows "CloseRemote \<notin> set (handleV1Connect sur r info) \<and> Tunnel info \<notin> set (handleV1Connect sur r info)"
  using assms by (simp add: handleV1Connect_def)

text \<open>Reading a body through the accounter any number of times reports nothing.\<close>

lemma accounter_reports_zero:
  "snd (accounter_Read (Some (\<lambda>n (cnt, w). (cnt + n, w))) (\<lambda>(cnt, w). (fst (parent w), cnt, snd (parent w))) (cnt, w))
     = (cnt, snd (parent w))"
  by (simp add: accounter_Read_def)

end
