(* ===== verification/Xhttp_Measure.thy ===== *)
theory Xhttp_Measure
  imports Go_Strings
begin

text \<open>
  The labels of the request metrics (\<open>src/xhttp/measure.go\<close>): how the method, the path and the status of a request
  become label values.  Registering the metrics and observing them are calls of the metrics library.  Methods and
  prefixes are compared on ASCII text.
\<close>

section \<open>Operations\<close>

definition upper_char :: "char \<Rightarrow> char" where
  "upper_char c = (let n = of_char c :: nat in if 97 \<le> n \<and> n \<le> 122 then char_of (n - 32) else c)"

definition allowedMethods :: "string list" where
  "allowedMethods = [''GET'', ''HEAD'', ''OPTIONS'', ''TRACE'', ''PUT'', ''DELETE'', ''POST'', ''PATCH'', ''CONNECT'']"

record compiledPattern =
  original :: string
  parts :: "string list"
  isParam :: "bool list"
  partsCount :: nat

record Measure =
  allowedPaths :: "string set"
  allowedPatterns :: "compiledPattern list"

text \<open>A part is a parameter when it begins with an opening and ends with a closing brace.\<close>

definition compilePattern :: "string \<Rightarrow> compiledPattern" where
  "compilePattern pattern =
     (let parts = split_char CHR ''/'' pattern in
      \<lparr>original = pattern, parts = parts,
       isParam = map (\<lambda>part. part \<noteq> [] \<and> hd part = CHR ''{'' \<and> last part = CHR ''}'') parts,
       partsCount = length parts\<rparr>)"

fun measure_loop :: "string list \<Rightarrow> Measure \<Rightarrow> Measure" where
  "measure_loop [] m = m"
| "measure_loop (path # paths) m =
     measure_loop paths
       (if CHR ''{'' \<in> set path then m\<lparr>allowedPatterns := allowedPatterns m @ [compilePattern path]\<rparr>
        else m\<lparr>allowedPaths := insert path (allowedPaths m)\<rparr>)"

definition NewMeasure :: "string list \<Rightarrow> Measure" where
  "NewMeasure paths = measure_loop paths \<lparr>allowedPaths = {}, allowedPatterns = []\<rparr>"

definition normalizeMethod :: "string \<Rightarrow> string" where
  "normalizeMethod method =
     (let upper = map upper_char method in if upper \<in> set allowedMethods then upper else ''unknown'')"

fun parts_match :: "bool list \<Rightarrow> string list \<Rightarrow> string list \<Rightarrow> bool" where
  "parts_match (p # ps) (x # xs) (y # ys) \<longleftrightarrow> \<not> (\<not> p \<and> x \<noteq> y) \<and> parts_match ps xs ys"
| "parts_match _ _ _ \<longleftrightarrow> True"

definition matchCompiledPattern :: "compiledPattern \<Rightarrow> string \<Rightarrow> string" where
  "matchCompiledPattern compiled requestPath =
     (let requestParts = split_char CHR ''/'' requestPath in
      if length requestParts \<noteq> partsCount compiled then []
      else if \<not> parts_match (isParam compiled) (parts compiled) requestParts then []
      else original compiled)"

fun match_loop :: "compiledPattern list \<Rightarrow> string \<Rightarrow> string" where
  "match_loop [] requestPath = ''other''"
| "match_loop (compiled # rest) requestPath =
     (if matchCompiledPattern compiled requestPath \<noteq> [] then matchCompiledPattern compiled requestPath
      else match_loop rest requestPath)"

definition normalizePath :: "Measure \<Rightarrow> string \<Rightarrow> string" where
  "normalizePath m requestPath =
     (if requestPath \<in> allowedPaths m then requestPath else match_loop (allowedPatterns m) requestPath)"

definition normalizeResult :: "int \<Rightarrow> string" where
  "normalizeResult status =
     (if status \<ge> 200 \<and> status < 300 then ''success''
      else if status \<ge> 300 \<and> status < 400 then ''redirect''
      else if status \<ge> 400 \<and> status < 500 then ''client_error''
      else if status \<ge> 500 then ''server_error''
      else ''unknown'')"

section \<open>What a path is labelled with\<close>

text \<open>A path is an instance of a pattern when it has as many parts, and equals it in every part that is not a
  parameter.\<close>

definition is_param :: "string \<Rightarrow> bool" where
  "is_param part \<longleftrightarrow> part \<noteq> [] \<and> hd part = CHR ''{'' \<and> last part = CHR ''}''"

definition instance_of :: "string \<Rightarrow> string \<Rightarrow> bool" where
  "instance_of path pattern \<longleftrightarrow>
     list_all2 (\<lambda>p x. is_param p \<or> p = x) (split_char CHR ''/'' pattern) (split_char CHR ''/'' path)"

lemma measure_loop_result:
  "measure_loop paths m = \<lparr>allowedPaths = allowedPaths m \<union> {p \<in> set paths. CHR ''{'' \<notin> set p},
     allowedPatterns = allowedPatterns m @ map compilePattern (filter (\<lambda>p. CHR ''{'' \<in> set p) paths)\<rparr>"
  by (induction paths arbitrary: m) auto

lemma parts_match_iff:
  "length xs = length ys \<Longrightarrow> parts_match (map is_param xs) xs ys \<longleftrightarrow> list_all2 (\<lambda>p x. is_param p \<or> p = x) xs ys"
  by (induction xs ys rule: list_induct2) auto

lemma compiled_fields:
  "isParam (compilePattern pattern) = map is_param (split_char CHR ''/'' pattern)"
  "parts (compilePattern pattern) = split_char CHR ''/'' pattern"
  "partsCount (compilePattern pattern) = length (split_char CHR ''/'' pattern)"
  "original (compilePattern pattern) = pattern"
  by (simp_all add: compilePattern_def is_param_def [abs_def] Let_def)

lemma match_compiled: "matchCompiledPattern (compilePattern pattern) path = (if instance_of path pattern then pattern else [])"
proof (cases "length (split_char CHR ''/'' path) = length (split_char CHR ''/'' pattern)")
  case True
  then show ?thesis
    using parts_match_iff [of "split_char CHR ''/'' pattern" "split_char CHR ''/'' path"]
    by (simp only: matchCompiledPattern_def compiled_fields instance_of_def Let_def simp_thms split: if_split) blast
next
  case False
  then have "\<not> instance_of path pattern"
    unfolding instance_of_def by (metis list_all2_lengthD)
  with False show ?thesis by (simp only: matchCompiledPattern_def compiled_fields Let_def simp_thms if_True if_False)
qed

lemma match_loop_find:
  assumes "\<forall>p \<in> set ps. p \<noteq> []"
  shows "match_loop (map compilePattern ps) path = (case find (instance_of path) ps of Some p \<Rightarrow> p | None \<Rightarrow> ''other'')"
  using assms by (induction ps) (auto simp: match_compiled)

lemma find_in_set: "find P xs = Some x \<Longrightarrow> x \<in> set xs"
  by (induction xs) (auto split: if_splits)

lemma normalizePath_find:
  "normalizePath (NewMeasure paths) path =
     (if path \<in> set paths \<and> CHR ''{'' \<notin> set path then path
      else case find (instance_of path) (filter (\<lambda>p. CHR ''{'' \<in> set p) paths) of Some p \<Rightarrow> p | None \<Rightarrow> ''other'')"
proof -
  have "\<forall>p \<in> set (filter (\<lambda>p. CHR ''{'' \<in> set p) paths). p \<noteq> []" by auto
  then show ?thesis by (simp add: normalizePath_def NewMeasure_def measure_loop_result match_loop_find)
qed

section \<open>Properties\<close>

text \<open>C37: Requests cannot make up labels: whatever the method, the path and the status, the method label is one of nine methods or unknown, the path label is a configured path or other, and the result label one of five, so the number of series is bounded by 10 * (configured paths + 1) * 5. A path is labelled with itself when it is configured, and otherwise with the first configured pattern it is an instance of.\<close>

theorem labels_bounded:
  "normalizeMethod method \<in> insert ''unknown'' (set allowedMethods)
   \<and> normalizePath (NewMeasure paths) path \<in> insert ''other'' (set paths)
   \<and> normalizeResult status \<in> {''success'', ''redirect'', ''client_error'', ''server_error'', ''unknown''}
   \<and> card (insert ''unknown'' (set allowedMethods) \<times> insert ''other'' (set paths)
        \<times> {''success'', ''redirect'', ''client_error'', ''server_error'', ''unknown''}) \<le> 10 * (length paths + 1) * 5
   \<and> normalizePath (NewMeasure paths) path =
       (if path \<in> set paths \<and> CHR ''{'' \<notin> set path then path
        else case find (instance_of path) (filter (\<lambda>p. CHR ''{'' \<in> set p) paths) of Some p \<Rightarrow> p | None \<Rightarrow> ''other'')"
proof -
  have 1: "normalizePath (NewMeasure paths) path \<in> insert ''other'' (set paths)"
  proof (cases "find (instance_of path) (filter (\<lambda>p. CHR ''{'' \<in> set p) paths)")
    case None
    then show ?thesis by (simp add: normalizePath_find)
  next
    case (Some p)
    then have "p \<in> set paths" using find_in_set [OF Some] by simp
    then show ?thesis using Some by (simp add: normalizePath_find)
  qed
  have m: "card (insert ''unknown'' (set allowedMethods)) \<le> 10" by (simp add: allowedMethods_def)
  have "card (insert ''other'' (set paths)) \<le> Suc (card (set paths))" by (rule card_insert_le_m1) simp_all
  then have n: "card (insert ''other'' (set paths)) \<le> length paths + 1" using card_length [of paths] by simp
  have r: "card {''success'', ''redirect'', ''client_error'', ''server_error'', ''unknown''} \<le> (5 :: nat)" by simp
  have 2: "card (insert ''unknown'' (set allowedMethods) \<times> insert ''other'' (set paths)
        \<times> {''success'', ''redirect'', ''client_error'', ''server_error'', ''unknown''}) \<le> 10 * (length paths + 1) * 5"
    unfolding card_cartesian_product mult.assoc by (intro mult_le_mono m n r)
  have 3: "normalizeMethod method \<in> insert ''unknown'' (set allowedMethods)" by (simp add: normalizeMethod_def Let_def)
  have 4: "normalizeResult status \<in> {''success'', ''redirect'', ''client_error'', ''server_error'', ''unknown''}"
    by (simp add: normalizeResult_def)
  show ?thesis using 1 2 3 4 normalizePath_find [of paths path] by (intro conjI)
qed
end
