(* ===== verification/Rsakeeper.thy ===== *)
theory Rsakeeper
  imports Xerror Go_Strings "HOL-Library.List_Lexorder" "HOL-Library.Char_ord" "HOL-Library.AList"
begin

text \<open>
  Keys in files (\<open>src/xcrypto/rsakeeper.go\<close> and the public keys of \<open>keys.go\<close>): a directory with one file for each
  key, named by its UUID.  The directory is the association of its names with the bytes of the files; what may go
  wrong in the operating system apart from missing and existing files is an argument of each call.  The formats of
  UUIDs, of PKCS #1 keys and of PEM blocks are parameters.
\<close>

section \<open>Keys\<close>

record ('u, 'k) formats =
  uuid_Nil :: 'u
  uuid_String :: "'u \<Rightarrow> string"
  uuid_Parse :: "string \<Rightarrow> 'u option"
  MarshalPKCS1 :: "'k \<Rightarrow> byte list"
  ParsePKCS1 :: "byte list \<Rightarrow> go_error + 'k"
  pem_Encode :: "string \<Rightarrow> byte list \<Rightarrow> byte list"
  pem_Decode :: "byte list \<Rightarrow> byte list option"

definition MarshalPublicKey :: "('u, 'k) formats \<Rightarrow> 'k \<Rightarrow> byte list" where
  "MarshalPublicKey F key = pem_Encode F ''RSA PUBLIC KEY'' (MarshalPKCS1 F key)"

definition UnmarshalPublicKey :: "('u, 'k) formats \<Rightarrow> byte list \<Rightarrow> go_error + 'k" where
  "UnmarshalPublicKey F bs =
     (case pem_Decode F bs of
        None \<Rightarrow> Inl (EInternalError ''can't parse PEM file'' None)
      | Some block \<Rightarrow>
          (case ParsePKCS1 F block of
             Inl err \<Rightarrow> Inl (EInternalError ''can't parse PEM file'' (Some err))
           | Inr publicKey \<Rightarrow> Inr publicKey))"

section \<open>The keeper\<close>

text \<open>What the operating system answers: success, a failure it names, or another one.\<close>

datatype os_error = NotExist | Exist | OsFailure

type_synonym directory = "(string \<times> byte list) list"

record RSAKeeper =
  files :: directory
  keeper_running :: bool

definition NewRSAKeeper :: "directory \<Rightarrow> RSAKeeper" where
  "NewRSAKeeper d = \<lparr>files = d, keeper_running = False\<rparr>"

definition keeper_Shutdown :: "RSAKeeper \<Rightarrow> RSAKeeper" where
  "keeper_Shutdown keeper = keeper\<lparr>keeper_running := False\<rparr>"

definition os_err :: "os_error \<Rightarrow> go_error" where
  "os_err e = (case e of NotExist \<Rightarrow> Plain ''ErrNotExist'' ''file does not exist'' None
                | Exist \<Rightarrow> Plain ''ErrExist'' ''file already exists'' None
                | OsFailure \<Rightarrow> Plain ''os'' ''input/output error'' None)"

definition makeError :: "os_error \<Rightarrow> string \<Rightarrow> go_error" where
  "makeError err opMessage =
     (if err = NotExist then EEntryNotFound ''key not found'' (Some (os_err err))
      else EInternalError opMessage (Some (os_err err)))"

definition readKey :: "('u, 'k) formats \<Rightarrow> bool \<Rightarrow> 'u \<Rightarrow> directory \<Rightarrow> go_error + 'k" where
  "readKey F ok keyUUID d =
     (if keyUUID = uuid_Nil F then Inl (EInvalidArgument ''nil uuid is not allowed'' None)
      else
        (case map_of d (uuid_String F keyUUID) of
           None \<Rightarrow> Inl (makeError NotExist ''can't read key'')
         | Some pemBytes \<Rightarrow>
             if \<not> ok then Inl (makeError OsFailure ''can't read key'') else UnmarshalPublicKey F pemBytes))"

text \<open>\<open>Write\<close> at the start of an open file that is not truncated; a failure may come after some bytes.\<close>

definition overwrite :: "byte list \<Rightarrow> byte list \<Rightarrow> byte list" where
  "overwrite new old = new @ drop (length new) old"

datatype write_result = Written | OpenFails | FailsAfter nat

definition writeKey :: "('u, 'k) formats \<Rightarrow> write_result \<Rightarrow> 'u \<Rightarrow> 'k \<Rightarrow> bool \<Rightarrow> directory
    \<Rightarrow> go_error option \<times> directory" where
  "writeKey F res keyUUID key create d =
     (if keyUUID = uuid_Nil F then (Some (EInvalidArgument ''nil uuid is not allowed'' None), d)
      else
        (let keyBytes = MarshalPublicKey F key; name = uuid_String F keyUUID in
         if create \<and> map_of d name \<noteq> None
         then (Some (EExists ''key with same ID already exists'' (Some (os_err Exist))), d)
         else if \<not> create \<and> map_of d name = None
         then (Some (EExists ''key does not exists'' (Some (os_err NotExist))), d)
         else
           (let old = (case map_of d name of Some b \<Rightarrow> b | None \<Rightarrow> []) in
            case res of
              OpenFails \<Rightarrow> (Some (EInternalError ''can't store key'' (Some (os_err OsFailure))), d)
            | FailsAfter n \<Rightarrow>
                (Some (EInternalError ''can't store key'' (Some (os_err OsFailure))),
                 AList.update name (overwrite (take n keyBytes) old) d)
            | Written \<Rightarrow> (None, AList.update name (overwrite keyBytes old) d))))"

fun list_loop :: "('u, 'k) formats \<Rightarrow> (string \<Rightarrow> bool) \<Rightarrow> string list \<Rightarrow> directory \<Rightarrow> ('u \<times> 'k) list" where
  "list_loop F ok [] d = []"
| "list_loop F ok (f # fs) d =
     (case uuid_Parse F f of
        None \<Rightarrow> list_loop F ok fs d
      | Some keyUUID \<Rightarrow>
          (case readKey F (ok f) keyUUID d of
             Inl err \<Rightarrow> list_loop F ok fs d
           | Inr key \<Rightarrow> (keyUUID, key) # list_loop F ok fs d))"

definition ListKeys :: "('u, 'k) formats \<Rightarrow> bool \<Rightarrow> (string \<Rightarrow> bool) \<Rightarrow> RSAKeeper \<Rightarrow> go_error + ('u \<times> 'k) list" where
  "ListKeys F ok ok_read keeper =
     (if \<not> ok then Inl (EInternalError ''can't list keys'' (Some (os_err OsFailure)))
      else Inr (list_loop F ok_read (sort (map fst (files keeper))) (files keeper)))"

definition DeleteKey :: "('u, 'k) formats \<Rightarrow> bool \<Rightarrow> 'u \<Rightarrow> RSAKeeper \<Rightarrow> go_error option \<times> RSAKeeper" where
  "DeleteKey F ok keyUUID keeper =
     (if keyUUID = uuid_Nil F then (Some (EInvalidArgument ''nil uuid is not allowed'' None), keeper)
      else if map_of (files keeper) (uuid_String F keyUUID) = None
      then (Some (makeError NotExist ''can't delete key''), keeper)
      else if \<not> ok then (Some (makeError OsFailure ''can't delete key''), keeper)
      else (None, keeper\<lparr>files := AList.delete (uuid_String F keyUUID) (files keeper)\<rparr>))"

definition GetKey :: "('u, 'k) formats \<Rightarrow> bool \<Rightarrow> 'u \<Rightarrow> RSAKeeper \<Rightarrow> go_error + 'k" where
  "GetKey F ok keyUUID keeper = readKey F ok keyUUID (files keeper)"

definition AddKey :: "('u, 'k) formats \<Rightarrow> write_result \<Rightarrow> 'u \<Rightarrow> 'k \<Rightarrow> RSAKeeper \<Rightarrow> go_error option \<times> RSAKeeper" where
  "AddKey F res keyUUID key keeper =
     (let (err, d) = writeKey F res keyUUID key True (files keeper) in (err, keeper\<lparr>files := d\<rparr>))"

definition ChangeKey :: "('u, 'k) formats \<Rightarrow> write_result \<Rightarrow> 'u \<Rightarrow> 'k \<Rightarrow> RSAKeeper \<Rightarrow> go_error option \<times> RSAKeeper" where
  "ChangeKey F res keyUUID key keeper =
     (let (err, d) = writeKey F res keyUUID key False (files keeper) in (err, keeper\<lparr>files := d\<rparr>))"

section \<open>A keeper is a map of keys\<close>

text \<open>What the formats promise: text is read back, and a PEM block is found in front of other bytes.\<close>

definition lawful :: "('u, 'k) formats \<Rightarrow> bool" where
  "lawful F \<longleftrightarrow> (\<forall>u. uuid_Parse F (uuid_String F u) = Some u)
     \<and> (\<forall>k. ParsePKCS1 F (MarshalPKCS1 F k) = Inr k)
     \<and> (\<forall>t b rest. pem_Decode F (pem_Encode F t b @ rest) = Some b)"

lemma string_inj: "lawful F \<Longrightarrow> uuid_String F u = uuid_String F v \<longleftrightarrow> u = v"
  unfolding lawful_def by (metis option.inject)

lemma unmarshal_marshal: "lawful F \<Longrightarrow> UnmarshalPublicKey F (MarshalPublicKey F k @ rest) = Inr k"
  by (simp add: lawful_def UnmarshalPublicKey_def MarshalPublicKey_def)

datatype ('u, 'k) key_op = OpAdd 'u 'k | OpChange 'u 'k | OpDelete 'u | OpGet 'u

fun keeper_step :: "('u, 'k) formats \<Rightarrow> ('u, 'k) key_op \<Rightarrow> RSAKeeper \<Rightarrow> (error_type + 'k option) \<times> RSAKeeper" where
  "keeper_step F (OpAdd u k) keeper =
     (case AddKey F Written u k keeper of (Some e, r) \<Rightarrow> (Inl (errorType e), r) | (None, r) \<Rightarrow> (Inr None, r))"
| "keeper_step F (OpChange u k) keeper =
     (case ChangeKey F Written u k keeper of (Some e, r) \<Rightarrow> (Inl (errorType e), r) | (None, r) \<Rightarrow> (Inr None, r))"
| "keeper_step F (OpDelete u) keeper =
     (case DeleteKey F True u keeper of (Some e, r) \<Rightarrow> (Inl (errorType e), r) | (None, r) \<Rightarrow> (Inr None, r))"
| "keeper_step F (OpGet u) keeper =
     (case GetKey F True u keeper of Inl e \<Rightarrow> (Inl (errorType e), keeper) | Inr k \<Rightarrow> (Inr (Some k), keeper))"

fun keeper_run :: "('u, 'k) formats \<Rightarrow> ('u, 'k) key_op list \<Rightarrow> RSAKeeper \<Rightarrow> (error_type + 'k option) list \<times> RSAKeeper" where
  "keeper_run F [] r = ([], r)"
| "keeper_run F (op # ops) r =
     (let (out, r) = keeper_step F op r; (outs, r) = keeper_run F ops r in (out # outs, r))"

text \<open>The specification: a map from UUIDs to keys.  A key that is to be changed and does not exist is reported like
  one that exists.\<close>

fun key_spec :: "'u \<Rightarrow> ('u, 'k) key_op \<Rightarrow> ('u \<Rightarrow> 'k option) \<Rightarrow> (error_type + 'k option) \<times> ('u \<Rightarrow> 'k option)" where
  "key_spec nil (OpAdd u k) m =
     (if u = nil then (Inl EInvalidArgumentType, m) else if m u \<noteq> None then (Inl EExistsType, m) else (Inr None, m(u \<mapsto> k)))"
| "key_spec nil (OpChange u k) m =
     (if u = nil then (Inl EInvalidArgumentType, m) else if m u = None then (Inl EExistsType, m) else (Inr None, m(u \<mapsto> k)))"
| "key_spec nil (OpDelete u) m =
     (if u = nil then (Inl EInvalidArgumentType, m) else if m u = None then (Inl EEntryNotFoundType, m) else (Inr None, m(u := None)))"
| "key_spec nil (OpGet u) m =
     (if u = nil then (Inl EInvalidArgumentType, m)
      else case m u of None \<Rightarrow> (Inl EEntryNotFoundType, m) | Some k \<Rightarrow> (Inr (Some k), m))"

fun key_specs :: "'u \<Rightarrow> ('u, 'k) key_op list \<Rightarrow> ('u \<Rightarrow> 'k option) \<Rightarrow> (error_type + 'k option) list \<times> ('u \<Rightarrow> 'k option)" where
  "key_specs nil [] m = ([], m)"
| "key_specs nil (op # ops) m =
     (let (out, m) = key_spec nil op m; (outs, m) = key_specs nil ops m in (out # outs, m))"

text \<open>A directory stands for a map of keys: each file is named by a UUID other than nil and begins with its key.\<close>

definition keeps :: "('u, 'k) formats \<Rightarrow> directory \<Rightarrow> ('u \<Rightarrow> 'k option) \<Rightarrow> bool" where
  "keeps F d m \<longleftrightarrow> distinct (map fst d) \<and> m (uuid_Nil F) = None
     \<and> (\<forall>name \<in> dom (map_of d). \<exists>u. name = uuid_String F u \<and> m u \<noteq> None)
     \<and> (\<forall>u k. m u = Some k \<longrightarrow> (\<exists>rest. map_of d (uuid_String F u) = Some (MarshalPublicKey F k @ rest)))"

lemma keeps_none: "lawful F \<Longrightarrow> keeps F d m \<Longrightarrow> map_of d (uuid_String F u) = None \<longleftrightarrow> m u = None"
proof -
  assume l: "lawful F" and k: "keeps F d m"
  show ?thesis
  proof (cases "m u")
    case None
    have "uuid_String F u \<notin> dom (map_of d)"
      using k None string_inj [OF l, of u] unfolding keeps_def by metis
    then show ?thesis using None by (simp add: domIff)
  next
    case (Some k')
    then show ?thesis using k unfolding keeps_def by fastforce
  qed
qed

lemma keeps_read:
  assumes "lawful F" and "keeps F d m" and "u \<noteq> uuid_Nil F"
  shows "readKey F True u d = (case m u of None \<Rightarrow> Inl (makeError NotExist ''can't read key'') | Some k \<Rightarrow> Inr k)"
proof (cases "m u")
  case None
  then show ?thesis using keeps_none [OF assms(1,2), of u] assms(3) by (simp add: readKey_def)
next
  case (Some k)
  then obtain rest where "map_of d (uuid_String F u) = Some (MarshalPublicKey F k @ rest)"
    using assms(2) unfolding keeps_def by blast
  then show ?thesis using Some assms(3) unmarshal_marshal [OF assms(1)] by (simp add: readKey_def)
qed

lemma keeps_write:
  assumes "lawful F" and "keeps F d m" and "u \<noteq> uuid_Nil F"
  shows "keeps F (AList.update (uuid_String F u) (MarshalPublicKey F k @ rest) d) (m(u \<mapsto> k))"
proof -
  let ?d = "AList.update (uuid_String F u) (MarshalPublicKey F k @ rest) d"
  have d: "map_of ?d = (map_of d)(uuid_String F u \<mapsto> MarshalPublicKey F k @ rest)" by (rule update_conv')
  have "distinct (map fst ?d)" using assms(2) distinct_update by (auto simp: keeps_def)
  moreover have "\<forall>name \<in> dom (map_of ?d). \<exists>v. name = uuid_String F v \<and> (m(u \<mapsto> k)) v \<noteq> None"
    using assms(2) unfolding d keeps_def by (metis dom_fun_upd fun_upd_apply insert_iff option.distinct(1))
  moreover have "\<exists>rest. map_of ?d (uuid_String F v) = Some (MarshalPublicKey F k' @ rest)" if "(m(u \<mapsto> k)) v = Some k'" for v k'
    using that assms(2) string_inj [OF assms(1), of v u] unfolding d keeps_def by (auto split: if_splits)
  ultimately show ?thesis using assms(2,3) by (simp add: keeps_def)
qed

lemma keeps_delete:
  assumes "lawful F" and "keeps F d m"
  shows "keeps F (AList.delete (uuid_String F u) d) (m(u := None))"
proof -
  let ?d = "AList.delete (uuid_String F u) d"
  have d: "map_of ?d = (map_of d)(uuid_String F u := None)" by (rule delete_conv')
  have "distinct (map fst ?d)" using assms(2) distinct_delete by (auto simp: keeps_def)
  moreover have "\<forall>name \<in> dom (map_of ?d). \<exists>v. name = uuid_String F v \<and> (m(u := None)) v \<noteq> None"
    using assms(2) unfolding d keeps_def by (metis domIff fun_upd_apply)
  moreover have "\<exists>rest. map_of ?d (uuid_String F v) = Some (MarshalPublicKey F k @ rest)" if "(m(u := None)) v = Some k" for v k
    using that assms(2) string_inj [OF assms(1), of v u] unfolding d keeps_def by (auto split: if_splits)
  ultimately show ?thesis using assms(2) by (simp add: keeps_def)
qed

lemma keeper_step_refines:
  assumes "lawful F" and "keeps F (files r) m" and "key_spec (uuid_Nil F) op m = (out, m')"
  shows "\<exists>r'. keeper_step F op r = (out, r') \<and> keeps F (files r') m'"
proof (cases op)
  case (OpAdd u k)
  then show ?thesis
    using assms keeps_none [OF assms(1,2), of u] keeps_write [OF assms(1,2), of u k "[]"]
    by (auto simp: AddKey_def writeKey_def overwrite_def EInvalidArgument_def EExists_def newError_def Let_def split: if_splits)
next
  case (OpChange u k)
  then show ?thesis
    using assms keeps_none [OF assms(1,2), of u] keeps_write [OF assms(1,2), of u k]
    by (auto simp: ChangeKey_def writeKey_def overwrite_def EInvalidArgument_def EExists_def newError_def Let_def split: if_splits)
next
  case (OpDelete u)
  then show ?thesis
    using assms keeps_none [OF assms(1,2), of u] keeps_delete [OF assms(1,2), of u]
    by (auto simp: DeleteKey_def makeError_def EInvalidArgument_def EEntryNotFound_def newError_def split: if_splits)
next
  case (OpGet u)
  then show ?thesis
    using assms keeps_read [OF assms(1,2), of u]
    by (auto simp: GetKey_def makeError_def EInvalidArgument_def EEntryNotFound_def newError_def readKey_def split: if_splits option.splits)
qed

lemma keeper_run_refines:
  assumes "lawful F" and "keeps F (files r) m" and "key_specs (uuid_Nil F) ops m = (outs, m')"
  shows "\<exists>r'. keeper_run F ops r = (outs, r') \<and> keeps F (files r') m'"
  using assms(2,3)
proof (induction ops arbitrary: r m outs)
  case (Cons op ops)
  obtain out m1 outs1 where 1: "key_spec (uuid_Nil F) op m = (out, m1)" "key_specs (uuid_Nil F) ops m1 = (outs1, m')" "outs = out # outs1"
    using Cons.prems(2) by (auto split: prod.splits)
  obtain r1 where r1: "keeper_step F op r = (out, r1)" "keeps F (files r1) m1"
    using keeper_step_refines [OF assms(1) Cons.prems(1) 1(1)] by blast
  obtain r2 where "keeper_run F ops r1 = (outs1, r2)" "keeps F (files r2) m'" using Cons.IH [OF r1(2) 1(2)] by blast
  then show ?case using 1 r1 by simp
qed simp

lemma list_loop_keeps:
  assumes "lawful F" and "keeps F d m" and "\<forall>f \<in> set fs. \<exists>u. f = uuid_String F u \<and> m u \<noteq> None"
  shows "map (\<lambda>x. uuid_String F (fst x)) (list_loop F (\<lambda>_. True) fs d) = fs
    \<and> (\<forall>(u, k) \<in> set (list_loop F (\<lambda>_. True) fs d). m u = Some k)"
  using assms(3)
proof (induction fs)
  case (Cons f fs)
  obtain u k where f: "f = uuid_String F u" "m u = Some k" using Cons.prems by auto
  have "u \<noteq> uuid_Nil F" using assms(2) f(2) by (auto simp: keeps_def)
  then have "readKey F True u d = Inr k" using keeps_read [OF assms(1,2)] f(2) by simp
  moreover have "uuid_Parse F f = Some u" using assms(1) f(1) by (simp add: lawful_def)
  ultimately show ?case using Cons f by simp
qed simp

section \<open>Properties\<close>

text \<open>C38: The directory of keys behaves as a map: while the operating system does not fail, any sequence of adding, changing, deleting and getting keys in an empty directory answers as a map from UUIDs to keys would, with the nil UUID refused, and listing the keys then gives exactly the keys of the map, each once, in the order of the names of their files. Changing a key does not truncate its file; that the new key is read back rests on the PEM decoder ignoring what follows the block.\<close>

theorem keeper_runs_refine:
  assumes "lawful F" and "key_specs (uuid_Nil F) ops Map.empty = (outs, m)"
  shows "\<exists>r ks. keeper_run F ops (NewRSAKeeper []) = (outs, r) \<and> ListKeys F True (\<lambda>_. True) r = Inr ks
    \<and> set ks = {(u, k). m u = Some k} \<and> distinct ks \<and> sorted (map (\<lambda>x. uuid_String F (fst x)) ks)"
proof -
  have "keeps F (files (NewRSAKeeper [])) Map.empty" by (simp add: keeps_def NewRSAKeeper_def)
  then obtain r where r: "keeper_run F ops (NewRSAKeeper []) = (outs, r)" and k: "keeps F (files r) m"
    using keeper_run_refines [OF assms(1) _ assms(2)] by blast
  let ?fs = "sort (map fst (files r))" and ?ks = "list_loop F (\<lambda>_. True) (sort (map fst (files r))) (files r)"
  have dom: "set ?fs = dom (map_of (files r))" by (simp add: dom_map_of_conv_image_fst)
  have "\<forall>f \<in> set ?fs. \<exists>u. f = uuid_String F u \<and> m u \<noteq> None" using k unfolding dom keeps_def by blast
  note names = list_loop_keeps [OF assms(1) k this]
  have fs: "map (\<lambda>x. uuid_String F (fst x)) ?ks = ?fs" using names by blast
  have "distinct (map (\<lambda>x. uuid_String F (fst x)) ?ks)" using k unfolding fs by (simp add: keeps_def)
  then have dist: "distinct ?ks" by (simp add: distinct_map)
  have "(u, k') \<in> set ?ks" if u: "m u = Some k'" for u k'
  proof -
    have "uuid_String F u \<in> set ?fs" using keeps_none [OF assms(1) k, of u] u unfolding dom by (simp add: domIff)
    then have "uuid_String F u \<in> set (map (\<lambda>x. uuid_String F (fst x)) ?ks)" by (simp only: fs)
    then obtain v k2 where v: "(v, k2) \<in> set ?ks" "uuid_String F v = uuid_String F u" by auto
    then have "v = u" using string_inj [OF assms(1)] by simp
    moreover have "m v = Some k2" using names v(1) by blast
    ultimately show ?thesis using v(1) u by simp
  qed
  then have "set ?ks = {(u, k). m u = Some k}" using names by auto
  moreover have "sorted (map (\<lambda>x. uuid_String F (fst x)) ?ks)" unfolding fs by simp
  ultimately show ?thesis using r dist by (auto simp: ListKeys_def)
qed

text \<open>Formats for which this can be computed: UUIDs are numbers, keys are bytes, and a block is preceded by its length in ones.\<close>

definition demo_formats :: "(nat, byte) formats" where
  "demo_formats =
     \<lparr>uuid_Nil = 0, uuid_String = (\<lambda>n. replicate n CHR ''u''), uuid_Parse = (\<lambda>s. Some (length s)),
      MarshalPKCS1 = (\<lambda>k. [k]), ParsePKCS1 = (\<lambda>b. Inr (hd b)),
      pem_Encode = (\<lambda>t b. replicate (length b) 1 @ 0 # b),
      pem_Decode = (\<lambda>bs. let n = length (takeWhile (\<lambda>x. x = 1) bs) in Some (take n (drop (n + 1) bs)))\<rparr>"

lemma demo_lawful: "lawful demo_formats"
proof -
  have "takeWhile (\<lambda>x. x = 1) (replicate n 1 @ 0 # ys) = replicate n (1 :: byte)" for n ys by (induction n) auto
  then show ?thesis by (simp add: lawful_def demo_formats_def Let_def)
qed

theorem keeper_runs_refine_witness:
  "\<exists>r ks. keeper_run demo_formats [OpAdd 2 7, OpAdd 1 5, OpAdd 2 9, OpChange 2 8, OpGet 2, OpChange 3 1, OpGet 0] (NewRSAKeeper [])
      = ([Inr None, Inr None, Inl EExistsType, Inr None, Inr (Some 8), Inl EExistsType, Inl EInvalidArgumentType], r)
    \<and> ListKeys demo_formats True (\<lambda>_. True) r = Inr ks \<and> set ks = {(2, 8), (1, 5)} \<and> distinct ks"
proof -
  let ?ops = "[OpAdd 2 7, OpAdd 1 5, OpAdd 2 9, OpChange 2 8, OpGet 2, OpChange 3 1, OpGet 0] :: (nat, byte) key_op list"
  let ?m = "[2 \<mapsto> 8, 1 \<mapsto> 5] :: nat \<Rightarrow> byte option"
  have "key_specs (uuid_Nil demo_formats) ?ops Map.empty
      = ([Inr None, Inr None, Inl EExistsType, Inr None, Inr (Some 8), Inl EExistsType, Inl EInvalidArgumentType], ?m)"
    by (simp add: demo_formats_def fun_eq_iff)
  from keeper_runs_refine [OF demo_lawful this]
  obtain r ks where "keeper_run demo_formats ?ops (NewRSAKeeper [])
      = ([Inr None, Inr None, Inl EExistsType, Inr None, Inr (Some 8), Inl EExistsType, Inl EInvalidArgumentType], r)"
    "ListKeys demo_formats True (\<lambda>_. True) r = Inr ks" "set ks = {(u, k). ?m u = Some k}" "distinct ks" by blast
  moreover have "{(u, k). ?m u = Some k} = {(2, 8), (1, 5)}" by (auto split: if_splits)
  ultimately show ?thesis by metis
qed

text \<open>A write that fails half way leaves a file behind: the key can neither be read nor added again.\<close>

lemma failed_add_blocks:
  assumes "lawful F" and "u \<noteq> uuid_Nil F" and "map_of (files r) (uuid_String F u) = None"
    and "AddKey F (FailsAfter n) u k r = (e, r')"
  shows "\<exists>e' r''. AddKey F Written u k r' = (Some (EExists ''key with same ID already exists'' e'), r'')"
  using assms by (auto simp: AddKey_def writeKey_def Let_def update_conv' split: if_splits)

end
