(* ===== verification/Xhttp_Ssl.thy ===== *)
theory Xhttp_Ssl
  imports Go_Json Go_Base64 Go_Time Xerror
begin

text \<open>
  Certificates of the HTTPS server (\<open>src/xhttp/ssl.go\<close>, \<open>ssl_foreign.go\<close>): the issuer that obtains and renews the
  certificate of a domain, keeps it in a file and serves a self-signed one meanwhile, and the watcher that serves the
  certificates it finds in a directory.  The certificate authority's client, the file system and the clock act on a
  world that is passed along; parsing and making certificates are parameters.  Bytes are the characters of a string.
\<close>

section \<open>Certificates and their file\<close>

record leCertInfo =
  le_Domain :: string
  Cert :: string
  Key :: string
  URL :: string

text \<open>A parsed certificate: which one it is, and the end of its validity.\<close>

record tls_cert =
  pem :: "string \<times> string"
  NotAfter :: int

record resource =
  Certificate :: string
  PrivateKey :: string
  CertURL :: string

record 'w services =
  clock :: "'w \<Rightarrow> int"
  sleep :: "int \<Rightarrow> 'w \<Rightarrow> 'w"
  ReadFile :: "string \<Rightarrow> 'w \<Rightarrow> go_error + string"
  WriteFile :: "string \<Rightarrow> string \<Rightarrow> 'w \<Rightarrow> go_error option \<times> 'w"
  NewClient :: "string \<Rightarrow> 'w \<Rightarrow> go_error option \<times> 'w"
  SetProvider :: "'w \<Rightarrow> go_error option \<times> 'w"
  Register :: "'w \<Rightarrow> go_error option \<times> 'w"
  Obtain :: "string \<Rightarrow> 'w \<Rightarrow> (go_error + resource) \<times> 'w"
  Renew :: "string \<Rightarrow> resource \<Rightarrow> 'w \<Rightarrow> (go_error + resource) \<times> 'w"
  X509KeyPair :: "string \<Rightarrow> string \<Rightarrow> go_error + tls_cert"
  ParseLeaf :: "tls_cert \<Rightarrow> go_error option"
  SelfSign :: "string \<Rightarrow> 'w \<Rightarrow> (go_error + tls_cert) \<times> 'w"

definition parseX509 :: "'w services \<Rightarrow> string \<Rightarrow> string \<Rightarrow> go_error + tls_cert" where
  "parseX509 S cert key =
     (case X509KeyPair S cert key of
        Inl err \<Rightarrow> Inl (WInternalError ''ssl'' ''failed to parse x509 key pair'' (Some err))
      | Inr incert \<Rightarrow>
          (case ParseLeaf S incert of
             Some err \<Rightarrow> Inl (WInternalError ''ssl'' ''failed to parse the leaf'' (Some err))
           | None \<Rightarrow> Inr incert))"

text \<open>The file is a JSON object; the two byte slices are its base-64 text.  Members are found by their exact names.\<close>

definition marshal_cert :: "leCertInfo \<Rightarrow> string" where
  "marshal_cert c =
     json_object [(''domain'', le_Domain c), (''cert'', b64_encode (Cert c)), (''key'', b64_encode (Key c)), (''url'', URL c)]"

definition json_error :: go_error where "json_error = Plain ''json'' ''cannot unmarshal'' None"

definition string_field :: "(string \<times> unit any) list \<Rightarrow> string \<Rightarrow> go_error + string" where
  "string_field kvs name =
     (case map_of kvs name of
        None \<Rightarrow> Inr [] | Some ANil \<Rightarrow> Inr [] | Some (AString s) \<Rightarrow> Inr s | Some _ \<Rightarrow> Inl json_error)"

definition bytes_field :: "(string \<times> unit any) list \<Rightarrow> string \<Rightarrow> go_error + string" where
  "bytes_field kvs name =
     (case string_field kvs name of
        Inl e \<Rightarrow> Inl e
      | Inr s \<Rightarrow> (case b64_decode s of None \<Rightarrow> Inl json_error | Some b \<Rightarrow> Inr b))"

definition unmarshal_cert :: "string \<Rightarrow> go_error + leCertInfo" where
  "unmarshal_cert s =
     (case json_read (\<lambda>_. Some ()) s of
        Some (AObject kvs) \<Rightarrow>
          (case (string_field kvs ''domain'', bytes_field kvs ''cert'', bytes_field kvs ''key'', string_field kvs ''url'') of
             (Inr d, Inr c, Inr k, Inr u) \<Rightarrow> Inr \<lparr>le_Domain = d, Cert = c, Key = k, URL = u\<rparr>
           | _ \<Rightarrow> Inl json_error)
      | Some ANil \<Rightarrow> Inr \<lparr>le_Domain = [], Cert = [], Key = [], URL = []\<rparr>
      | _ \<Rightarrow> Inl json_error)"

section \<open>The issuer\<close>

record Issuer =
  opt_Domain :: string
  opt_CacheDir :: string
  opt_Email :: string
  cli :: bool
  leCert :: "leCertInfo option"
  tlsCert :: "tls_cert option"

definition cachedCertPath :: "Issuer \<Rightarrow> string" where
  "cachedCertPath s = opt_CacheDir s @ ''/'' @ opt_Domain s @ ''.json''"

definition loadCachedCertificate :: "'w services \<Rightarrow> Issuer \<Rightarrow> 'w \<Rightarrow> go_error option \<times> Issuer" where
  "loadCachedCertificate S s w =
     (case ReadFile S (cachedCertPath s) w of
        Inl err \<Rightarrow> (Some err, s)
      | Inr bs \<Rightarrow>
          (case unmarshal_cert bs of
             Inl err \<Rightarrow> (Some err, s)
           | Inr c \<Rightarrow>
               (case parseX509 S (Cert c) (Key c) of
                  Inl err \<Rightarrow> (Some err, s)
                | Inr t \<Rightarrow> (None, s\<lparr>leCert := Some c, tlsCert := Some t\<rparr>))))"

definition writeCert :: "'w services \<Rightarrow> Issuer \<Rightarrow> 'w \<Rightarrow> go_error option \<times> 'w" where
  "writeCert S s w =
     (case WriteFile S (cachedCertPath s) (case leCert s of None \<Rightarrow> ''null'' | Some c \<Rightarrow> marshal_cert c) w of
        (Some err, w) \<Rightarrow> (Some (WInternalError ''ssl'' ''failed to write cert data to a file'' (Some err)), w)
      | (None, w) \<Rightarrow> (None, w))"

definition getLEClient :: "'w services \<Rightarrow> Issuer \<Rightarrow> 'w \<Rightarrow> go_error option \<times> Issuer \<times> 'w" where
  "getLEClient S s w =
     (if cli s then (None, s, w)
      else
        (case NewClient S (opt_Email s) w of
           (Some err, w) \<Rightarrow> (Some (WInternalError ''ssl'' ''failed to create LE client'' (Some err)), s, w)
         | (None, w) \<Rightarrow>
             (case SetProvider S w of
                (Some err, w) \<Rightarrow> (Some (WInternalError ''ssl'' ''failed to set http-01 provider'' (Some err)), s, w)
              | (None, w) \<Rightarrow>
                  (case Register S w of
                     (Some err, w) \<Rightarrow> (Some (WInternalError ''ssl'' ''failed to register user'' (Some err)), s, w)
                   | (None, w) \<Rightarrow> (None, s\<lparr>cli := True\<rparr>, w)))))"

definition issueAndSaveCertificate :: "'w services \<Rightarrow> Issuer \<Rightarrow> 'w \<Rightarrow> go_error option \<times> Issuer \<times> 'w" where
  "issueAndSaveCertificate S s w =
     (case getLEClient S s w of
        (Some err, s, w) \<Rightarrow> (Some err, s, w)
      | (None, s, w) \<Rightarrow>
          (case Obtain S (opt_Domain s) w of
             (Inl err, w) \<Rightarrow> (Some (WInternalError ''ssl'' ''failed to obtain certificate'' (Some err)), s, w)
           | (Inr res, w) \<Rightarrow>
               (case parseX509 S (Certificate res) (PrivateKey res) of
                  Inl err \<Rightarrow> (Some err, s, w)
                | Inr t \<Rightarrow>
                    (let s = s\<lparr>leCert := Some \<lparr>le_Domain = opt_Domain s, Cert = Certificate res,
                                               Key = PrivateKey res, URL = CertURL res\<rparr>, tlsCert := Some t\<rparr> in
                     case writeCert S s w of (e, w) \<Rightarrow> (e, s, w)))))"

definition assignSelfSigned :: "'w services \<Rightarrow> Issuer \<Rightarrow> 'w \<Rightarrow> go_error option \<times> Issuer \<times> 'w" where
  "assignSelfSigned S s w =
     (case SelfSign S (opt_Domain s) w of
        (Inl err, w) \<Rightarrow> (Some err, s, w)
      | (Inr t, w) \<Rightarrow> (None, s\<lparr>tlsCert := Some t\<rparr>, w))"

definition t30days :: int where "t30days = 30 * 24 * 3600 * Second"

definition renewOnce :: "'w services \<Rightarrow> Issuer \<Rightarrow> 'w \<Rightarrow> go_error option \<times> Issuer \<times> 'w" where
  "renewOnce S s w =
     (case (leCert s, tlsCert s) of
        (Some c, Some t) \<Rightarrow>
          if time_sub (NotAfter t) (clock S w) > t30days then (None, s, w)
          else
            (case getLEClient S s w of
               (Some err, s, w) \<Rightarrow> (Some err, s, w)
             | (None, s, w) \<Rightarrow>
                 (case Renew S (le_Domain c) \<lparr>Certificate = Cert c, PrivateKey = Key c, CertURL = URL c\<rparr> w of
                    (Inl err, w) \<Rightarrow> (Some (WInternalError ''ssl'' ''Renew failed'' (Some err)), s, w)
                  | (Inr res, w) \<Rightarrow>
                      (case parseX509 S (Certificate res) (PrivateKey res) of
                         Inl err \<Rightarrow> (Some err, s, w)
                       | Inr t' \<Rightarrow>
                           (let s = s\<lparr>leCert := Some \<lparr>le_Domain = le_Domain c, Cert = Certificate res,
                                                      Key = PrivateKey res, URL = CertURL res\<rparr>, tlsCert := Some t'\<rparr> in
                            case writeCert S s w of (e, w) \<Rightarrow> (e, s, w)))))
      | _ \<Rightarrow> (Some (WInternalError ''ssl'' ''Can't renew, certificate is not set'' None), s, w))"

definition NewIssuer :: "'w services \<Rightarrow> bool \<Rightarrow> go_error + bool \<Rightarrow> string \<Rightarrow> string \<Rightarrow> string \<Rightarrow> 'w
    \<Rightarrow> (go_error + Issuer) \<times> 'w" where
  "NewIssuer S router isDir dn dir email w =
     (if \<not> router then (Inl (Plain ''new'' ''no http router is given'' None), w)
      else
        (case isDir of
           Inl err \<Rightarrow> (Inl err, w)
         | Inr d \<Rightarrow>
             if \<not> d then (Inl (Plain ''new'' (dir @ '': not a directory'') None), w)
             else
               (let issuer = \<lparr>opt_Domain = dn, opt_CacheDir = dir,
                              opt_Email = (if length email = 0 then ''noreply@dummy.org'' else email),
                              cli = False, leCert = None, tlsCert = None\<rparr> in
                case loadCachedCertificate S issuer w of
                  (None, issuer) \<Rightarrow> (Inr issuer, w)
                | (Some _, issuer) \<Rightarrow>
                    (case assignSelfSigned S issuer w of
                       (Some err, issuer, w) \<Rightarrow> (Inl err, w)
                     | (None, issuer, w) \<Rightarrow> (Inr issuer, w)))))"

definition Issuer_GetCertificate :: "Issuer \<Rightarrow> string \<Rightarrow> tls_cert option" where
  "Issuer_GetCertificate s dn = (if map lower_char dn = map lower_char (opt_Domain s) then tlsCert s else None)"

text \<open>
  A task is repeated until it succeeds.  Each wait ends because its time is over or because the issuer is shut
  down (\<open>True\<close>); when the list of waits is used up the worker still sleeps.  The result holds how the task ended,
  how long it slept each time, and the waits that are left.
\<close>

datatype task_end = Succeeded | Cancelled | Asleep

definition minInterval :: int where "minInterval = 60 * Second"
definition maxInterval :: int where "maxInterval = 3600 * Second"

fun workerTask :: "'w services \<Rightarrow> (Issuer \<Rightarrow> 'w \<Rightarrow> go_error option \<times> Issuer \<times> 'w) \<Rightarrow> int \<Rightarrow> bool list \<Rightarrow> Issuer \<Rightarrow> 'w
    \<Rightarrow> task_end \<times> int list \<times> bool list \<times> Issuer \<times> 'w" where
  "workerTask S task interval [] s w =
     (case task s w of
        (None, s, w) \<Rightarrow> (Succeeded, [], [], s, w)
      | (Some err, s, w) \<Rightarrow> (Asleep, [interval], [], s, w))"
| "workerTask S task interval (stop # waits) s w =
     (case task s w of
        (None, s, w) \<Rightarrow> (Succeeded, [], stop # waits, s, w)
      | (Some err, s, w) \<Rightarrow>
          if stop then (Cancelled, [interval], waits, s, w)
          else
            (case workerTask S task (if interval * 4 > maxInterval then maxInterval else interval * 4) waits s (sleep S interval w) of
               (e, slept, rest) \<Rightarrow> (e, interval # slept, rest)))"

lemma workerTask_rest:
  "workerTask S task interval waits s w = (e, slept, rest, s', w') \<Longrightarrow> length rest \<le> length waits"
  by (induction waits arbitrary: interval s w slept) (fastforce split: prod.splits option.splits if_splits)+

function worker_loop :: "'w services \<Rightarrow> bool list \<Rightarrow> Issuer \<Rightarrow> 'w \<Rightarrow> Issuer \<times> 'w" where
  "worker_loop S [] s w = (s, w)"
| "worker_loop S (stop # waits) s w =
     (if stop then (s, w)
      else
        (case workerTask S (renewOnce S) minInterval waits s (sleep S (24 * 3600 * Second) w) of
           (e, slept, rest, s, w) \<Rightarrow> if e = Asleep then (s, w) else worker_loop S rest s w))"
  by pat_completeness auto

termination worker_loop
  by (relation "measure (\<lambda>(S, waits, s, w). length waits)") (auto simp: less_Suc_eq_le dest!: workerTask_rest [OF sym])

definition worker :: "'w services \<Rightarrow> bool list \<Rightarrow> Issuer \<Rightarrow> 'w \<Rightarrow> Issuer \<times> 'w" where
  "worker S waits s w =
     (case (if leCert s = None then workerTask S (issueAndSaveCertificate S) minInterval waits s w
            else (Succeeded, [], waits, s, w)) of
        (e, slept, waits, s, w) \<Rightarrow>
          if e = Asleep then (s, w)
          else
            (case workerTask S (renewOnce S) minInterval waits s w of
               (e, slept, waits, s, w) \<Rightarrow> if e = Asleep then (s, w) else worker_loop S waits s w))"


section \<open>The watcher\<close>

text \<open>The certificates found in a directory: the files in the order in which they are listed, with what is read.\<close>

type_synonym certs = "string \<Rightarrow> tls_cert option option"

definition watcher_read :: "'w services \<Rightarrow> go_error + string \<Rightarrow> (string \<times> tls_cert option) \<times> go_error option" where
  "watcher_read S content =
     (case content of
        Inl err \<Rightarrow> (([], None), Some err)
      | Inr bs \<Rightarrow>
          (case unmarshal_cert bs of
             Inl err \<Rightarrow> (([], None), Some err)
           | Inr c \<Rightarrow>
               (case parseX509 S (Cert c) (Key c) of
                  Inl err \<Rightarrow> (([], None), Some err)
                | Inr t \<Rightarrow> ((le_Domain c, Some t), None))))"

definition watcher_sync :: "'w services \<Rightarrow> string \<Rightarrow> go_error + (go_error + string) list \<Rightarrow> certs \<Rightarrow> certs" where
  "watcher_sync S path listing certs =
     (if path = [] then certs
      else
        (case listing of
           Inl err \<Rightarrow> certs
         | Inr contents \<Rightarrow>
             fold (\<lambda>content m. let ((dn, cert), err) = watcher_read S content in m(dn \<mapsto> cert)) contents Map.empty))"

definition watcher_GetCertificate :: "certs \<Rightarrow> string \<Rightarrow> go_error + tls_cert option" where
  "watcher_GetCertificate certs dn =
     (case certs dn of
        Some cert \<Rightarrow> Inr cert
      | None \<Rightarrow>
          if certs = Map.empty then Inl (Plain ''errorf'' ''certificates is not loaded yet'' None)
          else Inl (Plain ''errorf'' ''unknown domain name'' None))"

section \<open>What an issuer serves\<close>

text \<open>There is a certificate, and it is the parsed form of the one that is kept for renewal.\<close>

definition serves :: "'w services \<Rightarrow> Issuer \<Rightarrow> bool" where
  "serves S s \<longleftrightarrow> (\<exists>t. tlsCert s = Some t \<and> (\<forall>c. leCert s = Some c \<longrightarrow> parseX509 S (Cert c) (Key c) = Inr t))"

definition same_opts :: "Issuer \<Rightarrow> Issuer \<Rightarrow> bool" where
  "same_opts s s' \<longleftrightarrow> opt_Domain s' = opt_Domain s \<and> opt_CacheDir s' = opt_CacheDir s \<and> opt_Email s' = opt_Email s"

definition good_task :: "'w services \<Rightarrow> (Issuer \<Rightarrow> 'w \<Rightarrow> go_error option \<times> Issuer \<times> 'w) \<Rightarrow> bool" where
  "good_task S task \<longleftrightarrow>
     (\<forall>s w e s' w'. serves S s \<longrightarrow> task s w = (e, s', w') \<longrightarrow> serves S s' \<and> same_opts s s')"

lemma getLEClient_keeps:
  assumes "getLEClient S s w = (e, s', w')"
  shows "leCert s' = leCert s \<and> tlsCert s' = tlsCert s \<and> same_opts s s'"
  using assms by (auto simp: getLEClient_def same_opts_def split: if_splits prod.splits option.splits)

lemma same_opts_trans: "same_opts a b \<Longrightarrow> same_opts b c \<Longrightarrow> same_opts a c"
  by (simp add: same_opts_def)

text \<open>Storing a certificate that parses.\<close>

lemma stored_serves:
  "parseX509 S (Cert c) (Key c) = Inr t \<Longrightarrow> serves S (s\<lparr>leCert := Some c, tlsCert := Some t\<rparr>)
    \<and> same_opts s (s\<lparr>leCert := Some c, tlsCert := Some t\<rparr>)"
  by (simp add: serves_def same_opts_def)

lemma issue_good: "good_task S (issueAndSaveCertificate S)"
  unfolding good_task_def
proof (intro allI impI)
  fix s w e s' w' assume s: "serves S s" and run: "issueAndSaveCertificate S s w = (e, s', w')"
  obtain e1 s1 w1 where c: "getLEClient S s w = (e1, s1, w1)" by (cases "getLEClient S s w") auto
  have s1: "serves S s1" "same_opts s s1" using s getLEClient_keeps [OF c] by (auto simp: serves_def)
  show "serves S s' \<and> same_opts s s'"
  proof (cases "s' = s1")
    case True
    then show ?thesis using s1 by simp
  next
    case False
    then show ?thesis
      using run c s1(2)
      by (auto simp: issueAndSaveCertificate_def serves_def same_opts_def Let_def split: option.splits prod.splits sum.splits)
  qed
qed

lemma renew_good: "good_task S (renewOnce S)"
  unfolding good_task_def
proof (intro allI impI)
  fix s w e s' w' assume s: "serves S s" and run: "renewOnce S s w = (e, s', w')"
  obtain e1 s1 w1 where c: "getLEClient S s w = (e1, s1, w1)" by (cases "getLEClient S s w") auto
  have s1: "serves S s1" "same_opts s s1" using s getLEClient_keeps [OF c] by (auto simp: serves_def)
  show "serves S s' \<and> same_opts s s'"
  proof (cases "s' = s \<or> s' = s1")
    case True
    then show ?thesis using s s1 by (auto simp: same_opts_def)
  next
    case False
    then show ?thesis
      using run c s1(2)
      by (auto simp: renewOnce_def serves_def same_opts_def Let_def split: option.splits prod.splits sum.splits if_splits)
  qed
qed

lemma workerTask_good:
  assumes "good_task S task" and "serves S s" and "workerTask S task interval waits s w = (e, slept, rest, s', w')"
  shows "serves S s' \<and> same_opts s s'"
  using assms(2,3)
proof (induction waits arbitrary: interval s w slept)
  case Nil
  obtain e1 s1 w1 where t: "task s w = (e1, s1, w1)" by (cases "task s w") auto
  then have "s' = s1" using Nil.prems(2) by (auto split: option.splits)
  then show ?case using assms(1) Nil.prems(1) t unfolding good_task_def by blast
next
  case (Cons stop waits)
  obtain e1 s1 w1 where t: "task s w = (e1, s1, w1)" by (cases "task s w") auto
  then have s1: "serves S s1" "same_opts s s1" using assms(1) Cons.prems(1) unfolding good_task_def by blast+
  show ?case
  proof (cases "e1 = None \<or> stop")
    case True
    then have "s' = s1" using Cons.prems(2) t by (auto split: option.splits)
    then show ?thesis using s1 by simp
  next
    case False
    let ?i = "if interval * 4 > maxInterval then maxInterval else interval * 4"
    obtain sl where "workerTask S task ?i waits s1 (sleep S interval w1) = (e, sl, rest, s', w')"
      using False Cons.prems(2) t by (auto split: prod.splits)
    then show ?thesis using Cons.IH [OF s1(1)] same_opts_trans [OF s1(2)] by blast
  qed
qed

lemma worker_loop_good:
  "serves S s \<Longrightarrow> worker_loop S waits s w = (s', w') \<Longrightarrow> serves S s' \<and> same_opts s s'"
proof (induction S waits s w arbitrary: s' w' rule: worker_loop.induct)
  case (1 S s w)
  then show ?case by (simp add: same_opts_def)
next
  case (2 S stop waits s w)
  obtain e slept rest s1 w1 where t: "workerTask S (renewOnce S) minInterval waits s (sleep S (24 * 3600 * Second) w) = (e, slept, rest, s1, w1)"
    by (metis prod_cases5)
  have s1: "serves S s1" "same_opts s s1" using workerTask_good [OF renew_good 2(2) t] by simp_all
  show ?case
  proof (cases "stop \<or> e = Asleep")
    case True
    then show ?thesis using 2(2,3) s1 t by (auto simp: same_opts_def split: if_splits)
  next
    case False
    then have "worker_loop S rest s1 w1 = (s', w')" using 2(3) t by simp
    moreover have "\<not> stop" "e \<noteq> Asleep" using False by simp_all
    ultimately show ?thesis
      using 2(1) [OF _ t [symmetric] refl refl refl] s1(1) same_opts_trans [OF s1(2)] by blast
  qed
qed


lemma worker_good:
  assumes "serves S s" and "worker S waits s w = (s', w')"
  shows "serves S s' \<and> same_opts s s'"
proof -
  obtain e slept rest s1 w1 where 1: "(if leCert s = None then workerTask S (issueAndSaveCertificate S) minInterval waits s w
            else (Succeeded, [], waits, s, w)) = (e, slept, rest, s1, w1)"
    by (metis prod_cases5)
  have s1: "serves S s1" "same_opts s s1"
    using workerTask_good [OF issue_good assms(1), of minInterval waits w e slept rest s1 w1] 1 assms(1)
    by (auto simp: same_opts_def split: if_splits)
  obtain e2 slept2 rest2 s2 w2 where 2: "workerTask S (renewOnce S) minInterval rest s1 w1 = (e2, slept2, rest2, s2, w2)"
    by (metis prod_cases5)
  have s2: "serves S s2" "same_opts s s2"
    using workerTask_good [OF renew_good s1(1) 2] same_opts_trans [OF s1(2)] by blast+
  have "worker S waits s w = (if e = Asleep then (s1, w1) else if e2 = Asleep then (s2, w2) else worker_loop S rest2 s2 w2)"
    unfolding worker_def 1 by (simp add: 2)
  then show ?thesis
    using assms(2) s1 s2 worker_loop_good [OF s2(1), of rest2 w2 s' w'] same_opts_trans [OF s2(2)] by (auto split: if_splits)
qed

lemma NewIssuer_serves:
  assumes "NewIssuer S router isDir dn dir email w = (Inr s, w')"
  shows "serves S s \<and> opt_Domain s = dn"
  using assms
  by (auto simp: NewIssuer_def loadCachedCertificate_def assignSelfSigned_def serves_def Let_def
      split: if_splits sum.splits option.splits prod.splits)

text \<open>How long a task sleeps between its attempts: one minute, four times as long each time, an hour at most.\<close>

lemma workerTask_slept:
  assumes "workerTask S task interval waits s w = (e, slept, rest, s', w')" and "0 < interval" and "i < length slept"
  shows "slept ! i = (if i = 0 then interval else min (interval * 4 ^ i) maxInterval)"
  using assms
proof (induction waits arbitrary: interval s w slept i)
  case Nil
  then show ?case by (auto split: option.splits prod.splits)
next
  case (Cons stop waits)
  obtain e1 s1 w1 where t: "task s w = (e1, s1, w1)" by (cases "task s w") auto
  let ?i = "if interval * 4 > maxInterval then maxInterval else interval * 4"
  show ?case
  proof (cases "e1 = None \<or> stop")
    case True
    then show ?thesis using Cons.prems t by (auto split: option.splits)
  next
    case False
    obtain sl where sl: "workerTask S task ?i waits s1 (sleep S interval w1) = (e, sl, rest, s', w')" "slept = interval # sl"
      using False Cons.prems(1) t by (auto split: prod.splits)
    have pos: "0 < ?i" using Cons.prems(2) by (simp add: maxInterval_def Second_def)
    show ?thesis
    proof (cases i)
      case (Suc j)
      have ih: "sl ! j = (if j = 0 then ?i else min (?i * 4 ^ j) maxInterval)"
        using Cons.IH [OF sl(1) pos, of j] Cons.prems(3) sl(2) Suc by simp
      have "min (?i * 4 ^ j) maxInterval = min (interval * 4 ^ i) maxInterval"
      proof (cases "interval * 4 > maxInterval")
        case True
        have one: "1 \<le> (4 :: int) ^ j" by simp
        have "maxInterval * 1 \<le> maxInterval * 4 ^ j"
          using one by (intro mult_left_mono) (simp_all add: maxInterval_def Second_def)
        moreover have "interval * 4 * 1 \<le> interval * 4 * 4 ^ j"
          using one Cons.prems(2) by (intro mult_left_mono) simp_all
        ultimately show ?thesis using True Suc by (simp add: mult.assoc)
      qed (simp add: Suc mult.assoc)
      moreover have "?i = min ?i maxInterval" by simp
      ultimately show ?thesis using ih sl(2) Suc by (cases j) auto
    qed (use sl(2) in simp)
  qed
qed

section \<open>The file is read back\<close>

lemma json_members_join:
  "json_members ms = join_char (CHR '','') (map (member_text (\<lambda>_. [])) (map (\<lambda>(k, v). (k, AString v :: unit any)) ms))"
  by (induction ms rule: json_members.induct) (auto simp: member_text_def)

lemma json_read_object:
  assumes "ms \<noteq> []" and "distinct (map fst ms)" and "\<forall>(k, v) \<in> set ms. ascii k \<and> ascii v"
  shows "json_read (\<lambda>_. Some ()) (json_object ms) = Some (AObject (map (\<lambda>(k, v). (k, AString v)) ms))"
proof -
  let ?ms = "map (\<lambda>(k, v). (k, AString v :: unit any)) ms"
  have "json_read (\<lambda>_. Some ()) (CHR ''{'' # join_char (CHR '','') (map (member_text (\<lambda>_. [])) ?ms) @ ''}'')
      = Some (AObject (map (\<lambda>p. (fst p, reread (\<lambda>_. Some ()) (snd p))) ?ms))"
    using assms by (intro json_read_members) (auto simp: reads_integers_def comp_def split_beta)
  moreover have "map (\<lambda>p. (fst p, reread (\<lambda>_. Some ()) (snd p))) ?ms = ?ms" by auto
  ultimately show ?thesis by (simp add: json_object_def json_members_join)
qed

lemma ascii_b64: "ascii (b64_encode s)"
proof -
  have "(of_char (b64_char d) :: nat) < 128" if "d < 64" for d using that by (auto simp: of_b64_char)
  then show ?thesis by (induction s rule: b64_encode.induct) (simp_all add: ascii_def b64_sextets)
qed

lemma unmarshal_marshal_cert:
  assumes "ascii (le_Domain c)" and "ascii (URL c)"
  shows "unmarshal_cert (marshal_cert c) = Inr c"
proof -
  let ?ms = "[(''domain'', le_Domain c), (''cert'', b64_encode (Cert c)), (''key'', b64_encode (Key c)), (''url'', URL c)]"
  have "json_read (\<lambda>_. Some ()) (json_object ?ms) = Some (AObject (map (\<lambda>(k, v). (k, AString v)) ?ms))"
    using assms by (intro json_read_object) (simp_all add: ascii_b64, simp_all add: ascii_def)
  then show ?thesis
    by (simp add: unmarshal_cert_def marshal_cert_def string_field_def bytes_field_def b64_decode_encode)
qed

section \<open>Properties\<close>

text \<open>C39: An issuer always has a certificate to serve: once it has been made, whatever the certificate authority, the file system and the clock do and whenever it is shut down, it serves a certificate for its domain, in whatever case the client spells it, and nothing for another one, and the certificate it serves is the parsed form of the one it keeps for renewal, if any.\<close>

theorem issuer_always_serves:
  assumes "NewIssuer S router isDir dn dir email w = (Inr s, w1)" and "worker S waits s w1 = (s', w2)"
    and "map lower_char name = map lower_char dn"
  shows "\<exists>t. Issuer_GetCertificate s' name = Some t
    \<and> (\<forall>c. leCert s' = Some c \<longrightarrow> parseX509 S (Cert c) (Key c) = Inr t)
    \<and> (\<forall>other. map lower_char other \<noteq> map lower_char dn \<longrightarrow> Issuer_GetCertificate s' other = None)"
proof -
  have "serves S s" "opt_Domain s = dn" using NewIssuer_serves [OF assms(1)] by simp_all
  moreover from this have "serves S s'" "same_opts s s'" using worker_good [OF _ assms(2)] by blast+
  ultimately show ?thesis using assms(3) by (auto simp: serves_def same_opts_def Issuer_GetCertificate_def)
qed

text \<open>Services on a world of files, with an authority that always answers.\<close>

definition demo_services :: "(string \<Rightarrow> string option) services" where
  "demo_services =
     \<lparr>clock = (\<lambda>_. 0), sleep = (\<lambda>_ w. w),
      ReadFile = (\<lambda>p w. case w p of None \<Rightarrow> Inl (Plain ''os'' ''file does not exist'' None) | Some b \<Rightarrow> Inr b),
      WriteFile = (\<lambda>p b w. (None, w(p \<mapsto> b))),
      NewClient = (\<lambda>_ w. (None, w)), SetProvider = (\<lambda>w. (None, w)), Register = (\<lambda>w. (None, w)),
      Obtain = (\<lambda>_ w. (Inr \<lparr>Certificate = ''c'', PrivateKey = ''k'', CertURL = ''u''\<rparr>, w)),
      Renew = (\<lambda>_ r w. (Inr r, w)),
      X509KeyPair = (\<lambda>c k. Inr \<lparr>pem = (c, k), NotAfter = 2 * t30days\<rparr>), ParseLeaf = (\<lambda>_. None),
      SelfSign = (\<lambda>d w. (Inr \<lparr>pem = (''self'', d), NotAfter = 1\<rparr>, w))\<rparr>"

definition demo_issuer :: Issuer where
  "demo_issuer = \<lparr>opt_Domain = ''a.b'', opt_CacheDir = ''/d'', opt_Email = ''e'', cli = False, leCert = None,
     tlsCert = Some \<lparr>pem = (''self'', ''a.b''), NotAfter = 1\<rparr>\<rparr>"

definition demo_cert :: leCertInfo where
  "demo_cert = \<lparr>le_Domain = ''a.b'', Cert = ''c'', Key = ''k'', URL = ''u''\<rparr>"

theorem issuer_always_serves_witness:
  "\<exists>s s' w2 t. NewIssuer demo_services True (Inr True) ''a.b'' ''/d'' ''e'' Map.empty = (Inr s, Map.empty)
    \<and> worker demo_services [False] s Map.empty = (s', w2)
    \<and> Issuer_GetCertificate s' ''A.b'' = Some t \<and> leCert s' = Some demo_cert \<and> parseX509 demo_services ''c'' ''k'' = Inr t"
proof -
  have new: "NewIssuer demo_services True (Inr True) ''a.b'' ''/d'' ''e'' Map.empty = (Inr demo_issuer, Map.empty)"
    by (simp add: NewIssuer_def loadCachedCertificate_def assignSelfSigned_def demo_services_def demo_issuer_def Let_def)
  obtain s' w2 where run: "worker demo_services [False] demo_issuer Map.empty = (s', w2)"
    by (cases "worker demo_services [False] demo_issuer Map.empty")
  have "leCert s' = Some demo_cert"
    using run by (auto simp: worker_def issueAndSaveCertificate_def renewOnce_def getLEClient_def writeCert_def parseX509_def
        demo_services_def demo_issuer_def demo_cert_def t30days_def Second_def time_sub_def max_duration_def min_duration_def Let_def
        split: if_splits)
  moreover have "map lower_char ''A.b'' = map lower_char ''a.b''" by code_simp
  ultimately show ?thesis
    using issuer_always_serves [OF new run] new run by (fastforce simp: demo_cert_def)
qed

text \<open>C40: A certificate survives a restart: when an issuer has written its certificate, a new issuer for the same domain and directory that reads the file starts with this certificate and its renewal data, so that it orders none, as long as the file system returns what was written and the domain and the URL are ASCII text.\<close>

theorem restart_keeps_certificate:
  assumes "\<forall>p b w w'. WriteFile S p b w = (None, w') \<longrightarrow> ReadFile S p w' = Inr b"
    and "writeCert S s w = (None, w1)" and "serves S s" and "leCert s = Some c" and "ascii (le_Domain c)" and "ascii (URL c)"
  shows "\<exists>s'. NewIssuer S True (Inr True) (opt_Domain s) (opt_CacheDir s) email w1 = (Inr s', w1)
    \<and> leCert s' = Some c \<and> tlsCert s' = tlsCert s"
proof -
  obtain t where t: "tlsCert s = Some t" "parseX509 S (Cert c) (Key c) = Inr t" using assms(3,4) by (auto simp: serves_def)
  let ?p = "opt_CacheDir s @ ''/'' @ opt_Domain s @ ''.json''"
  have "WriteFile S ?p (marshal_cert c) w = (None, w1)"
    using assms(2,4) by (auto simp: writeCert_def cachedCertPath_def split: prod.splits option.splits)
  then have "ReadFile S ?p w1 = Inr (marshal_cert c)" using assms(1) by blast
  then show ?thesis
    using t unmarshal_marshal_cert [OF assms(5,6)]
    by (simp add: NewIssuer_def loadCachedCertificate_def cachedCertPath_def Let_def)
qed

theorem restart_keeps_certificate_witness:
  "\<exists>w1 s'. writeCert demo_services (demo_issuer\<lparr>leCert := Some demo_cert, tlsCert := Some \<lparr>pem = (''c'', ''k''), NotAfter = 2 * t30days\<rparr>\<rparr>) Map.empty
        = (None, w1)
    \<and> NewIssuer demo_services True (Inr True) ''a.b'' ''/d'' [] w1 = (Inr s', w1) \<and> leCert s' = Some demo_cert"
proof -
  let ?s = "demo_issuer\<lparr>leCert := Some demo_cert, tlsCert := Some \<lparr>pem = (''c'', ''k''), NotAfter = 2 * t30days\<rparr>\<rparr>"
  obtain w1 where w: "writeCert demo_services ?s Map.empty = (None, w1)"
    by (simp add: writeCert_def demo_services_def)
  have fs: "\<forall>p b w w'. WriteFile demo_services p b w = (None, w') \<longrightarrow> ReadFile demo_services p w' = Inr b"
    by (auto simp: demo_services_def)
  have s: "serves demo_services ?s" by (simp add: serves_def parseX509_def demo_services_def demo_cert_def)
  have c: "ascii (le_Domain demo_cert)" "ascii (URL demo_cert)" by (simp_all add: demo_cert_def ascii_def)
  show ?thesis
    using restart_keeps_certificate [OF fs w s _ c, of "[]"] w by (auto simp: demo_issuer_def)
qed

text \<open>A file that cannot be read makes the watcher serve no certificate, and no error, for the empty name.\<close>

lemma unreadable_file_served:
  assumes "path \<noteq> []"
  shows "watcher_GetCertificate (watcher_sync S path (Inr [Inl err]) certs) [] = Inr None"
  using assms by (simp add: watcher_sync_def watcher_read_def watcher_GetCertificate_def)
end
