(* ===== verification/Xstorage.thy ===== *)
theory Xstorage
  imports Go_Prelude
begin

text \<open>
  SQL requests from structs (\<open>src/xstorage/requests.go\<close>).  What reflection shows of a struct: its fields with their
  names, their \<open>db\<close> tags and their values, as far as the code looks at them.  The request is built from a struct or
  a pointer to one; a struct in it is an exported field (reflection panics on others).
\<close>

section \<open>Structs\<close>

datatype field = Field (f_name: string) (f_tag: string) (f_val: fvalue)
and fvalue = PtrNil | PtrSet | Plain_value bool | Struct "field list"

fun isZero :: "fvalue \<Rightarrow> bool" and allZero :: "field list \<Rightarrow> bool" where
  "isZero PtrNil \<longleftrightarrow> True"
| "isZero PtrSet \<longleftrightarrow> False"
| "isZero (Plain_value z) \<longleftrightarrow> z"
| "isZero (Struct fs) \<longleftrightarrow> allZero fs"
| "allZero [] \<longleftrightarrow> True"
| "allZero (Field n t v # fs) \<longleftrightarrow> isZero v \<and> allZero fs"

text \<open>The columns of a struct and of the structs in it; an unset \<open>ID\<close> is left out.\<close>

fun getFields :: "bool \<Rightarrow> field list \<Rightarrow> string list" and value_fields :: "bool \<Rightarrow> fvalue \<Rightarrow> string list" where
  "getFields omitNull [] = []"
| "getFields omitNull (Field fName columnName v # fs) =
     (if fName = ''ID'' \<and> isZero v then getFields omitNull fs
      else if columnName \<noteq> [] \<and> omitNull \<and> v = PtrNil then getFields omitNull fs
      else (if columnName \<noteq> [] then [columnName] else []) @ value_fields omitNull v @ getFields omitNull fs)"
| "value_fields omitNull (Struct fs) = getFields omitNull fs"
| "value_fields omitNull _ = []"

section \<open>Requests\<close>

definition assign :: "string \<Rightarrow> string" where
  "assign n = n @ ''=:'' @ n"

fun select_loop :: "nat \<Rightarrow> string list \<Rightarrow> string \<Rightarrow> string" where
  "select_loop i [] selectors = selectors"
| "select_loop i (n # ns) selectors =
     select_loop (i + 1) ns (if i = 0 then assign n else selectors @ '' AND '' @ assign n)"

definition GetSelectRequest :: "string \<Rightarrow> field list \<Rightarrow> string" where
  "GetSelectRequest table i =
     (let names = getFields True i in
      if length names = 0 then ''SELECT * FROM '' @ table
      else ''SELECT * FROM '' @ table @ '' WHERE '' @ select_loop 0 names [])"

fun join :: "string \<Rightarrow> string list \<Rightarrow> string" where
  "join sep [] = []"
| "join sep [x] = x"
| "join sep (x # y # ys) = x @ sep @ join sep (y # ys)"

definition GetInsertRequest :: "string \<Rightarrow> field list \<Rightarrow> string" where
  "GetInsertRequest table i =
     (let names = getFields False i in
      if length names = 0 then ''INSERT INTO '' @ table
      else ''INSERT INTO '' @ table @ '' ('' @ join '', '' names @ '') VALUES ('' @ '':'' @ join '', :'' names @ '')'')"

fun update_loop :: "string list \<Rightarrow> string \<Rightarrow> string list \<Rightarrow> string \<Rightarrow> string" where
  "update_loop skipped idName [] vals = vals"
| "update_loop skipped idName (n # ns) vals =
     update_loop skipped idName ns
       (if n \<in> set skipped \<or> n = idName then vals
        else if length vals = 0 then assign n else vals @ '', '' @ assign n)"

definition GetUpdateRequest :: "string \<Rightarrow> string \<Rightarrow> field list \<Rightarrow> string list \<Rightarrow> (string, string) outcome" where
  "GetUpdateRequest table idName i skipped =
     (let allNames = getFields False i; notNullNames = getFields True i in
      if idName \<notin> set notNullNames then Err ''id is not specified''
      else Ok (''UPDATE '' @ table @ '' SET '' @ update_loop skipped idName allNames [] @ '' WHERE '' @ assign idName))"

section \<open>What the requests say\<close>

lemma join_snoc: "xs \<noteq> [] \<Longrightarrow> join sep (xs @ [x]) = join sep xs @ sep @ x"
  by (induction sep xs rule: join.induct) auto

lemma select_loop_join:
  "0 < i \<Longrightarrow> ms \<noteq> [] \<Longrightarrow> selectors = join '' AND '' ms \<Longrightarrow> select_loop i ns selectors = join '' AND '' (ms @ map assign ns)"
proof (induction ns arbitrary: i ms selectors)
  case (Cons n ns)
  then show ?case using Cons.IH [of "i + 1" "ms @ [assign n]"] by (simp add: join_snoc)
qed simp

text \<open>A request selects by every column that is not null, and updates every column but the identifier and the
  skipped ones.\<close>

lemma select_request_form:
  "GetSelectRequest table i = ''SELECT * FROM '' @ table
     @ (if getFields True i = [] then [] else '' WHERE '' @ join '' AND '' (map assign (getFields True i)))"
proof (cases "getFields True i")
  case (Cons n ns)
  then show ?thesis using select_loop_join [of 1 "[assign n]" "assign n" ns] by (simp add: GetSelectRequest_def)
qed (simp add: GetSelectRequest_def)

lemma update_loop_join:
  assumes "\<forall>n \<in> set ms. n \<noteq> []" and "vals = join '', '' ms"
  shows "update_loop skipped idName ns vals
    = join '', '' (ms @ map assign (filter (\<lambda>n. n \<notin> set skipped \<and> n \<noteq> idName) ns))"
  using assms
proof (induction ns arbitrary: ms vals)
  case (Cons n ns)
  have ne: "join '', '' ms \<noteq> []" if "ms \<noteq> []"
  proof -
    obtain x xs where "ms = x # xs" using \<open>ms \<noteq> []\<close> by (cases ms) auto
    then show ?thesis using Cons.prems(1) by (cases xs) auto
  qed
  show ?case
  proof (cases "n \<in> set skipped \<or> n = idName")
    case True
    then show ?thesis using Cons by auto
  next
    case False
    let ?v = "if length vals = 0 then assign n else vals @ '', '' @ assign n"
    have "?v = join '', '' (ms @ [assign n])"
      using Cons.prems(2) ne by (cases "ms = []") (simp_all add: join_snoc)
    then show ?thesis using False Cons.IH [of "ms @ [assign n]" ?v] Cons.prems(1) by (simp add: assign_def)
  qed
qed simp

lemma update_request_form:
  "GetUpdateRequest table idName i skipped =
     (if idName \<in> set (getFields True i)
      then Ok (''UPDATE '' @ table @ '' SET ''
        @ join '', '' (map assign (filter (\<lambda>n. n \<notin> set skipped \<and> n \<noteq> idName) (getFields False i)))
        @ '' WHERE '' @ assign idName)
      else Err ''id is not specified'')"
  using update_loop_join [of "[]" "[]" skipped idName "getFields False i"] by (simp add: GetUpdateRequest_def Let_def)
end
