(* ===== verification/Spec2Isabelle.thy ===== *)
theory Spec2Isabelle
  imports Ipam Xstats List_Store Xttlmap Protect Connmgr Shaper Statutils Xlimits Entitlements Capabilities
    Dnsbase Xpipe Xdns_Builder Control Xproxy Xhttp_Measure Rsakeeper Xhttp_Ssl Xstorage
begin

text \<open>
  A model of the shared Go library of the VPN House services (\<open>src/\<close>) and the theorems that make its components
  correct.

  \<^bold>\<open>The program.\<close> The library is a set of packages that services link.  The largest group manages the addresses of VPN
  peers: \<open>ipam\<close> takes an address from the pool of \<open>ippool\<close> (which computes with the addresses and networks of
  \<open>xnet\<close>), applies the peer's policy through a packet filter driver and a rate limit through a traffic control driver,
  and gives the address back when one of them fails.  Traffic is counted by \<open>xstats\<close> in the byte cache \<open>xcache\<close> and
  slowed down by \<open>shaper\<close>; connections are numbered by \<open>connmgr\<close>, limited by \<open>xlimits\<close>, forwarded by \<open>xproxy\<close> and
  piped by \<open>xpipe\<close> over the condition variable of \<open>xsync\<close>.  Names are resolved by \<open>xdns/client\<close>, whose resolvers
  are composed by a builder and rest on the LRU map \<open>xttlmap\<close> and the linked list \<open>list\<close>; the domain base of
  \<open>xdns/server\<close> answers which domains are blocked.  \<open>xhttp\<close> serves HTTPS with certificates it renews, \<open>xcrypto\<close>
  keeps keys in files, \<open>control\<close> starts and stops services, and every package reports errors through \<open>xerror\<close>.

  \<^bold>\<open>How the code is modelled.\<close> A struct is a record, with the fields of the code; a method is a function from its
  arguments and the state to its result and the new state.  A returned error, a panic and the end of the process are
  values (\<open>outcome\<close> of \<open>Go_Prelude\<close>, sums and options).  Integers that may wrap are words, or integers reduced to 64
  bits.  Where pointers are shared there is a heap of addresses (\<open>Linked_List\<close>, \<open>Xttlmap\<close>, \<open>Xdns_Priority\<close>,
  \<open>Xdns_Builder\<close>, \<open>Connmgr\<close>, \<open>Xlimits\<close>).  A call under a mutex is one step; a call that releases the mutex in between
  is modelled as its critical sections, which other calls may separate (\<open>Xttlmap\<close>, \<open>Xdns_Lastactive\<close>, \<open>Xlimits\<close>,
  \<open>Xpipe\<close>, \<open>Xsync\<close>).  The clock, random numbers, the order in which a Go map is ranged over and the capacity that
  \<open>append\<close> chooses are arguments.  Third-party packages and the operating system are records of functions, or
  functions, that are arguments, and what a theorem assumes of them is among its hypotheses.  Log calls and metrics are
  left out.

  \<^bold>\<open>Language and standard library.\<close>
  \<^item> \<open>Go_Prelude\<close>: integers, outcomes, slices, byte orders, and the collections of rewrite rules.
  \<^item> \<open>Go_Strings\<close>, \<open>Go_Encoding\<close>, \<open>Go_Base64\<close>, \<open>Go_Json\<close>, \<open>Go_Time\<close>: what is used of \<open>strings\<close>, \<open>strconv\<close>,
    \<open>encoding\<close> and \<open>time\<close>, on ASCII text, with the lemmas that text is read back as printed.

  \<^bold>\<open>Addresses.\<close>
  \<^item> \<open>Xnet\<close> (\<open>src/xnet/ip.go\<close>, \<open>private.go\<close>): conversions, first and last usable addresses, private networks.
  \<^item> \<open>Ippool\<close> (\<open>src/ippool\<close>): \<open>Alloc\<close> returns a free address or the error that there is none; every run refines a pool
    of exclusively held addresses.  The contract that the manager relies on is the locale \<open>address_pool\<close>.
  \<^item> \<open>Ipam_Config\<close> (\<open>src/ipam/config.go\<close>, \<open>config_ports.go\<close>): policies, port ranges, and their text forms.
  \<^item> \<open>Ipam_Nft\<close> (\<open>src/ipam/nft_linux.go\<close>): the rules sent to the kernel, and what they do to a packet: which ports the
    filter covers, and which peers are isolated.
  \<^item> \<open>Ipam_Tc\<close> (\<open>src/ipam/tc_linux.go\<close>): classes and filters of a limit, and when their handles collide.
  \<^item> \<open>Ipam\<close> (\<open>src/ipam/ipam.go\<close>): the manager over the pool and any drivers; allocation is atomic for the pool, and runs
    refine the same abstract pool.

  \<^bold>\<open>Storage in memory.\<close>
  \<^item> \<open>Xcache_Bucket\<close>, \<open>Xcache\<close> (\<open>src/xcache/cache.go\<close>): the ring buffers at the level of bytes and positions; a lookup
    that finds a value finds the one set last.  The locale \<open>lossy_store\<close> is what \<open>Xstats\<close> relies on.
  \<^item> \<open>Xstats\<close> (\<open>src/xstats\<close>): a report is the sum of the latest things counted.
  \<^item> \<open>Dll\<close>, \<open>Linked_List\<close>, \<open>List_Store\<close> (\<open>src/list/list.go\<close>): the pointer operations, and that they refine operations
    on sequences.
  \<^item> \<open>Xttlmap\<close>, \<open>Expiring_Map\<close> (\<open>src/xttlmap/ttlmap.go\<close>): the LRU map refines a list of entries in the order of their use;
    the interface of its clients is the locale \<open>expiring_map\<close>.
  \<^item> \<open>Protect\<close> (\<open>src/protect\<close>, \<open>src/keycounter\<close>), \<open>Statutils\<close> (\<open>src/statutils\<close>), \<open>Capabilities\<close>, \<open>Entitlements\<close>
    (packages of the same names).
  \<^item> \<open>Rsakeeper\<close> (\<open>src/xcrypto/rsakeeper.go\<close>): a directory of key files is a map of keys.
  \<^item> \<open>Xstorage\<close> (\<open>src/xstorage/requests.go\<close>): the text of the SQL requests.

  \<^bold>\<open>Connections and services.\<close>
  \<^item> \<open>Connmgr\<close> (\<open>src/connmgr\<close>), \<open>Shaper\<close> (\<open>src/shaper\<close>), \<open>Xlimits\<close> (\<open>src/xlimits\<close>): fresh numbers, the bound on the
    rate, and the bound on the holders of an identifier in every interleaving.
  \<^item> \<open>Xsync\<close>, \<open>Xpipe\<close> (\<open>src/xsync/waiter.go\<close>, \<open>src/xpipe/pipe.go\<close>): the order of bytes and the absence of lost wake-ups
    over all interleavings of the critical sections.
  \<^item> \<open>Xhttp_Auth\<close>, \<open>Xproxy\<close> (\<open>src/xhttp/auth.go\<close>, \<open>src/xproxy\<close>): handlers as the sequence of their effects; the tunnel
    as two interleaved goroutines.
  \<^item> \<open>Xhttp_Measure\<close> (\<open>src/xhttp/measure.go\<close>): the labels of the metrics.
  \<^item> \<open>Xhttp_Ssl\<close> (\<open>src/xhttp/ssl.go\<close>, \<open>ssl_foreign.go\<close>): issuing, renewing, storing and serving certificates.
  \<^item> \<open>Control\<close> (\<open>src/control\<close>): the order in which services stop, and the loop of the runtime.
  \<^item> \<open>Xerror\<close> (\<open>src/xerror/errors.go\<close>): errors, their HTTP responses and reports.

  \<^bold>\<open>Names.\<close>
  \<^item> \<open>Xdns_Resolver\<close>, \<open>Xdns_Priority\<close>, \<open>Xdns_Lastactive\<close>, \<open>Xdns_Cached\<close>, \<open>Xdns_Builder\<close> (\<open>src/xdns/client\<close>): each resolver
    with the specification it refines, and the type assertions of the builder.  The locale \<open>resolvers\<close> is the contract of
    a resolver.
  \<^item> \<open>Dnsbase\<close> (\<open>src/xdns/server/dnsbase\<close>, \<open>plugin/blockreq.go\<close>): lookups agree with the domains that were written.

  \<^bold>\<open>Loops.\<close> Loops over data are structural.  Loops that may run forever (the search for an address or a number, eviction,
  writing to a pipe, walking a linked list) are partial functions in which not returning is \<open>None\<close>; that they return,
  or the condition under which they do not, is proved.  No definition takes fuel.  The worker of the issuer consumes a
  list of the ends of its waits: a run is a prefix of what an unbounded worker does, and the theorems hold for every
  list.

  \<^bold>\<open>Where the code departs from its purpose.\<close> Some theorems show what goes wrong, so that it is not taken for granted:
  overlapping port ranges that are not filtered, prefix lengths for which peers are not isolated, limits that stick after
  a failure, pairs evicted from the cache without a report, maps of size zero and racing lookups that loop, integer limits
  lost in entitlements, closed pipes that wake only one reader, resolvers asked in the wrong order.

  \<^bold>\<open>Not modelled.\<close>
  \<^item> \<open>human\<close>: its conversions are floating-point operations and decimal formatting of \<open>float64\<close>.
  \<^item> \<open>auth\<close>, \<open>secret\<close>, \<open>tlsutils\<close>, generating keys and the self-signed certificate: calls of cryptographic and JWT
    libraries around a few checks.
  \<^item> \<open>geoip\<close>, \<open>keystore\<close>: files read by third-party libraries and reloaded when they change.
  \<^item> \<open>validator\<close>: registers the parsers of other libraries.
  \<^item> The servers of \<open>xhttp\<close> and \<open>xdns/server\<close>, the ACME challenge router, opening databases, chunk allocation of
    \<open>xcache\<close>, discovery of the external address, logging and error reporting: wiring of third-party services, or
    operating system calls.
  \<^item> \<open>version\<close>, \<open>xtime\<close>, \<open>xutils\<close>, \<open>xrand\<close>, and the drivers of \<open>ipam\<close> for other platforms: constants, wrappers of
    values, random text and stubs.
\<close>

end
